(* ===== verification/Lsq_Prelude.thy ===== *)
theory Lsq_Prelude
  imports Complex_Main "HOL-Library.Word" "HOL-Library.Monad_Syntax"
begin

text \<open>
  Shared vocabulary of the development: the widths of the C integer types, the limits of
  limits.h, and the generic facts on lists and words that several components use.
\<close>

unbundle bit_operations_syntax

type_synonym u8 = "8 word"
type_synonym u32 = "32 word"
type_synonym u64 = "64 word"

definition INT_MAX :: int where "INT_MAX = 2147483647"
definition INT_MIN :: int where "INT_MIN = -2147483648"

lemmas c_int_limits = INT_MAX_def INT_MIN_def

section \<open>Division by powers of two\<close>

lemma div_pow_le_int: "0 \<le> (x::int) \<Longrightarrow> x div 2 ^ k \<le> x"
  using zdiv_mono2 [of x 1 "2 ^ k"] by simp

lemma int_div_pow:
  fixes x :: int
  shows "x div 2 ^ k * 2 ^ k \<le> x" "x < x div 2 ^ k * 2 ^ k + 2 ^ k" "0 \<le> x \<Longrightarrow> x div 2 ^ k \<le> x"
proof -
  have "x div 2 ^ k * 2 ^ k + x mod 2 ^ k = x" "0 \<le> x mod 2 ^ k" "x mod 2 ^ k < 2 ^ k"
    by (rule div_mult_mod_eq) simp_all
  then show "x div 2 ^ k * 2 ^ k \<le> x" "x < x div 2 ^ k * 2 ^ k + 2 ^ k" by linarith+
  show "0 \<le> x \<Longrightarrow> x div 2 ^ k \<le> x" by (rule div_pow_le_int)
qed

lemma int_div2_less: "(x::int) < 2 * y \<Longrightarrow> x div 2 < y"
  by presburger

lemma int_div_pow_less: "(x::int) < y * 2 ^ k \<Longrightarrow> x div 2 ^ k < y"
  using int_div_pow(1) [of x k] by (metis le_less_trans mult_less_cancel_right zero_less_numeral
      zero_less_power order_less_not_sym)


end
