(* ===== verification/Ls_Cnf.thy ===== *)
theory Ls_Cnf
  imports Lsq_Prelude
begin

text \<open>
  Literals and clauses of the local search, src/localsearch/cnf/Literal.cpp and Clause.cpp.
  An assignment is a vector of bytes indexed by variable: 0, 1, or 2 for unassigned; a set of
  variables to flip is a sorted vector.  Numbers are of type uint32_t in the source and natural
  numbers here, as none of this code computes with them.  Indexing a vector out of range is
  undefined in C++; here the value is unspecified and the theorems assume the indices in range.
\<close>

section \<open>Literals\<close>

record Literal =
  number :: nat
  valu :: bool

definition Literal_dimacs :: "int \<Rightarrow> Literal" where
  "Literal_dimacs dimacsValue = \<lparr>number = nat \<bar>dimacsValue\<bar>, valu = (dimacsValue > 0)\<rparr>"

definition Literal_out :: "Literal \<Rightarrow> int" where
  "Literal_out literal = int (number literal) * (if valu literal then 1 else -1)"

definition Literal_in :: "int \<Rightarrow> Literal" where
  "Literal_in v = \<lparr>number = nat \<bar>v\<bar>, valu = (v > 0)\<rparr>"

definition lit_less :: "Literal \<Rightarrow> Literal \<Rightarrow> bool" where "lit_less l k \<longleftrightarrow> number l < number k"
definition lit_le :: "Literal \<Rightarrow> Literal \<Rightarrow> bool" where "lit_le l k \<longleftrightarrow> number l \<le> number k"
definition lit_ge :: "Literal \<Rightarrow> Literal \<Rightarrow> bool" where "lit_ge l k \<longleftrightarrow> number l \<ge> number k"
definition lit_greater :: "Literal \<Rightarrow> Literal \<Rightarrow> bool" where "lit_greater l k \<longleftrightarrow> number l > number k"
definition lit_eq :: "Literal \<Rightarrow> Literal \<Rightarrow> bool" where "lit_eq l k \<longleftrightarrow> number l = number k"

text \<open>
  The comparisons are the linear preorder of the variable numbers; the sign does not count, so
  a literal equals its negation.
\<close>

lemma lit_order:
  "lit_le l l" "lit_le l k \<Longrightarrow> lit_le k m \<Longrightarrow> lit_le l m" "lit_le l k \<or> lit_le k l"
  "lit_less l k \<longleftrightarrow> lit_le l k \<and> \<not> lit_le k l" "lit_eq l k \<longleftrightarrow> lit_le l k \<and> lit_le k l"
  "lit_ge l k = lit_le k l" "lit_greater l k = lit_less k l"
  by (auto simp: lit_le_def lit_less_def lit_eq_def lit_ge_def lit_greater_def)

section \<open>Clauses\<close>

record Clause =
  literals :: "Literal list"
  satisfied :: "bool list"

text \<open>
  The constructor sorts by variable; std::sort leaves the order of equal elements open, here it
  is kept.
\<close>

definition Clause_new :: "Literal list \<Rightarrow> Clause" where
  "Clause_new ls = \<lparr>literals = sort_key number ls, satisfied = []\<rparr>"

text \<open>Reading a clause: the numbers up to the terminating 0; None when the input ends before.\<close>

fun Clause_in :: "int list \<Rightarrow> (Literal list \<times> int list) option" where
  "Clause_in [] = None"
| "Clause_in (v # vs) =
     (if v = 0 then Some ([], vs)
      else map_option (\<lambda>(ls, rest). (Literal_dimacs v # ls, rest)) (Clause_in vs))"

definition Clause_out :: "Clause \<Rightarrow> int list" where
  "Clause_out clause = map Literal_out (literals clause) @ [0]"

definition holds :: "nat list \<Rightarrow> Literal \<Rightarrow> bool" where
  "holds units l \<longleftrightarrow> units ! number l = of_bool (valu l)"

fun count_sat :: "nat list \<Rightarrow> Literal list \<Rightarrow> nat \<Rightarrow> nat" where
  "count_sat units [] n = n"
| "count_sat units (l # ls) n = count_sat units ls (if units ! number l = of_bool (valu l) then n + 1 else n)"

definition Clause_propagate :: "nat list \<Rightarrow> Clause \<Rightarrow> nat" where
  "Clause_propagate units c = count_sat units (literals c) 0"

fun sat_loop :: "nat list \<Rightarrow> Literal list \<Rightarrow> bool list \<Rightarrow> nat \<Rightarrow> nat \<Rightarrow> bool list \<times> nat" where
  "sat_loop units [] sat i n = (sat, n)"
| "sat_loop units (l # ls) sat i n =
     (if units ! number l = of_bool (valu l) then sat_loop units ls (sat[i := True]) (i + 1) (n + 1)
      else sat_loop units ls (sat[i := False]) (i + 1) n)"

definition resize :: "'a \<Rightarrow> nat \<Rightarrow> 'a list \<Rightarrow> 'a list" where
  "resize z n xs = take n xs @ replicate (n - length xs) z"

definition Clause_propagateSat :: "nat list \<Rightarrow> Clause \<Rightarrow> Clause \<times> nat" where
  "Clause_propagateSat units c =
     (let sat = resize False (length (literals c)) (satisfied c);
          (sat, n) = sat_loop units (literals c) sat 0 0
      in (c\<lparr>satisfied := sat\<rparr>, n))"

text \<open>The scan for a variable in the sorted vector of flipped variables.\<close>

function skip_to :: "nat list \<Rightarrow> nat \<Rightarrow> nat \<Rightarrow> nat" where
  "skip_to fl i n = (if i < length fl \<and> fl ! i < n then skip_to fl (Suc i) n else i)"
  by pat_completeness auto
termination by (relation "measure (\<lambda>(fl, i, n). length fl - i)") auto

declare skip_to.simps [simp del]

fun flip_loop :: "nat list \<Rightarrow> nat list \<Rightarrow> Literal list \<Rightarrow> nat \<Rightarrow> bool" where
  "flip_loop units fl [] i = False"
| "flip_loop units fl (l # ls) i =
     (let i = skip_to fl i (number l);
          flippedValue = (i < length fl \<and> fl ! i = number l)
      in if units ! number l XOR of_bool flippedValue = of_bool (valu l) then True
         else flip_loop units fl ls i)"

definition Clause_propagate_flipped :: "nat list \<Rightarrow> nat list \<Rightarrow> Clause \<Rightarrow> bool" where
  "Clause_propagate_flipped units fl c = flip_loop units fl (literals c) 0"

fun cached_loop :: "nat list \<Rightarrow> Literal list \<Rightarrow> bool list \<Rightarrow> nat \<Rightarrow> bool" where
  "cached_loop fl [] sat i = False"
| "cached_loop fl (l # ls) sat i =
     (let i = skip_to fl i (number l)
      in if (i \<ge> length fl \<or> fl ! i \<noteq> number l) = hd sat then True
         else cached_loop fl ls (tl sat) i)"

definition Clause_propagate_cached :: "nat list \<Rightarrow> Clause \<Rightarrow> bool" where
  "Clause_propagate_cached fl c = cached_loop fl (literals c) (satisfied c) 0"

section \<open>Flipping\<close>

text \<open>The assignment after flipping.\<close>

definition flipped :: "nat list \<Rightarrow> nat list \<Rightarrow> nat list" where
  "flipped units fl = map (\<lambda>i. units ! i XOR of_bool (i \<in> set fl)) [0..<length units]"

lemma length_flipped [simp]: "length (flipped units fl) = length units"
  by (simp add: flipped_def)

lemma flipped_nth: "i < length units \<Longrightarrow> flipped units fl ! i = units ! i XOR of_bool (i \<in> set fl)"
  by (simp add: flipped_def)

lemma skip_to_spec:
  assumes "sorted fl" "i \<le> length fl" "\<forall>j<i. fl ! j < n"
  shows "skip_to fl i n \<le> length fl \<and> (\<forall>j < skip_to fl i n. fl ! j < n) \<and>
    (skip_to fl i n < length fl \<and> fl ! skip_to fl i n = n \<longleftrightarrow> n \<in> set fl)"
  using assms
proof (induction "length fl - i" arbitrary: i rule: less_induct)
  case less
  show ?case
  proof (cases "i < length fl \<and> fl ! i < n")
    case True
    then have "skip_to fl i n = skip_to fl (Suc i) n" by (subst skip_to.simps) simp
    moreover have "\<forall>j<Suc i. fl ! j < n" using less.prems(3) True by (auto simp: less_Suc_eq)
    moreover have "length fl - Suc i < length fl - i" using True by (intro diff_less_mono2) simp_all
    ultimately show ?thesis using less.hyps [of "Suc i"] less.prems(1) True by simp
  next
    case False
    then have e: "skip_to fl i n = i" by (subst skip_to.simps) (simp only: if_False)
    have "i < length fl \<and> fl ! i = n" if "n \<in> set fl"
    proof -
      obtain j where j: "j < length fl" "fl ! j = n" using \<open>n \<in> set fl\<close> by (auto simp: in_set_conv_nth)
      have "i \<le> j" using less.prems(3) j(2) by (meson leI less_irrefl)
      then have "fl ! i \<le> n" using less.prems(1) j sorted_nth_mono by blast
      then show ?thesis using False \<open>i \<le> j\<close> j(1) by linarith
    qed
    then show ?thesis using e less.prems by auto
  qed
qed

lemma flip_loop_spec:
  assumes "sorted fl" "sorted_wrt lit_le ls" "i \<le> length fl" "\<forall>l\<in>set ls. \<forall>j<i. fl ! j < number l"
    and "\<forall>l\<in>set ls. number l < length units"
  shows "flip_loop units fl ls i \<longleftrightarrow> (\<exists>l\<in>set ls. holds (flipped units fl) l)"
  using assms(2-)
proof (induction ls arbitrary: i)
  case Nil
  then show ?case by simp
next
  case (Cons l ls)
  let ?i = "skip_to fl i (number l)"
  have sk: "?i \<le> length fl" "\<forall>j<?i. fl ! j < number l" "(?i < length fl \<and> fl ! ?i = number l) = (number l \<in> set fl)"
    using skip_to_spec [OF assms(1) Cons.prems(2), of "number l"] Cons.prems(3) by simp_all
  have "\<forall>k\<in>set ls. \<forall>j<?i. fl ! j < number k"
    using sk(2) Cons.prems(1) by (auto simp: lit_le_def intro: less_le_trans)
  then have "flip_loop units fl ls ?i \<longleftrightarrow> (\<exists>l\<in>set ls. holds (flipped units fl) l)"
    using Cons.IH Cons.prems(1,4) sk(1) by simp
  moreover have "holds (flipped units fl) l \<longleftrightarrow> units ! number l XOR of_bool (number l \<in> set fl) = of_bool (valu l)"
    using Cons.prems(4) by (simp add: holds_def flipped_nth)
  ultimately show ?case using sk(3) by (simp add: Let_def)
qed

lemma count_sat_spec: "count_sat units ls n = n + length (filter (holds units) ls)"
  by (induction ls arbitrary: n) (simp_all add: holds_def)

lemma sat_loop_spec:
  "length sat = i + length ls \<Longrightarrow>
     sat_loop units ls sat i n = (take i sat @ map (holds units) ls, n + length (filter (holds units) ls))"
proof (induction ls arbitrary: sat i n)
  case Nil
  then show ?case by simp
next
  case (Cons l ls)
  have "take (Suc i) (sat[i := b]) = take i sat @ [b]" for b
    using Cons.prems by (simp add: take_Suc_conv_app_nth)
  then show ?case using Cons.IH [of "sat[i := True]" "i + 1"] Cons.IH [of "sat[i := False]" "i + 1"] Cons.prems
    by (simp add: holds_def)
qed

lemma length_resize [simp]: "length (resize z n xs) = n"
  by (simp add: resize_def)

lemma Clause_propagateSat_spec:
  "Clause_propagateSat units c =
     (c\<lparr>satisfied := map (holds units) (literals c)\<rparr>, length (filter (holds units) (literals c)))"
  by (simp add: Clause_propagateSat_def Let_def sat_loop_spec)

text \<open>Assignments with values 0 and 1 only: the cached values decide the flipped ones.\<close>

lemma holds_flipped:
  assumes "number l < length units" "units ! number l \<le> 1"
  shows "holds (flipped units fl) l \<longleftrightarrow> (number l \<notin> set fl) = holds units l"
proof -
  have "units ! number l = 0 \<or> units ! number l = 1" using assms(2) by linarith
  then show ?thesis using assms(1) by (cases "valu l") (auto simp: holds_def flipped_nth)
qed

lemma cached_loop_spec:
  assumes "sorted fl" "sorted_wrt lit_le ls" "i \<le> length fl" "\<forall>l\<in>set ls. \<forall>j<i. fl ! j < number l"
    and "\<forall>l\<in>set ls. number l < length units \<and> units ! number l \<le> 1"
  shows "cached_loop fl ls (map (holds units) ls) i \<longleftrightarrow> (\<exists>l\<in>set ls. holds (flipped units fl) l)"
  using assms(2-)
proof (induction ls arbitrary: i)
  case Nil
  then show ?case by simp
next
  case (Cons l ls)
  let ?i = "skip_to fl i (number l)"
  have sk: "?i \<le> length fl" "\<forall>j<?i. fl ! j < number l" "(?i < length fl \<and> fl ! ?i = number l) = (number l \<in> set fl)"
    using skip_to_spec [OF assms(1) Cons.prems(2), of "number l"] Cons.prems(3) by simp_all
  have "\<forall>k\<in>set ls. \<forall>j<?i. fl ! j < number k"
    using sk(2) Cons.prems(1) by (auto simp: lit_le_def intro: less_le_trans)
  then have "cached_loop fl ls (map (holds units) ls) ?i \<longleftrightarrow> (\<exists>l\<in>set ls. holds (flipped units fl) l)"
    using Cons.IH Cons.prems(1,4) sk(1) by simp
  moreover have "(length fl \<le> ?i \<or> fl ! ?i \<noteq> number l) = (number l \<notin> set fl)" using sk(1,3) by auto
  ultimately show ?case using holds_flipped [of l units fl] Cons.prems(4) by (simp add: Let_def)
qed

section \<open>Properties\<close>

text \<open>
  C24: Incremental evaluation agrees with evaluation.  For a sorted clause, a sorted vector of
  flipped variables and a complete assignment, all three ways to evaluate the clause after a
  flip are the same: the scan over the flipped variables, the scan over the literals cached by
  propagateSat, and counting the satisfied literals of the flipped assignment.
\<close>

theorem Clause_propagate_agree:
  assumes "sorted fl" "sorted_wrt lit_le (literals c)"
    and "\<forall>l\<in>set (literals c). number l < length units \<and> units ! number l \<le> 1"
  shows "Clause_propagate_flipped units fl c = (Clause_propagate (flipped units fl) c > 0) \<and>
    Clause_propagate_cached fl (fst (Clause_propagateSat units c)) = (Clause_propagate (flipped units fl) c > 0) \<and>
    snd (Clause_propagateSat units c) = Clause_propagate units c"
proof -
  have "Clause_propagate (flipped units fl) c > 0 \<longleftrightarrow> (\<exists>l\<in>set (literals c). holds (flipped units fl) l)"
    by (auto simp: Clause_propagate_def count_sat_spec filter_empty_conv)
  then show ?thesis
    using flip_loop_spec [OF assms(1,2), of 0 units] cached_loop_spec [OF assms(1,2), of 0 units] assms(3)
    by (simp add: Clause_propagate_flipped_def Clause_propagate_cached_def Clause_propagateSat_spec
        Clause_propagate_def count_sat_spec)
qed

theorem Clause_propagate_agree_witness:
  "let c = Clause_new (map Literal_dimacs [-3, 1, 2]); units = [2, 0, 1, 1]; fl = [2, 3] in
   Clause_propagate_flipped units fl c = (Clause_propagate (flipped units fl) c > 0) \<and>
    Clause_propagate_cached fl (fst (Clause_propagateSat units c)) = (Clause_propagate (flipped units fl) c > 0) \<and>
    snd (Clause_propagateSat units c) = Clause_propagate units c"
  unfolding Let_def
  by (rule Clause_propagate_agree) (simp_all add: Clause_new_def Literal_dimacs_def lit_le_def nth_Cons')

text \<open>
  Clauses read from a file are not sorted.  Reading keeps the order of the input, so the
  scan, which relies on sorted literals, misses a satisfied literal: for the clause 3 1 as read
  from a file and all variables false, flipping variable 1 satisfies the clause, but the scan
  answers that it is not satisfied.
\<close>

theorem Clause_in_unsorted:
  "Clause_in [3, 1, 0] = Some ([Literal_dimacs 3, Literal_dimacs 1], []) \<and>
   (let c = \<lparr>literals = [Literal_dimacs 3, Literal_dimacs 1], satisfied = []\<rparr>; units = [2, 0, 0, 0] in
    \<not> Clause_propagate_flipped units [1] c \<and> Clause_propagate (flipped units [1]) c = 1)"
  by (simp add: Literal_dimacs_def Clause_propagate_flipped_def Clause_propagate_def flipped_def
      skip_to.simps nth_Cons' upt_rec numeral_eq_Suc)

end
