(* ===== verification/Ls_Net.thy ===== *)
theory Ls_Net
  imports Ls_Cnf "HOL-Library.Multiset"
begin

text \<open>
  The computational net of the local search, src/localsearch/net/Node.cpp and Net.cpp: variables
  defined by gates over other variables.  The net is ordered by depth once (finalize); then the
  values of the defined variables are computed from scratch, or, when some variables are flipped,
  incrementally: only gates that depend on a flipped variable are evaluated again.
\<close>

section \<open>Nodes\<close>

datatype node_op = Value bool | AndIff | OrIff | OrAnd "Literal list list"

record Node =
  variable :: nat
  args :: "Literal list"
  depth :: int
  oper :: node_op

definition ValueNode :: "nat \<Rightarrow> bool \<Rightarrow> Node" where
  "ValueNode v b = \<lparr>variable = v, args = [], depth = 0, oper = Value b\<rparr>"

definition AndIffNode :: "nat \<Rightarrow> Literal list \<Rightarrow> Node" where
  "AndIffNode v as = \<lparr>variable = v, args = as, depth = -1, oper = AndIff\<rparr>"

definition OrIffNode :: "nat \<Rightarrow> Literal list \<Rightarrow> Node" where
  "OrIffNode v as = \<lparr>variable = v, args = as, depth = -1, oper = OrIff\<rparr>"

definition OrAndNode :: "nat \<Rightarrow> Literal list list \<Rightarrow> Node" where
  "OrAndNode v metaArgs = \<lparr>variable = v, args = concat metaArgs, depth = -1, oper = OrAnd metaArgs\<rparr>"

fun and_loop :: "nat list \<Rightarrow> nat list \<Rightarrow> Literal list \<Rightarrow> nat \<Rightarrow> bool" where
  "and_loop units fl [] i = True"
| "and_loop units fl (arg # as) i =
     (let i = skip_to fl i (number arg);
          isFlipped = (i \<noteq> length fl \<and> fl ! i = number arg);
          v = (units ! number arg XOR of_bool isFlipped \<noteq> 0)
      in if v \<noteq> valu arg then False else and_loop units fl as i)"

fun or_loop :: "nat list \<Rightarrow> nat list \<Rightarrow> Literal list \<Rightarrow> nat \<Rightarrow> bool" where
  "or_loop units fl [] i = False"
| "or_loop units fl (arg # as) i =
     (let i = skip_to fl i (number arg);
          isFlipped = (i \<noteq> length fl \<and> fl ! i = number arg);
          v = (units ! number arg XOR of_bool isFlipped \<noteq> 0)
      in if v = valu arg then True else or_loop units fl as i)"

text \<open>The conjunctions of an OrAndNode look at the first flipped variable only: i stays 0.\<close>

fun conj_loop :: "nat list \<Rightarrow> nat list \<Rightarrow> Literal list \<Rightarrow> nat \<Rightarrow> bool" where
  "conj_loop units fl [] i = True"
| "conj_loop units fl (arg # as) i =
     (let isFlipped = (i \<noteq> length fl \<and> fl ! i = number arg);
          v = (units ! number arg XOR of_bool isFlipped \<noteq> 0)
      in if v \<noteq> valu arg then False else conj_loop units fl as i)"

fun orand_loop :: "nat list \<Rightarrow> nat list \<Rightarrow> Literal list list \<Rightarrow> bool" where
  "orand_loop units fl [] = False"
| "orand_loop units fl (as # ass) = (if conj_loop units fl as 0 then True else orand_loop units fl ass)"

definition Node_propagate :: "nat list \<Rightarrow> nat list \<Rightarrow> Node \<Rightarrow> bool" where
  "Node_propagate units fl node =
     (case oper node of
        Value b \<Rightarrow> b
      | AndIff \<Rightarrow> and_loop units fl (args node) 0
      | OrIff \<Rightarrow> or_loop units fl (args node) 0
      | OrAnd metaArgs \<Rightarrow> orand_loop units fl metaArgs)"

section \<open>The net\<close>

text \<open>UINT32_MAX in variable_to_node, no node for the variable, is None here.\<close>

record Net =
  nodes :: "Node list"
  finalized :: "Node list"
  literal_to_nodes :: "nat list list"
  variable_to_node :: "nat option list"

definition grow :: "'a \<Rightarrow> nat \<Rightarrow> 'a list \<Rightarrow> 'a list" where
  "grow z n xs = (if length xs \<le> n then xs @ replicate (n + 1 - length xs) z else xs)"

text \<open>
  A line of the net as its tokens: the tag, the variable, the numbers that follow and the word
  that follows (for values).  The zeros separate the conjunctions of an or_and line; literals
  after the last zero are dropped.
\<close>

fun split_zeros :: "int list \<Rightarrow> Literal list \<Rightarrow> Literal list list" where
  "split_zeros [] current = []"
| "split_zeros (arg # as) current =
     (if arg = 0 then current # split_zeros as [] else split_zeros as (current @ [Literal_dimacs arg]))"

definition parse_node :: "string \<Rightarrow> nat \<Rightarrow> int list \<Rightarrow> string \<Rightarrow> Net \<Rightarrow> Net" where
  "parse_node tag v nums word net =
     (let net = net\<lparr>variable_to_node := (grow None v (variable_to_node net))[v := Some (length (nodes net))]\<rparr>
      in if tag = ''andIff'' then net\<lparr>nodes := nodes net @ [AndIffNode v (map Literal_in nums)]\<rparr>
         else if tag = ''orIff'' then net\<lparr>nodes := nodes net @ [OrIffNode v (map Literal_in nums)]\<rparr>
         else if tag = ''or_and'' then net\<lparr>nodes := nodes net @ [OrAndNode v (split_zeros nums [])]\<rparr>
         else if tag = ''value'' then net\<lparr>nodes := nodes net @ [ValueNode v (word = ''true'')]\<rparr>
         else net)"

text \<open>
  The depth of a node, by recursion over its arguments; f bounds the depth of the recursion,
  which does not end in C++ when a node depends on itself.  Reading variable_to_node out of
  range fails here and is undefined in C++.
\<close>

function fin_node :: "nat \<Rightarrow> nat option list \<Rightarrow> nat \<Rightarrow> Node list \<Rightarrow> Node list option"
  and fin_args :: "nat \<Rightarrow> nat option list \<Rightarrow> Literal list \<Rightarrow> int \<Rightarrow> Node list \<Rightarrow> (int \<times> Node list) option" where
  "fin_node 0 v2n i ns = None"
| "fin_node (Suc f) v2n i ns =
     (case fin_args f v2n (args (ns ! i)) 0 ns of
        None \<Rightarrow> None
      | Some (maxDepth, ns) \<Rightarrow> Some (ns[i := (ns ! i)\<lparr>depth := maxDepth + 1\<rparr>]))"
| "fin_args f v2n [] maxDepth ns = Some (maxDepth, ns)"
| "fin_args f v2n (arg # as) maxDepth ns =
     (if \<not> number arg < length v2n then None
      else
        (case v2n ! number arg of
           None \<Rightarrow> fin_args f v2n as (if 0 > maxDepth then 0 else maxDepth) ns
         | Some k \<Rightarrow>
             if depth (ns ! k) = -1
             then (case fin_node f v2n k ns of
                     None \<Rightarrow> None
                   | Some ns \<Rightarrow> fin_args f v2n as (if depth (ns ! k) > maxDepth then depth (ns ! k) else maxDepth) ns)
             else fin_args f v2n as (if depth (ns ! k) > maxDepth then depth (ns ! k) else maxDepth) ns))"
  by pat_completeness auto
termination
  by (relation "measures [\<lambda>x. case x of Inl (f, v2n, i, ns) \<Rightarrow> 2 * f | Inr (f, v2n, as, m, ns) \<Rightarrow> 2 * f + 1,
      \<lambda>x. case x of Inl (f, v2n, i, ns) \<Rightarrow> 0 | Inr (f, v2n, as, m, ns) \<Rightarrow> length as]") auto

fun fin_all :: "nat \<Rightarrow> nat option list \<Rightarrow> nat list \<Rightarrow> Node list \<Rightarrow> Node list option" where
  "fin_all f v2n [] ns = Some ns"
| "fin_all f v2n (i # is) ns =
     (if depth (ns ! i) = -1
      then (case fin_node f v2n i ns of None \<Rightarrow> None | Some ns \<Rightarrow> fin_all f v2n is ns)
      else fin_all f v2n is ns)"

definition add_user :: "nat \<Rightarrow> Literal \<Rightarrow> nat list list \<Rightarrow> nat list list" where
  "add_user i arg l2n = (let l2n = grow [] (number arg) l2n in l2n[number arg := l2n ! number arg @ [i]])"

definition add_users :: "nat \<Rightarrow> Node \<Rightarrow> nat list list \<Rightarrow> nat list list" where
  "add_users i node l2n = fold (add_user i) (args node) l2n"

definition Net_finalize :: "Net \<Rightarrow> Net option" where
  "Net_finalize net =
     (case fin_all (length (nodes net)) (variable_to_node net) [0..<length (nodes net)] (nodes net) of
        None \<Rightarrow> None
      | Some ns \<Rightarrow>
          let ns = sort_key depth ns
          in Some (net\<lparr>nodes := [], finalized := finalized net @ ns,
               literal_to_nodes := fold (\<lambda>(i, node). add_users i node) (List.enumerate 0 ns) (literal_to_nodes net)\<rparr>))"

fun Net_compute :: "Node list \<Rightarrow> nat list \<Rightarrow> nat list" where
  "Net_compute [] units = units"
| "Net_compute (node # ns) units =
     Net_compute ns (if units ! variable node = 2
       then units[variable node := of_bool (Node_propagate units [] node)] else units)"

definition mark :: "Node list \<Rightarrow> nat list \<Rightarrow> bool list \<Rightarrow> bool list" where
  "mark fin ks tc = fold (\<lambda>k tc. tc[variable (fin ! k) := True]) ks tc"

fun mark_flipped :: "Node list \<Rightarrow> nat list list \<Rightarrow> nat list \<Rightarrow> bool list \<Rightarrow> bool list" where
  "mark_flipped fin l2n [] tc = tc"
| "mark_flipped fin l2n (x # fl) tc =
     (if length l2n \<le> x then mark_flipped fin l2n fl tc
      else mark_flipped fin l2n fl (mark fin (l2n ! x) tc))"

text \<open>
  Moving the last element down to its place.  The source swaps flipped[last] and flipped[--last]
  in one call, whose arguments C++ may evaluate in any order; here from left to right.
\<close>

fun bubble :: "nat list \<Rightarrow> nat \<Rightarrow> nat list" where
  "bubble fl 0 = fl"
| "bubble fl (Suc lst) =
     (if fl ! Suc lst < fl ! lst
      then bubble (fl[Suc lst := fl ! lst, lst := fl ! Suc lst]) lst else fl)"

fun compute_loop :: "nat list \<Rightarrow> Node list \<Rightarrow> nat list list \<Rightarrow> Node list \<Rightarrow> nat list \<Rightarrow> bool list \<Rightarrow> nat list option" where
  "compute_loop units fin l2n [] fl tc = Some fl"
| "compute_loop units fin l2n (node # ns) fl tc =
     (let v = variable node
      in if tc ! v \<and> of_bool (Node_propagate units fl node) \<noteq> units ! v
         then let fl = fl @ [v]; fl = bubble fl (length fl - 1)
              in if v < length l2n then compute_loop units fin l2n ns fl (mark fin (l2n ! v) tc) else None
         else compute_loop units fin l2n ns fl tc)"

definition Net_compute_flipped :: "Net \<Rightarrow> nat list \<Rightarrow> nat list \<Rightarrow> nat list option" where
  "Net_compute_flipped net units fl =
     compute_loop units (finalized net) (literal_to_nodes net) (finalized net) fl
       (mark_flipped (finalized net) (literal_to_nodes net) fl (replicate (length units) False))"

section \<open>What a node computes\<close>

definition lit_true :: "nat list \<Rightarrow> Literal \<Rightarrow> bool" where
  "lit_true u a \<longleftrightarrow> (u ! number a \<noteq> 0) = valu a"

definition node_value :: "nat list \<Rightarrow> Node \<Rightarrow> bool" where
  "node_value u node =
     (case oper node of
        Value b \<Rightarrow> b
      | AndIff \<Rightarrow> \<forall>a\<in>set (args node). lit_true u a
      | OrIff \<Rightarrow> \<exists>a\<in>set (args node). lit_true u a
      | OrAnd metaArgs \<Rightarrow> \<exists>as\<in>set metaArgs. \<forall>a\<in>set as. lit_true u a)"

lemma gate_loops:
  assumes "sorted fl" "sorted_wrt lit_le as" "i \<le> length fl" "\<forall>l\<in>set as. \<forall>j<i. fl ! j < number l"
    and "\<forall>l\<in>set as. number l < length units"
  shows "(and_loop units fl as i \<longleftrightarrow> (\<forall>a\<in>set as. lit_true (flipped units fl) a)) \<and>
    (or_loop units fl as i \<longleftrightarrow> (\<exists>a\<in>set as. lit_true (flipped units fl) a))"
  using assms(2-)
proof (induction as arbitrary: i)
  case (Cons l ls)
  let ?i = "skip_to fl i (number l)"
  have sk: "?i \<le> length fl" "\<forall>j<?i. fl ! j < number l" "(?i < length fl \<and> fl ! ?i = number l) = (number l \<in> set fl)"
    using skip_to_spec [OF assms(1) Cons.prems(2), of "number l"] Cons.prems(3) by simp_all
  have e: "(?i \<noteq> length fl \<and> fl ! ?i = number l) = (number l \<in> set fl)" using sk(1,3) by auto
  have p: "\<forall>k\<in>set ls. \<forall>j<?i. fl ! j < number k"
    using sk(2) Cons.prems(1) by (auto simp: lit_le_def intro: less_le_trans)
  have l: "lit_true (flipped units fl) l \<longleftrightarrow> (units ! number l XOR of_bool (number l \<in> set fl) \<noteq> 0) = valu l"
    using Cons.prems(4) by (simp add: lit_true_def flipped_nth)
  have "(and_loop units fl ls ?i \<longleftrightarrow> (\<forall>a\<in>set ls. lit_true (flipped units fl) a)) \<and>
    (or_loop units fl ls ?i \<longleftrightarrow> (\<exists>a\<in>set ls. lit_true (flipped units fl) a))"
    using Cons.IH [of ?i] Cons.prems(1,4) sk(1) p by simp
  then show ?case using e l by (simp add: Let_def)
qed simp_all

definition scannable :: "nat \<Rightarrow> Node \<Rightarrow> bool" where
  "scannable n node \<longleftrightarrow> sorted_wrt lit_le (args node) \<and> (\<forall>a\<in>set (args node). number a < n) \<and>
     (case oper node of OrAnd metaArgs \<Rightarrow> False | _ \<Rightarrow> True)"

lemma Node_propagate_value:
  assumes "sorted fl" "scannable (length units) node"
  shows "Node_propagate units fl node = node_value (flipped units fl) node"
  using gate_loops [OF assms(1), of "args node" 0 units] assms(2)
  by (auto simp: Node_propagate_def node_value_def scannable_def split: node_op.splits)

lemma node_value_cong:
  assumes "scannable n node" "\<And>a. a \<in> set (args node) \<Longrightarrow> u ! number a = u' ! number a"
  shows "node_value u node = node_value u' node"
  using assms by (auto simp: node_value_def scannable_def lit_true_def split: node_op.splits)

section \<open>Keeping the flipped variables sorted\<close>

lemma bubble_spec:
  "sorted xs \<Longrightarrow> sorted (v # ys) \<Longrightarrow> \<forall>x\<in>set xs. \<forall>y\<in>set ys. x \<le> y \<Longrightarrow>
     sorted (bubble (xs @ v # ys) (length xs)) \<and> mset (bubble (xs @ v # ys) (length xs)) = mset (xs @ v # ys)"
proof (induction xs arbitrary: ys rule: rev_induct)
  case Nil
  then show ?case by simp
next
  case (snoc a xs)
  let ?fl = "(xs @ [a]) @ v # ys"
  have n: "?fl ! Suc (length xs) = v" "?fl ! length xs = a" by (simp_all add: nth_append)
  show ?case
  proof (cases "v < a")
    case True
    have "?fl[Suc (length xs) := a, length xs := v] = xs @ v # a # ys" by (simp add: list_update_append)
    then have "bubble ?fl (length (xs @ [a])) = bubble (xs @ v # a # ys) (length xs)" using True n by simp
    moreover have "sorted (bubble (xs @ v # a # ys) (length xs)) \<and> mset (bubble (xs @ v # a # ys) (length xs)) = mset (xs @ v # a # ys)"
      using snoc True by (intro snoc.IH) (auto simp: sorted_append)
    ultimately show ?thesis by simp
  next
    case False
    then have "bubble ?fl (length (xs @ [a])) = ?fl" using n by simp
    moreover have "sorted ?fl" using snoc.prems False by (fastforce simp: sorted_append)
    ultimately show ?thesis by simp
  qed
qed

lemma bubble_push:
  assumes "sorted fl"
  shows "sorted (bubble (fl @ [v]) (length fl))" "mset (bubble (fl @ [v]) (length fl)) = add_mset v (mset fl)"
  using bubble_spec [of fl v "[]"] assms by simp_all

section \<open>The incremental computation\<close>

lemma length_mark [simp]: "length (mark fin ks tc) = length tc"
  unfolding mark_def by (induction ks arbitrary: tc) auto

lemma mark_nth:
  "x < length tc \<Longrightarrow> mark fin ks tc ! x \<longleftrightarrow> tc ! x \<or> (\<exists>k\<in>set ks. variable (fin ! k) = x)"
  unfolding mark_def
proof (induction ks arbitrary: tc)
  case (Cons k ks)
  have "tc[variable (fin ! k) := True] ! x \<longleftrightarrow> tc ! x \<or> variable (fin ! k) = x"
    using Cons.prems by (cases "variable (fin ! k) = x") simp_all
  then show ?case using Cons by auto
qed simp

lemma length_mark_flipped [simp]: "length (mark_flipped fin l2n fl tc) = length tc"
  by (induction fin l2n fl tc rule: mark_flipped.induct) auto

lemma mark_flipped_nth:
  "x < length tc \<Longrightarrow> mark_flipped fin l2n fl tc ! x \<longleftrightarrow>
     tc ! x \<or> (\<exists>y\<in>set fl. y < length l2n \<and> (\<exists>k\<in>set (l2n ! y). variable (fin ! k) = x))"
  by (induction fin l2n fl tc rule: mark_flipped.induct) (auto simp: mark_nth not_le)

text \<open>
  A finalized net over n variables: the gates define different variables and depend on earlier
  ones only, and the index from variables to the gates that read them is complete.
\<close>

definition net_ok :: "nat \<Rightarrow> Net \<Rightarrow> bool" where
  "net_ok n net \<longleftrightarrow>
     (let fin = finalized net; l2n = literal_to_nodes net in
      distinct (map variable fin) \<and>
      (\<forall>node\<in>set fin. scannable n node \<and> variable node < n \<and> variable node < length l2n) \<and>
      (\<forall>p<length fin. \<forall>a\<in>set (args (fin ! p)). number a < length l2n \<and>
         (\<forall>q<length fin. variable (fin ! q) = number a \<longrightarrow> q < p)) \<and>
      (\<forall>x<length l2n. set (l2n ! x) = {p. p < length fin \<and> x \<in> number ` set (args (fin ! p))}))"

definition consistent :: "Net \<Rightarrow> nat list \<Rightarrow> bool" where
  "consistent net u \<longleftrightarrow> (\<forall>node\<in>set (finalized net). u ! variable node = of_bool (node_value u node))"

definition reads :: "Node list \<Rightarrow> nat \<Rightarrow> nat list \<Rightarrow> bool" where
  "reads fin q fl \<longleftrightarrow> (\<exists>a\<in>set (args (fin ! q)). number a \<in> set fl)"

lemma net_okD:
  assumes "net_ok n net" "p < length (finalized net)"
  shows "scannable n (finalized net ! p)" "variable (finalized net ! p) < n"
    "variable (finalized net ! p) < length (literal_to_nodes net)"
    and "a \<in> set (args (finalized net ! p)) \<Longrightarrow> number a < length (literal_to_nodes net)"
    and "a \<in> set (args (finalized net ! p)) \<Longrightarrow> q < length (finalized net) \<Longrightarrow>
      variable (finalized net ! q) = number a \<Longrightarrow> q < p"
    and "q < length (finalized net) \<Longrightarrow> variable (finalized net ! q) = variable (finalized net ! p) \<Longrightarrow> q = p"
    and "x < length (literal_to_nodes net) \<Longrightarrow> q \<in> set (literal_to_nodes net ! x) \<longleftrightarrow>
      q < length (finalized net) \<and> x \<in> number ` set (args (finalized net ! q))"
proof -
  have d: "distinct (map variable (finalized net))" using assms(1) by (simp add: net_ok_def Let_def)
  show "q < length (finalized net) \<Longrightarrow> variable (finalized net ! q) = variable (finalized net ! p) \<Longrightarrow> q = p"
    using d assms(2) by (metis length_map nth_eq_iff_index_eq nth_map)
qed (use assms in \<open>simp_all add: net_ok_def Let_def\<close>)

lemma compute_loop_spec:
  assumes ok: "net_ok n net" and n: "length units = n" and con: "consistent net units"
    and f0: "\<forall>p<length (finalized net). variable (finalized net ! p) \<notin> set fl0"
  shows "p \<le> length (finalized net) \<Longrightarrow> sorted fl \<Longrightarrow> distinct fl \<Longrightarrow> length tc = n \<Longrightarrow>
     set fl0 \<subseteq> set fl \<Longrightarrow> set fl - set fl0 \<subseteq> (\<lambda>q. variable (finalized net ! q)) ` {0..<p} \<Longrightarrow>
     \<forall>q<p. flipped units fl ! variable (finalized net ! q) = of_bool (node_value (flipped units fl) (finalized net ! q)) \<Longrightarrow>
     \<forall>q<length (finalized net). p \<le> q \<longrightarrow> tc ! variable (finalized net ! q) = reads (finalized net) q fl \<Longrightarrow>
     \<exists>fl'. compute_loop units (finalized net) (literal_to_nodes net) (drop p (finalized net)) fl tc = Some fl' \<and>
       sorted fl' \<and> distinct fl' \<and> set fl0 \<subseteq> set fl' \<and>
       set fl' - set fl0 \<subseteq> variable ` set (finalized net) \<and> consistent net (flipped units fl')"
proof (induction "length (finalized net) - p" arbitrary: p fl tc)
  case 0
  then have p: "p = length (finalized net)" by simp
  have img: "(\<lambda>q. variable (finalized net ! q)) ` {0..<length (finalized net)} = variable ` set (finalized net)"
    by (force simp: in_set_conv_nth image_iff)
  have "consistent net (flipped units fl)" using 0(8) p by (auto simp: consistent_def in_set_conv_nth)
  then show ?case using 0(3,4,6,7) p img by simp
next
  case (Suc d)
  let ?fin = "finalized net"
  let ?N = "?fin ! p"
  let ?v = "variable ?N"
  have p: "p < length ?fin" "d = length ?fin - Suc p" using Suc.hyps(2) by simp_all
  note N = net_okD [OF ok p(1)]
  have dr: "drop p ?fin = ?N # drop (Suc p) ?fin" using p(1) by (simp add: Cons_nth_drop_Suc)
  have vfl: "?v \<notin> set fl"
  proof
    assume "?v \<in> set fl"
    then obtain q where q: "q < p" "variable (?fin ! q) = ?v" using Suc.prems(6) f0 p(1) by auto
    then show False using N(6) [of q] p(1) by simp
  qed
  have prp: "Node_propagate units fl ?N = node_value (flipped units fl) ?N"
    using Node_propagate_value [OF Suc.prems(2)] N(1) n by simp
  have own: "units ! ?v = of_bool (node_value units ?N)" using con p(1) by (simp add: consistent_def)
  have tcv: "tc ! ?v = reads ?fin p fl" using Suc.prems(8) p(1) by blast
  have noread: "node_value (flipped units fl) ?N = node_value units ?N" if "\<not> reads ?fin p fl"
    by (rule node_value_cong [OF N(1)]) (use that N(1) n in \<open>auto simp: reads_def scannable_def flipped_nth\<close>)
  show ?case
  proof (cases "tc ! ?v \<and> of_bool (Node_propagate units fl ?N) \<noteq> units ! ?v")
    case False
    then have eq: "of_bool (node_value (flipped units fl) ?N) = units ! ?v"
      using prp tcv noread own by (cases "tc ! ?v") auto
    have "flipped units fl ! ?v = of_bool (node_value (flipped units fl) ?N)"
      using N(2) n vfl eq by (simp add: flipped_nth)
    then have "\<forall>q<Suc p. flipped units fl ! variable (?fin ! q) = of_bool (node_value (flipped units fl) (?fin ! q))"
      using Suc.prems(7) by (auto simp: less_Suc_eq)
    moreover have "set fl - set fl0 \<subseteq> (\<lambda>q. variable (?fin ! q)) ` {0..<Suc p}" using Suc.prems(6) by fastforce
    moreover have "\<forall>q<length ?fin. Suc p \<le> q \<longrightarrow> tc ! variable (?fin ! q) = reads ?fin q fl" using Suc.prems(8) by simp
    ultimately have "\<exists>fl'. compute_loop units ?fin (literal_to_nodes net) (drop (Suc p) ?fin) fl tc = Some fl' \<and>
       sorted fl' \<and> distinct fl' \<and> set fl0 \<subseteq> set fl' \<and>
       set fl' - set fl0 \<subseteq> variable ` set ?fin \<and> consistent net (flipped units fl')"
      using Suc.hyps(1) [OF p(2)] Suc.prems(2-5) p(1) by simp
    moreover have "compute_loop units ?fin (literal_to_nodes net) (drop p ?fin) fl tc =
        compute_loop units ?fin (literal_to_nodes net) (drop (Suc p) ?fin) fl tc"
      unfolding dr using False by (simp only: compute_loop.simps Let_def if_False)
    ultimately show ?thesis by simp
  next
    case True
    let ?fl = "bubble (fl @ [?v]) (length fl)" and ?tc = "mark ?fin (literal_to_nodes net ! ?v) tc"
    note b = bubble_push [OF Suc.prems(2), of ?v]
    have S: "set ?fl = insert ?v (set fl)" using b(2) by (metis set_mset_add_mset_insert set_mset_mset)
    have dst: "distinct ?fl" using b(2) vfl Suc.prems(3)
      by (metis distinct.simps(2) mset.simps(2) mset_eq_imp_distinct_iff)
    have un: "compute_loop units ?fin (literal_to_nodes net) (drop p ?fin) fl tc =
        compute_loop units ?fin (literal_to_nodes net) (drop (Suc p) ?fin) ?fl ?tc"
      unfolding dr using True N(3) by (simp add: Let_def)
    have fe: "flipped units ?fl ! x = flipped units fl ! x" if "x < n" "x \<noteq> ?v" for x
      using that n S by (simp add: flipped_nth)
    have nv: "node_value (flipped units ?fl) (?fin ! q) = node_value (flipped units fl) (?fin ! q)" if "q \<le> p" for q
    proof (rule node_value_cong)
      have q: "q < length ?fin" using that p(1) by simp
      show "scannable n (?fin ! q)" by (rule net_okD(1) [OF ok q])
      fix a assume a: "a \<in> set (args (?fin ! q))"
      then have "number a < n" using net_okD(1) [OF ok q] by (simp add: scannable_def)
      moreover have "number a \<noteq> ?v" using net_okD(5) [OF ok q a p(1)] that by auto
      ultimately show "flipped units ?fl ! number a = flipped units fl ! number a" by (rule fe)
    qed
    have "flipped units ?fl ! ?v = of_bool (node_value (flipped units ?fl) ?N)"
    proof -
      have "units ! ?v \<le> 1" using own by simp
      then have "units ! ?v XOR 1 = of_bool (node_value (flipped units fl) ?N)"
      proof -
        have "units ! ?v = 0 \<or> units ! ?v = 1" using \<open>units ! ?v \<le> 1\<close> by linarith
        then show ?thesis using True prp by auto
      qed
      then show ?thesis using N(2) n S nv [of p] by (simp add: flipped_nth)
    qed
    moreover have "flipped units ?fl ! variable (?fin ! q) = of_bool (node_value (flipped units ?fl) (?fin ! q))"
      if "q < p" for q
    proof -
      have q: "q < length ?fin" using that p(1) by simp
      have "variable (?fin ! q) \<noteq> ?v" using N(6) [OF q] that by auto
      then show ?thesis using fe net_okD(2) [OF ok q] nv [of q] Suc.prems(7) that by simp
    qed
    ultimately have C: "\<forall>q<Suc p. flipped units ?fl ! variable (?fin ! q) = of_bool (node_value (flipped units ?fl) (?fin ! q))"
      by (auto simp: less_Suc_eq)
    have T: "?tc ! variable (?fin ! q) = reads ?fin q ?fl" if q: "q < length ?fin" "Suc p \<le> q" for q
    proof -
      have "?tc ! variable (?fin ! q) \<longleftrightarrow> tc ! variable (?fin ! q) \<or>
          (\<exists>k\<in>set (literal_to_nodes net ! ?v). variable (?fin ! k) = variable (?fin ! q))"
        using net_okD(2) [OF ok q(1)] Suc.prems(4) by (intro mark_nth) simp
      also have "(\<exists>k\<in>set (literal_to_nodes net ! ?v). variable (?fin ! k) = variable (?fin ! q)) \<longleftrightarrow>
          ?v \<in> number ` set (args (?fin ! q))"
        using N(7) [OF N(3)] net_okD(6) [OF ok q(1)] q(1) by blast
      also have "tc ! variable (?fin ! q) = reads ?fin q fl" using Suc.prems(8) q by simp
      also have "(reads ?fin q fl \<or> ?v \<in> number ` set (args (?fin ! q))) = reads ?fin q ?fl"
        unfolding reads_def S image_iff by (metis insert_iff)
      finally show ?thesis .
    qed
    have "set ?fl - set fl0 \<subseteq> (\<lambda>q. variable (?fin ! q)) ` {0..<Suc p}" using Suc.prems(6) S by fastforce
    then have "\<exists>fl'. compute_loop units ?fin (literal_to_nodes net) (drop (Suc p) ?fin) ?fl ?tc = Some fl' \<and>
       sorted fl' \<and> distinct fl' \<and> set fl0 \<subseteq> set fl' \<and>
       set fl' - set fl0 \<subseteq> variable ` set ?fin \<and> consistent net (flipped units fl')"
      using Suc.hyps(1) [OF p(2), of ?fl ?tc] b(1) dst Suc.prems(4,5) S C T p(1) by auto
    then show ?thesis using un by simp
  qed
qed

lemma Net_compute_flipped_spec:
  assumes "net_ok (length units) net" "consistent net units"
    and "sorted fl" "distinct fl" "\<forall>node\<in>set (finalized net). variable node \<notin> set fl"
  shows "\<exists>fl'. Net_compute_flipped net units fl = Some fl' \<and> sorted fl' \<and> distinct fl' \<and> set fl \<subseteq> set fl' \<and>
    set fl' - set fl \<subseteq> variable ` set (finalized net) \<and> consistent net (flipped units fl')"
proof -
  let ?fin = "finalized net" and ?l2n = "literal_to_nodes net"
  let ?tc = "mark_flipped ?fin ?l2n fl (replicate (length units) False)"
  have "?tc ! variable (?fin ! q) = reads ?fin q fl" if q: "q < length ?fin" for q
  proof -
    note N = net_okD [OF assms(1) q]
    have "?tc ! variable (?fin ! q) \<longleftrightarrow>
        (\<exists>y\<in>set fl. y < length ?l2n \<and> (\<exists>k\<in>set (?l2n ! y). variable (?fin ! k) = variable (?fin ! q)))"
      using N(2) by (subst mark_flipped_nth) simp_all
    also have "\<dots> \<longleftrightarrow> (\<exists>y\<in>set fl. y < length ?l2n \<and> y \<in> number ` set (args (?fin ! q)))"
      using N(6,7) q by blast
    also have "\<dots> \<longleftrightarrow> reads ?fin q fl" using N(4) by (auto simp: reads_def)
    finally show ?thesis .
  qed
  moreover have "\<forall>p<length ?fin. variable (?fin ! p) \<notin> set fl" using assms(5) by simp
  ultimately show ?thesis
    using compute_loop_spec [OF assms(1) refl assms(2), of fl 0 fl ?tc] assms(3,4)
    by (simp add: Net_compute_flipped_def)
qed


section \<open>Examples\<close>

text \<open>The variables 1 to 3 are inputs, 4 is 1 and 2, 5 is 3 or 4; variable 0 is not used.\<close>

definition ex_net :: Net where
  "ex_net = the (Net_finalize (parse_node ''orIff'' 5 [3, 4] [] (parse_node ''andIff'' 4 [1, 2] []
     \<lparr>nodes = [], finalized = [], literal_to_nodes = [[], [], [], [], [], []], variable_to_node = []\<rparr>)))"

lemma ex_net_eq: "ex_net =
  \<lparr>nodes = [], finalized = [(AndIffNode 4 [Literal_dimacs 1, Literal_dimacs 2])\<lparr>depth := 1\<rparr>,
     (OrIffNode 5 [Literal_dimacs 3, Literal_dimacs 4])\<lparr>depth := 2\<rparr>],
   literal_to_nodes = [[], [0], [0], [1], [1], []],
   variable_to_node = [None, None, None, None, Some 0, Some 1]\<rparr>"
  by (simp add: ex_net_def Net_finalize_def parse_node_def AndIffNode_def OrIffNode_def Literal_in_def
      Literal_dimacs_def grow_def add_users_def add_user_def upt_rec nth_Cons' list_update_code numeral_eq_Suc)

lemma ex_net_ok: "net_ok 6 ex_net"
  unfolding net_ok_def ex_net_eq Let_def
  by (auto simp: AndIffNode_def OrIffNode_def Literal_dimacs_def scannable_def lit_le_def less_Suc_eq
      nth_Cons' numeral_eq_Suc)


text \<open>
  The incremental computation ignores flips inside or_and gates.  An OrAndNode compares its
  arguments with the first flipped variable only: for the gate (2 and 3) with both variables
  true, flipping 1 and 3 leaves the gate at its old value, although its value is now false.
\<close>

theorem OrAnd_ignores_flips:
  "let node = OrAndNode 4 [[Literal_dimacs 2, Literal_dimacs 3]]; units = [2, 0, 1, 1, 1]; fl = [1, 3] in
   Node_propagate units fl node \<and> \<not> node_value (flipped units fl) node \<and>
   Node_propagate (flipped units fl) [] node = node_value (flipped units fl) node"
  by (simp add: Let_def OrAndNode_def Literal_dimacs_def Node_propagate_def node_value_def lit_true_def
      flipped_def upt_rec nth_Cons' numeral_eq_Suc)

text \<open>
  A gate that no other gate reads can be out of the range of the index from variables to
  their readers, which only grows to the largest argument.  Net_compute_flipped then reads past
  the end of the vector (None here): for the single gate 3 = (1 and 2), flipping variable 2.
\<close>

theorem Net_compute_out_of_range:
  "\<exists>net. Net_finalize (parse_node ''andIff'' 3 [1, 2] []
       \<lparr>nodes = [], finalized = [], literal_to_nodes = [], variable_to_node = []\<rparr>) = Some net \<and>
     consistent net [2, 1, 0, 0] \<and> Net_compute_flipped net [2, 1, 0, 0] [2] = None"
  by (simp add: Net_finalize_def parse_node_def AndIffNode_def Literal_in_def
      Literal_dimacs_def grow_def add_users_def add_user_def upt_rec nth_Cons' list_update_code numeral_eq_Suc
      consistent_def node_value_def lit_true_def Net_compute_flipped_def mark_def Node_propagate_def skip_to.simps)

end
