(* ===== verification/Ls_Finalize.thy ===== *)
theory Ls_Finalize
  imports Ls_Net
begin

text \<open>
  Correctness of Net::finalize in src/localsearch/net/Net.cpp: on a net without cycles the
  recursion ends, the nodes come out in an order in which every gate follows the gates it reads,
  and the index from variables to the gates that read them is complete.
\<close>

section \<open>Depths\<close>

text \<open>
  wired: the table from variables to nodes is right, and r is a rank that decreases from a gate
  to the gates it reads.
\<close>

definition wired :: "(nat \<Rightarrow> nat) \<Rightarrow> nat option list \<Rightarrow> Node list \<Rightarrow> bool" where
  "wired r v2n ns \<longleftrightarrow> (\<forall>i<length ns. \<forall>a\<in>set (args (ns ! i)). number a < length v2n \<and>
     (\<forall>k. v2n ! number a = Some k \<longrightarrow> k < length ns \<and> r k < r i))"

definition redepth :: "Node list \<Rightarrow> Node list \<Rightarrow> bool" where
  "redepth ns ns' \<longleftrightarrow> length ns' = length ns \<and> (\<forall>i<length ns. \<exists>d. ns' ! i = (ns ! i)\<lparr>depth := d\<rparr>)"

definition depths_ok :: "nat option list \<Rightarrow> Node list \<Rightarrow> bool" where
  "depths_ok v2n ns \<longleftrightarrow> (\<forall>i<length ns. depth (ns ! i) \<noteq> -1 \<longrightarrow> 0 \<le> depth (ns ! i) \<and>
     (\<forall>a\<in>set (args (ns ! i)). \<forall>k. v2n ! number a = Some k \<longrightarrow>
        depth (ns ! k) \<noteq> -1 \<and> depth (ns ! k) < depth (ns ! i)))"

lemma upd_depth_same: "(node :: Node)\<lparr>depth := depth node\<rparr> = node"
  by simp

lemma redepth_refl [simp]: "redepth ns ns"
  unfolding redepth_def by (metis upd_depth_same)

lemma redepth_trans: "redepth a b \<Longrightarrow> redepth b c \<Longrightarrow> redepth a c"
  unfolding redepth_def by (auto; fastforce)

lemma redepth_args: "redepth ns ns' \<Longrightarrow> i < length ns \<Longrightarrow> args (ns' ! i) = args (ns ! i) \<and> variable (ns' ! i) = variable (ns ! i)"
  unfolding redepth_def by fastforce

lemma redepth_upd: "redepth ns (ns[i := (ns ! i)\<lparr>depth := d\<rparr>])"
proof -
  have "\<exists>e. ns[i := (ns ! i)\<lparr>depth := d\<rparr>] ! j = (ns ! j)\<lparr>depth := e\<rparr>" if "j < length ns" for j
  proof (cases "j = i")
    case False
    then show ?thesis by (metis nth_list_update_neq upd_depth_same)
  qed (use that in auto)
  then show ?thesis by (simp add: redepth_def)
qed

lemma wired_redepth: "wired r v2n ns \<Longrightarrow> redepth ns ns' \<Longrightarrow> wired r v2n ns'"
  using redepth_args [of ns ns'] by (simp add: wired_def redepth_def)

text \<open>Giving a depth to a node above its arguments; no node with a depth reads it yet.\<close>

lemma depths_ok_upd:
  assumes ok: "depths_ok v2n ns" and i: "i < length ns" "depth (ns ! i) = -1" and d: "0 \<le> d"
    and below: "\<forall>a\<in>set (args (ns ! i)). \<forall>k. v2n ! number a = Some k \<longrightarrow>
        k \<noteq> i \<and> depth (ns ! k) \<noteq> -1 \<and> depth (ns ! k) < d"
  shows "depths_ok v2n (ns[i := (ns ! i)\<lparr>depth := d\<rparr>])"
  unfolding depths_ok_def
proof (intro allI impI)
  let ?ns = "ns[i := (ns ! i)\<lparr>depth := d\<rparr>]"
  fix j assume j: "j < length ?ns" "depth (?ns ! j) \<noteq> -1"
  show "0 \<le> depth (?ns ! j) \<and> (\<forall>a\<in>set (args (?ns ! j)). \<forall>k. v2n ! number a = Some k \<longrightarrow>
      depth (?ns ! k) \<noteq> -1 \<and> depth (?ns ! k) < depth (?ns ! j))"
  proof (cases "j = i")
    case True
    have e: "?ns ! j = (ns ! i)\<lparr>depth := d\<rparr>" using True i by simp
    have "depth (?ns ! k) \<noteq> -1 \<and> depth (?ns ! k) < d" if "a \<in> set (args (ns ! i))" "v2n ! number a = Some k" for a k
    proof -
      have "k \<noteq> i \<and> depth (ns ! k) \<noteq> -1 \<and> depth (ns ! k) < d" using below that by blast
      then show ?thesis by (metis nth_list_update_neq)
    qed
    then show ?thesis using d unfolding e by simp
  next
    case False
    have e: "?ns ! j = ns ! j" using False by simp
    have o: "0 \<le> depth (ns ! j)" "\<forall>a\<in>set (args (ns ! j)). \<forall>k. v2n ! number a = Some k \<longrightarrow>
        depth (ns ! k) \<noteq> -1 \<and> depth (ns ! k) < depth (ns ! j)"
      using ok j unfolding depths_ok_def e by simp_all
    have "depth (?ns ! k) \<noteq> -1 \<and> depth (?ns ! k) < depth (ns ! j)" if "a \<in> set (args (ns ! j))" "v2n ! number a = Some k" for a k
    proof -
      have k: "depth (ns ! k) \<noteq> -1 \<and> depth (ns ! k) < depth (ns ! j)" using o(2) that by blast
      then have "k \<noteq> i" using i(2) by auto
      then show ?thesis using k by simp
    qed
    then show ?thesis using o(1) unfolding e by simp
  qed
qed

lemma fin_spec:
  shows "i < length ns \<Longrightarrow> r i < f \<Longrightarrow> wired r v2n ns \<Longrightarrow> depths_ok v2n ns \<Longrightarrow> depth (ns ! i) = -1 \<Longrightarrow>
      \<exists>ns'. fin_node f v2n i ns = Some ns' \<and> redepth ns ns' \<and> depths_ok v2n ns' \<and> depth (ns' ! i) \<noteq> -1 \<and>
        (\<forall>j<length ns. depth (ns ! j) \<noteq> -1 \<or> r i \<le> r j \<and> j \<noteq> i \<longrightarrow> ns' ! j = ns ! j)"
    and "\<forall>a\<in>set as. number a < length v2n \<and> (\<forall>k. v2n ! number a = Some k \<longrightarrow> k < length ns \<and> r k < R) \<Longrightarrow>
      R \<le> f \<Longrightarrow> wired r v2n ns \<Longrightarrow> depths_ok v2n ns \<Longrightarrow> 0 \<le> m \<Longrightarrow>
      \<exists>m' ns'. fin_args f v2n as m ns = Some (m', ns') \<and> redepth ns ns' \<and> depths_ok v2n ns' \<and> m \<le> m' \<and>
        (\<forall>a\<in>set as. \<forall>k. v2n ! number a = Some k \<longrightarrow> depth (ns' ! k) \<noteq> -1 \<and> depth (ns' ! k) \<le> m') \<and>
        (\<forall>j<length ns. depth (ns ! j) \<noteq> -1 \<or> R \<le> r j \<longrightarrow> ns' ! j = ns ! j)"
proof (induction f v2n i ns and f v2n as m ns arbitrary: and R rule: fin_node_fin_args.induct)
  case (1 v2n i ns)
  then show ?case by simp
next
  case (2 f v2n i ns)
  have "\<forall>a\<in>set (args (ns ! i)). number a < length v2n \<and> (\<forall>k. v2n ! number a = Some k \<longrightarrow> k < length ns \<and> r k < r i)"
    using 2(2,4) by (simp add: wired_def)
  moreover have "r i \<le> f" using 2(3) by simp
  ultimately obtain m' ns' where n: "fin_args f v2n (args (ns ! i)) 0 ns = Some (m', ns')" "redepth ns ns'" "depths_ok v2n ns'" "0 \<le> m'"
    "\<forall>a\<in>set (args (ns ! i)). \<forall>k. v2n ! number a = Some k \<longrightarrow> depth (ns' ! k) \<noteq> -1 \<and> depth (ns' ! k) \<le> m'"
    "\<forall>j<length ns. depth (ns ! j) \<noteq> -1 \<or> r i \<le> r j \<longrightarrow> ns' ! j = ns ! j"
    using 2(1) [of "r i"] 2(4,5) by blast
  let ?ns = "ns'[i := (ns' ! i)\<lparr>depth := m' + 1\<rparr>]"
  have i: "i < length ns'" "ns' ! i = ns ! i" using n(2,6) 2(2) by (simp_all add: redepth_def)
  have "depths_ok v2n ?ns"
  proof (rule depths_ok_upd [OF n(3) i(1)])
    show "depth (ns' ! i) = -1" using i(2) 2(6) by simp
    show "\<forall>a\<in>set (args (ns' ! i)). \<forall>k. v2n ! number a = Some k \<longrightarrow> k \<noteq> i \<and> depth (ns' ! k) \<noteq> -1 \<and> depth (ns' ! k) < m' + 1"
      using n(5) 2(2,4) i(2) by (fastforce simp: wired_def)
  qed (use n(4) in simp)
  moreover have "redepth ns ?ns" by (rule redepth_trans [OF n(2) redepth_upd])
  moreover have "?ns ! j = ns ! j" if j: "j < length ns" "depth (ns ! j) \<noteq> -1 \<or> r i \<le> r j \<and> j \<noteq> i" for j
  proof -
    have "j \<noteq> i" using j(2) 2(6) by auto
    then show ?thesis using n(6) j by auto
  qed
  moreover have "depth (?ns ! i) \<noteq> -1" using i n(4) by simp
  moreover have "fin_node (Suc f) v2n i ns = Some ?ns" using n(1) by simp
  ultimately show ?case by blast
next
  case (3 f v2n m ns)
  then show ?case by simp
next
  case (4 f v2n arg as m ns)
  have a: "number arg < length v2n" using 4(5) by simp
  have as: "\<forall>a\<in>set as. number a < length v2n \<and> (\<forall>k. v2n ! number a = Some k \<longrightarrow> k < length ns \<and> r k < R)" using 4(5) by simp
  show ?case
  proof (cases "v2n ! number arg")
    case None
    let ?m = "if 0 > m then 0 else m"
    have "0 \<le> ?m" using 4(9) by simp
    then show ?thesis using 4(1) [OF _ None as 4(6-8)] a None 4(9) by simp
  next
    case (Some k)
    then have k: "k < length ns" "r k < R" using 4(5) by simp_all
    show ?thesis
    proof (cases "depth (ns ! k) = -1")
      case True
      obtain ns1 where n1: "fin_node f v2n k ns = Some ns1" "redepth ns ns1" "depths_ok v2n ns1" "depth (ns1 ! k) \<noteq> -1"
        "\<forall>j<length ns. depth (ns ! j) \<noteq> -1 \<or> r k \<le> r j \<and> j \<noteq> k \<longrightarrow> ns1 ! j = ns ! j"
        using 4(2) [OF _ Some True k(1) _ 4(7,8) True] a k(2) 4(6) by auto
      have l: "length ns1 = length ns" using n1(2) by (simp add: redepth_def)
      let ?m = "if depth (ns1 ! k) > m then depth (ns1 ! k) else m"
      have w: "wired r v2n ns1" by (rule wired_redepth [OF 4(7) n1(2)])
      have as1: "\<forall>a\<in>set as. number a < length v2n \<and> (\<forall>k. v2n ! number a = Some k \<longrightarrow> k < length ns1 \<and> r k < R)" using as l by simp
      have m0: "0 \<le> ?m" using 4(9) by simp
      obtain m' ns' where n: "fin_args f v2n as ?m ns1 = Some (m', ns')" "redepth ns1 ns'" "depths_ok v2n ns'" "?m \<le> m'"
        "\<forall>a\<in>set as. \<forall>k. v2n ! number a = Some k \<longrightarrow> depth (ns' ! k) \<noteq> -1 \<and> depth (ns' ! k) \<le> m'"
        "\<forall>j<length ns1. depth (ns1 ! j) \<noteq> -1 \<or> R \<le> r j \<longrightarrow> ns' ! j = ns1 ! j"
        using 4(3) [OF _ Some True n1(1) as1 4(6) w n1(3) m0] a by auto
      have "ns' ! k = ns1 ! k" using n(6) n1(4) k(1) l by simp
      then have "depth (ns' ! k) \<noteq> -1 \<and> depth (ns' ! k) \<le> m'" using n1(4) n(4) by (simp split: if_splits)
      moreover have "ns' ! j = ns ! j" if j: "j < length ns" "depth (ns ! j) \<noteq> -1 \<or> R \<le> r j" for j
      proof -
        have "j \<noteq> k" using j(2) True k(2) by auto
        then have "ns1 ! j = ns ! j" using n1(5) j k(2) by auto
        then show ?thesis using n(6) j l by auto
      qed
      moreover have "m \<le> m'" using n(4) by (simp split: if_splits)
      ultimately show ?thesis using a Some True n1(1) n(1,3,5) redepth_trans [OF n1(2) n(2)] by simp
    next
      case False
      let ?m = "if depth (ns ! k) > m then depth (ns ! k) else m"
      have m0: "0 \<le> ?m" using 4(9) by simp
      obtain m' ns' where n: "fin_args f v2n as ?m ns = Some (m', ns')" "redepth ns ns'" "depths_ok v2n ns'" "?m \<le> m'"
        "\<forall>a\<in>set as. \<forall>k. v2n ! number a = Some k \<longrightarrow> depth (ns' ! k) \<noteq> -1 \<and> depth (ns' ! k) \<le> m'"
        "\<forall>j<length ns. depth (ns ! j) \<noteq> -1 \<or> R \<le> r j \<longrightarrow> ns' ! j = ns ! j"
        using 4(4) [OF _ Some False as 4(6-8) m0] a by auto
      have "ns' ! k = ns ! k" using n(6) False k(1) by simp
      then have "depth (ns' ! k) \<noteq> -1 \<and> depth (ns' ! k) \<le> m'" using False n(4) by (simp split: if_splits)
      moreover have "m \<le> m'" using n(4) by (simp split: if_splits)
      ultimately show ?thesis using a Some False n by simp
    qed
  qed
qed

lemma fin_all_spec:
  "\<forall>i\<in>set is. i < length ns \<and> r i < f \<Longrightarrow> wired r v2n ns \<Longrightarrow> depths_ok v2n ns \<Longrightarrow>
     \<exists>ns'. fin_all f v2n is ns = Some ns' \<and> redepth ns ns' \<and> depths_ok v2n ns' \<and>
       (\<forall>j<length ns. depth (ns ! j) \<noteq> -1 \<or> j \<in> set is \<longrightarrow> depth (ns' ! j) \<noteq> -1)"
proof (induction "is" arbitrary: ns)
  case Nil
  then show ?case by simp
next
  case (Cons i "is")
  show ?case
  proof (cases "depth (ns ! i) = -1")
    case True
    obtain ns1 where n1: "fin_node f v2n i ns = Some ns1" "redepth ns ns1" "depths_ok v2n ns1" "depth (ns1 ! i) \<noteq> -1"
      "\<forall>j<length ns. depth (ns ! j) \<noteq> -1 \<or> r i \<le> r j \<and> j \<noteq> i \<longrightarrow> ns1 ! j = ns ! j"
      using fin_spec(1) [of i ns r f v2n] Cons.prems True by auto
    have l: "length ns1 = length ns" using n1(2) by (simp add: redepth_def)
    obtain ns' where "fin_all f v2n is ns1 = Some ns'" "redepth ns1 ns'" "depths_ok v2n ns'"
      "\<forall>j<length ns1. depth (ns1 ! j) \<noteq> -1 \<or> j \<in> set is \<longrightarrow> depth (ns' ! j) \<noteq> -1"
      using Cons.IH [of ns1] Cons.prems n1(2,3) l wired_redepth by fastforce
    moreover have "depth (ns1 ! j) \<noteq> -1" if "j < length ns" "depth (ns ! j) \<noteq> -1" for j using n1(5) that by auto
    ultimately show ?thesis using True n1(1,4) l redepth_trans [OF n1(2)] by auto
  next
    case False
    then show ?thesis using Cons.IH [of ns] Cons.prems by auto
  qed
qed

section \<open>The index of readers\<close>

definition readers :: "nat list list \<Rightarrow> nat \<Rightarrow> nat set" where
  "readers l2n x = (if x < length l2n then set (l2n ! x) else {})"

lemma grow_props: "length xs \<le> length (grow z n xs)" "n < length (grow z n xs)"
  "i < length xs \<Longrightarrow> grow z n xs ! i = xs ! i"
  "length xs \<le> i \<Longrightarrow> i < length (grow z n xs) \<Longrightarrow> grow z n xs ! i = z"
  by (auto simp: grow_def nth_append)

lemma readers_add_user:
  "readers (add_user i a l2n) x = readers l2n x \<union> (if x = number a then {i} else {})"
  "length l2n \<le> length (add_user i a l2n)" "number a < length (add_user i a l2n)"
proof -
  have g: "readers (grow [] (number a) l2n) x = readers l2n x"
    using grow_props [where xs = l2n and z = "[]" and n = "number a"] by (auto simp: readers_def not_less)
  have "readers (l[n := l ! n @ [i]]) x = readers l x \<union> (if x = n then {i} else {})" if "n < length l" for l n
    using that by (auto simp: readers_def nth_list_update)
  then show "readers (add_user i a l2n) x = readers l2n x \<union> (if x = number a then {i} else {})"
    unfolding add_user_def Let_def using g grow_props(2) by metis
  show "length l2n \<le> length (add_user i a l2n)" "number a < length (add_user i a l2n)"
    using grow_props(1,2) by (simp_all add: add_user_def Let_def)
qed

lemma readers_add_users:
  "readers (fold (add_user i) as l2n) x = readers l2n x \<union> (if x \<in> number ` set as then {i} else {})"
  "length l2n \<le> length (fold (add_user i) as l2n)" "\<forall>a\<in>set as. number a < length (fold (add_user i) as l2n)"
proof (induction as arbitrary: l2n)
  case (Cons a as)
  { case 1
    show ?case using Cons(1) [of "add_user i a l2n"] readers_add_user(1) by auto }
  { case 2
    show ?case using Cons(2) [of "add_user i a l2n"] readers_add_user(2) [of l2n i a] by simp }
  { case 3
    show ?case using Cons(2,3) [of "add_user i a l2n"] readers_add_user(3) [of a i l2n] by auto }
qed simp_all

abbreviation (input) index_step :: "nat \<times> Node \<Rightarrow> nat list list \<Rightarrow> nat list list" where
  "index_step \<equiv> \<lambda>(i, node). add_users i node"

lemma readers_index:
  "y \<in> readers (fold index_step (List.enumerate n ns) l2n) x \<longleftrightarrow>
     y \<in> readers l2n x \<or> (\<exists>p<length ns. y = n + p \<and> x \<in> number ` set (args (ns ! p)))"
proof (induction ns arbitrary: n l2n)
  case (Cons node ns)
  have "y \<in> readers (fold index_step (List.enumerate n (node # ns)) l2n) x \<longleftrightarrow>
      y \<in> readers (add_users n node l2n) x \<or> (\<exists>p<length ns. y = Suc n + p \<and> x \<in> number ` set (args (ns ! p)))"
    using Cons [of "Suc n" "add_users n node l2n"] by simp
  moreover have "y \<in> readers (add_users n node l2n) x \<longleftrightarrow> y \<in> readers l2n x \<or> y = n \<and> x \<in> number ` set (args node)"
    unfolding add_users_def readers_add_users(1) by simp
  moreover have "(\<exists>p<length (node # ns). y = n + p \<and> x \<in> number ` set (args ((node # ns) ! p))) \<longleftrightarrow>
      y = n \<and> x \<in> number ` set (args node) \<or> (\<exists>p<length ns. y = Suc n + p \<and> x \<in> number ` set (args (ns ! p)))"
    unfolding length_Cons Ex_less_Suc2 by simp
  ultimately show ?case by blast
qed simp

lemma length_index: "length l2n \<le> length (fold index_step (List.enumerate n ns) l2n)"
proof (induction ns arbitrary: n l2n)
  case (Cons node ns)
  have "length l2n \<le> length (add_users n node l2n)" unfolding add_users_def by (rule readers_add_users(2))
  also have "\<dots> \<le> length (fold index_step (List.enumerate n (node # ns)) l2n)"
    using Cons [of "add_users n node l2n" "Suc n"] by simp
  finally show ?case .
qed simp

section \<open>The finalized net\<close>

text \<open>
  fresh: what the parser hands to finalize. No gate has a depth, but for constants, every gate
  drives its own variable, the table from variables to gates inverts that, and the index is still empty.
\<close>

definition fresh :: "nat \<Rightarrow> (nat \<Rightarrow> nat) \<Rightarrow> Net \<Rightarrow> bool" where
  "fresh n r net \<longleftrightarrow> finalized net = [] \<and> wired r (variable_to_node net) (nodes net) \<and>
     (\<forall>i<length (nodes net). r i < length (nodes net) \<and>
        (depth (nodes net ! i) = -1 \<or> depth (nodes net ! i) = 0 \<and> args (nodes net ! i) = []) \<and>
        variable_to_node net ! variable (nodes net ! i) = Some i \<and>
        variable (nodes net ! i) < length (literal_to_nodes net) \<and>
        variable (nodes net ! i) < n \<and> scannable n (nodes net ! i)) \<and>
     (\<forall>x. readers (literal_to_nodes net) x = {})"

lemma redepth_set:
  assumes "redepth ns ns'" "node \<in> set ns'"
  obtains i d where "i < length ns" "ns' ! i = node" "node = (ns ! i)\<lparr>depth := d\<rparr>"
  using assms unfolding redepth_def in_set_conv_nth by metis

lemma redepth_map:
  assumes "redepth ns ns'" and f: "\<And>node d. f (node\<lparr>depth := d\<rparr>) = f node"
  shows "map f ns' = map f ns"
proof (rule nth_equalityI)
  have l: "length ns' = length ns" "\<forall>i<length ns. \<exists>d. ns' ! i = (ns ! i)\<lparr>depth := d\<rparr>"
    using assms(1) by (simp_all add: redepth_def)
  show "length (map f ns') = length (map f ns)" using l(1) by simp
  fix i assume "i < length (map f ns')"
  then have i: "i < length ns" "i < length ns'" using l(1) by simp_all
  obtain d where "ns' ! i = (ns ! i)\<lparr>depth := d\<rparr>" using l(2) i by blast
  then show "map f ns' ! i = map f ns ! i" using i f by simp
qed

lemma scannable_depth: "scannable n (node\<lparr>depth := d\<rparr>) = scannable n node"
  by (simp add: scannable_def)

lemma sorted_depths:
  assumes ok: "depths_ok v2n ns" and inv: "\<forall>i<length ns. depth (ns ! i) \<noteq> -1 \<and> v2n ! variable (ns ! i) = Some i"
    and fin: "fin = sort_key depth ns" and pq: "p < length fin" "q < length fin"
    and a: "a \<in> set (args (fin ! p))" "variable (fin ! q) = number a"
  shows "q < p"
proof (rule ccontr)
  assume "\<not> q < p"
  then have le: "depth (fin ! p) \<le> depth (fin ! q)"
    using sorted_nth_mono [of "map depth fin" p q] pq fin by simp
  have "fin ! p \<in> set ns" "fin ! q \<in> set ns" using pq fin by (metis nth_mem set_sort)+
  then obtain i k where i: "i < length ns" "ns ! i = fin ! p" and k: "k < length ns" "ns ! k = fin ! q"
    unfolding in_set_conv_nth by blast
  have "v2n ! number a = Some k" using inv k a(2) by auto
  then have "depth (ns ! k) < depth (ns ! i)" using ok i inv a(1) by (auto simp: depths_ok_def)
  then show False using le i k by simp
qed

lemma index_complete:
  fixes l2n :: "nat list list" and fin :: "Node list"
  assumes "\<forall>x. readers l2n x = {}"
  defines "idx \<equiv> fold index_step (List.enumerate 0 fin) l2n"
  shows "x < length idx \<Longrightarrow> set (idx ! x) = {p. p < length fin \<and> x \<in> number ` set (args (fin ! p))}"
    and "p < length fin \<Longrightarrow> a \<in> set (args (fin ! p)) \<Longrightarrow> number a < length idx"
proof -
  have r: "y \<in> readers idx x \<longleftrightarrow> y < length fin \<and> x \<in> number ` set (args (fin ! y))" for x y
    using readers_index [of y 0 fin l2n x] assms(1) by (auto simp: idx_def)
  show "x < length idx \<Longrightarrow> set (idx ! x) = {p. p < length fin \<and> x \<in> number ` set (args (fin ! p))}"
    using r [of _ x] by (auto simp: readers_def)
  show "p < length fin \<Longrightarrow> a \<in> set (args (fin ! p)) \<Longrightarrow> number a < length idx"
    using r [of p "number a"] by (auto simp: readers_def split: if_splits)
qed


definition ex_fresh :: Net where
  "ex_fresh = parse_node ''orIff'' 5 [3, 4] [] (parse_node ''andIff'' 4 [1, 2] []
     \<lparr>nodes = [], finalized = [], literal_to_nodes = [[], [], [], [], [], []], variable_to_node = []\<rparr>)"


end
