(* ===== verification/Ls_Solver.thy ===== *)
theory Ls_Solver
  imports Ls_Net "HOL-Library.Word"
begin

text \<open>
  The state of the local search, src/localsearch/solver/HillClimbingSolver.h, and its two
  operations on a set of flipped variables: check_flipped tries the flips and compares the weight
  of the satisfied clauses, apply_flipped performs them and updates every count.  Weights and
  counts are 32 bit words; variables and clauses are numbers.
\<close>

section \<open>The state\<close>

record MetaVariable =
  matrixIndex :: nat
  rowIndex :: nat
  columnIndex :: nat
  mv_variables :: "Literal list list"
  mv_values :: "nat list"

text \<open>
  The index -1 in literal_to_meta_variable and structuredMetaVariables is None.  The member
  satisfied, a vector of flags, is called sat here.
\<close>

record Solver =
  clauses :: "Clause list"
  propagated :: "nat list"
  sat :: "bool list"
  metaVariables :: "MetaVariable list"
  structuredMetaVariables :: "nat option list list list"
  metaValues :: "nat list list list"
  literal_to_meta_variable :: "nat option list"
  literal_to_unsat :: "32 word list"
  weights :: "32 word list"
  solver_net :: Net
  clauses_count_satisfied :: "32 word list"
  literal_to_clause_with_positive_value :: "nat list list"
  literal_to_clause_with_negative_value :: "nat list list"
  sum_weights :: "32 word"
  satisfiedSum :: "32 word"
  satisfiedCount :: "32 word"
  coreSize :: nat

abbreviation lc_pos :: "Solver \<Rightarrow> nat list list" where
  "lc_pos \<equiv> literal_to_clause_with_positive_value"

abbreviation lc_neg :: "Solver \<Rightarrow> nat list list" where
  "lc_neg \<equiv> literal_to_clause_with_negative_value"

section \<open>Trying a set of flips\<close>

text \<open>The flags of the clauses already seen, the new count and the new sum.\<close>

type_synonym tally = "bool list \<times> 32 word \<times> 32 word"

definition check_clause :: "Solver \<Rightarrow> nat list \<Rightarrow> nat \<Rightarrow> tally \<Rightarrow> tally" where
  "check_clause s fl index =
     (\<lambda>(seen, newSatisfiedCount, newSatisfiedSum).
        if \<not> seen ! index
        then
          let seen = seen[index := True];
              newSatisfied = Clause_propagate_flipped (propagated s) fl (clauses s ! index)
          in if newSatisfied \<and> \<not> sat s ! index
             then (seen, newSatisfiedCount + 1, newSatisfiedSum + weights s ! index)
             else if \<not> newSatisfied \<and> sat s ! index
             then (seen, newSatisfiedCount - 1, newSatisfiedSum - weights s ! index)
             else (seen, newSatisfiedCount, newSatisfiedSum)
        else (seen, newSatisfiedCount, newSatisfiedSum))"

definition check_literal :: "Solver \<Rightarrow> nat list \<Rightarrow> nat \<Rightarrow> tally \<Rightarrow> tally" where
  "check_literal s fl i t = fold (check_clause s fl) (lc_neg s ! i) (fold (check_clause s fl) (lc_pos s ! i) t)"

definition check_flipped :: "Solver \<Rightarrow> nat list \<Rightarrow> (nat list \<times> bool) option" where
  "check_flipped s fl =
     (case Net_compute_flipped (solver_net s) (propagated s) fl of
        None \<Rightarrow> None
      | Some fl \<Rightarrow>
          let (seen, newSatisfiedCount, newSatisfiedSum) =
                fold (check_literal s fl) fl
                  (replicate (length (clauses_count_satisfied s)) False, satisfiedCount s, satisfiedSum s)
          in Some (fl, newSatisfiedSum > satisfiedSum s))"

section \<open>Applying a set of flips\<close>

text \<open>The local variables of apply_flipped with the two members it changes on the way.\<close>

record Update =
  u_clauses :: "Clause list"
  u_unsat :: "32 word list"
  newSatisfied :: "nat list"
  newCounts :: "32 word list"
  newCount :: "32 word"
  newSum :: "32 word"

definition bump :: "32 word \<Rightarrow> Clause \<Rightarrow> 32 word list \<Rightarrow> 32 word list" where
  "bump d c unsat = fold (\<lambda>l u. u[number l := u ! number l + d]) (literals c) unsat"

definition refresh :: "nat list \<Rightarrow> nat \<Rightarrow> Update \<Rightarrow> Update" where
  "refresh units index u = u\<lparr>u_clauses := (u_clauses u)[index := fst (Clause_propagateSat units (u_clauses u ! index))]\<rparr>"

definition sub_clause :: "Solver \<Rightarrow> nat list \<Rightarrow> nat \<Rightarrow> Update \<Rightarrow> Update" where
  "sub_clause s units index u =
     (let u = refresh units index u;
          u = u\<lparr>newCounts := (newCounts u)[index := newCounts u ! index - 1]\<rparr>
      in if clauses_count_satisfied s ! index + newCounts u ! index = 0
         then u\<lparr>u_unsat := bump 1 (u_clauses u ! index) (u_unsat u),
                newSatisfied := newSatisfied u @ [index],
                newCount := newCount u - 1, newSum := newSum u - weights s ! index\<rparr>
         else u)"

definition add_clause :: "Solver \<Rightarrow> nat list \<Rightarrow> nat \<Rightarrow> Update \<Rightarrow> Update" where
  "add_clause s units index u =
     (let u = refresh units index u;
          u = u\<lparr>newCounts := (newCounts u)[index := newCounts u ! index + 1]\<rparr>
      in if clauses_count_satisfied s ! index + newCounts u ! index = 1
         then u\<lparr>u_unsat := bump (-1) (u_clauses u ! index) (u_unsat u),
                newSatisfied := newSatisfied u @ [index],
                newCount := newCount u + 1, newSum := newSum u + weights s ! index\<rparr>
         else u)"

definition apply_literal :: "Solver \<Rightarrow> nat list \<Rightarrow> nat \<Rightarrow> Update \<Rightarrow> Update" where
  "apply_literal s units i u =
     (let to_add = (if units ! i \<noteq> 0 then lc_pos s ! i else lc_neg s ! i);
          to_sub = (if units ! i \<noteq> 0 then lc_neg s ! i else lc_pos s ! i)
      in fold (add_clause s units) to_add (fold (sub_clause s units) to_sub u))"

definition toggle_units :: "nat list \<Rightarrow> nat list \<Rightarrow> nat list" where
  "toggle_units fl units = fold (\<lambda>i u. u[i := u ! i XOR 1]) fl units"

definition toggle_sat :: "nat list \<Rightarrow> bool list \<Rightarrow> bool list" where
  "toggle_sat is flags = fold (\<lambda>i f. f[i := \<not> f ! i]) is flags"

definition apply_flipped :: "Solver \<Rightarrow> nat list \<Rightarrow> Solver option" where
  "apply_flipped s fl =
     (case Net_compute_flipped (solver_net s) (propagated s) fl of
        None \<Rightarrow> None
      | Some fl \<Rightarrow>
          let units = toggle_units fl (propagated s);
              u = fold (apply_literal s units) fl
                    \<lparr>u_clauses = clauses s, u_unsat = literal_to_unsat s, newSatisfied = [],
                     newCounts = replicate (length (clauses_count_satisfied s)) 0,
                     newCount = satisfiedCount s, newSum = satisfiedSum s\<rparr>
          in Some (s\<lparr>propagated := units, clauses := u_clauses u, literal_to_unsat := u_unsat u,
               clauses_count_satisfied := map2 (+) (clauses_count_satisfied s) (newCounts u),
               satisfiedCount := newCount u, satisfiedSum := newSum u,
               sat := toggle_sat (newSatisfied u) (sat s)\<rparr>))"

section \<open>The invariant\<close>

definition occ :: "nat \<Rightarrow> bool \<Rightarrow> Clause \<Rightarrow> nat" where
  "occ v b c = count_list (literals c) \<lparr>number = v, valu = b\<rparr>"

definition occurs :: "nat \<Rightarrow> Clause \<Rightarrow> nat" where
  "occurs v c = count_list (map number (literals c)) v"

text \<open>
  act are the clauses that are kept up to date (toCompute in the source), live the variables that
  may be flipped.  index_ok: the lists of a live variable name the active clauses it occurs in, as
  often as it does.  clauses_ok: what the scans rely on.  totals_ok: counts, flags, sums and the
  number of unsatisfied clauses of each variable are the ones of the assignment.
\<close>

definition index_ok :: "nat set \<Rightarrow> nat set \<Rightarrow> Solver \<Rightarrow> bool" where
  "index_ok act live s \<longleftrightarrow> (\<forall>v\<in>live. v < length (propagated s) \<and> propagated s ! v \<le> 1 \<and>
     (\<forall>c. count_list (lc_pos s ! v) c = (if c \<in> act then occ v True (clauses s ! c) else 0) \<and>
          count_list (lc_neg s ! v) c = (if c \<in> act then occ v False (clauses s ! c) else 0)))"

definition clauses_ok :: "nat set \<Rightarrow> Solver \<Rightarrow> bool" where
  "clauses_ok act s \<longleftrightarrow> act \<subseteq> {..<length (clauses s)} \<and>
     length (sat s) = length (clauses s) \<and> length (clauses_count_satisfied s) = length (clauses s) \<and>
     (\<forall>c\<in>act. sorted_wrt lit_le (literals (clauses s ! c)) \<and> length (literals (clauses s ! c)) < 2 ^ 32 \<and>
        (\<forall>l\<in>set (literals (clauses s ! c)). number l < length (propagated s)))"

definition totals_ok :: "nat set \<Rightarrow> Solver \<Rightarrow> bool" where
  "totals_ok act s \<longleftrightarrow>
     (\<forall>c\<in>act. clauses_count_satisfied s ! c = of_nat (Clause_propagate (propagated s) (clauses s ! c)) \<and>
        sat s ! c = (Clause_propagate (propagated s) (clauses s ! c) > 0)) \<and>
     satisfiedSum s = (\<Sum>c<length (clauses s). if sat s ! c then weights s ! c else 0) \<and>
     satisfiedCount s = (\<Sum>c<length (clauses s). if sat s ! c then 1 else 0) \<and>
     (\<forall>v<length (literal_to_unsat s). literal_to_unsat s ! v =
        (\<Sum>c<length (clauses s). if sat s ! c then 0 else of_nat (occurs v (clauses s ! c))))"

definition solver_ok :: "nat set \<Rightarrow> nat set \<Rightarrow> Solver \<Rightarrow> bool" where
  "solver_ok act live s \<longleftrightarrow> index_ok act live s \<and> clauses_ok act s \<and> totals_ok act s \<and>
     net_ok (length (propagated s)) (solver_net s) \<and> consistent (solver_net s) (propagated s) \<and>
     variable ` set (finalized (solver_net s)) \<subseteq> live"

section \<open>Counting\<close>

lemma sum_flip:
  fixes g h :: "nat \<Rightarrow> 32 word"
  assumes "c < n"
  shows "(\<Sum>x<n. if (f(c := \<not> f c)) x then g x else h x) =
    (\<Sum>x<n. if f x then g x else h x) + (if f c then h c - g c else g c - h c)"
proof -
  have c: "c \<in> {..<n}" using assms by simp
  have "(\<Sum>x\<in>{..<n} - {c}. if (f(c := \<not> f c)) x then g x else h x) = (\<Sum>x\<in>{..<n} - {c}. if f x then g x else h x)"
    by (rule sum.cong) auto
  then show ?thesis
    using sum.remove [OF finite_lessThan c, of "\<lambda>x. if (f(c := \<not> f c)) x then g x else h x"]
      sum.remove [OF finite_lessThan c, of "\<lambda>x. if f x then g x else h x"] by simp
qed

lemma length_bump [simp]: "length (bump d c unsat) = length unsat"
proof -
  have "length (fold (\<lambda>l u. u[number l := u ! number l + d]) ls u) = length u" for ls :: "Literal list" and u
    by (induction ls arbitrary: u) simp_all
  then show ?thesis by (simp add: bump_def)
qed

lemma bump_nth: "v < length unsat \<Longrightarrow> bump d c unsat ! v = unsat ! v + d * of_nat (occurs v c)"
proof -
  have "v < length u \<Longrightarrow> fold (\<lambda>l u. u[number l := u ! number l + d]) ls u ! v = u ! v + d * of_nat (count_list (map number ls) v)"
    for ls :: "Literal list" and u
    by (induction ls arbitrary: u) (auto simp: nth_list_update algebra_simps)
  then show "v < length unsat \<Longrightarrow> ?thesis" by (simp add: bump_def occurs_def)
qed

lemma occurs_literals: "literals c = literals d \<Longrightarrow> occurs v c = occurs v d"
  by (simp add: occurs_def)

lemma Clause_propagate_filter: "Clause_propagate units c = length (filter (holds units) (literals c))"
  by (simp add: Clause_propagate_def count_sat_spec)

text \<open>Flipping one variable moves its literals from the satisfied to the falsified ones and back.\<close>

lemma flip_moves:
  assumes "\<forall>l\<in>set ls. number l < length units" "i \<notin> set xs" "units ! i \<le> 1"
  shows "length (filter (holds (flipped units (xs @ [i]))) ls) + count_list ls \<lparr>number = i, valu = units ! i \<noteq> 0\<rparr> =
    length (filter (holds (flipped units xs)) ls) + count_list ls \<lparr>number = i, valu = units ! i = 0\<rparr> \<and>
    count_list ls \<lparr>number = i, valu = units ! i \<noteq> 0\<rparr> \<le> length (filter (holds (flipped units xs)) ls)"
  using assms(1)
proof (induction ls)
  case (Cons l ls)
  have u: "units ! i = 0 \<or> units ! i = 1" using assms(3) by auto
  have l: "number l < length units" using Cons.prems by simp
  have same: "holds (flipped units (xs @ [i])) l = holds (flipped units xs) l" if "number l \<noteq> i"
    using that l by (simp add: holds_def flipped_nth)
  have eq: "l = \<lparr>number = i, valu = b\<rparr> \<longleftrightarrow> number l = i \<and> valu l = b" for b by (cases l) auto
  have at: "holds (flipped units xs) l = (valu l = (units ! i \<noteq> 0))" "holds (flipped units (xs @ [i])) l = (valu l = (units ! i = 0))"
    if "number l = i" using that l u assms(2) by (auto simp: holds_def flipped_nth)
  have IH: "length (filter (holds (flipped units (xs @ [i]))) ls) + count_list ls \<lparr>number = i, valu = units ! i \<noteq> 0\<rparr> =
      length (filter (holds (flipped units xs)) ls) + count_list ls \<lparr>number = i, valu = units ! i = 0\<rparr>"
    "count_list ls \<lparr>number = i, valu = units ! i \<noteq> 0\<rparr> \<le> length (filter (holds (flipped units xs)) ls)"
    using Cons by simp_all
  show ?case using IH by (cases "number l = i") (auto simp: same at eq)
qed simp


section \<open>The clauses of one flip\<close>

definition flag :: "Solver \<Rightarrow> Update \<Rightarrow> nat \<Rightarrow> bool" where
  "flag s u c \<longleftrightarrow> (sat s ! c \<noteq> odd (count_list (newSatisfied u) c))"

text \<open>
  The state in the middle of apply_flipped: k c is the number of satisfied literals of clause c
  when the flips done so far are applied.
\<close>

definition mid :: "nat set \<Rightarrow> Solver \<Rightarrow> (nat \<Rightarrow> nat) \<Rightarrow> Update \<Rightarrow> bool" where
  "mid act s k u \<longleftrightarrow>
     map literals (u_clauses u) = map literals (clauses s) \<and>
     length (newCounts u) = length (clauses s) \<and> length (u_unsat u) = length (literal_to_unsat s) \<and>
     (\<forall>c\<in>act. clauses_count_satisfied s ! c + newCounts u ! c = of_nat (k c) \<and> flag s u c = (k c > 0)) \<and>
     (\<forall>c. c \<notin> act \<longrightarrow> flag s u c = sat s ! c) \<and>
     newSum u = (\<Sum>c<length (clauses s). if flag s u c then weights s ! c else 0) \<and>
     newCount u = (\<Sum>c<length (clauses s). if flag s u c then 1 else 0) \<and>
     (\<forall>v<length (literal_to_unsat s). u_unsat u ! v =
        (\<Sum>c<length (clauses s). if flag s u c then 0 else of_nat (occurs v (clauses s ! c))))"

lemma mid_cong: "(\<And>c. c \<in> act \<Longrightarrow> k c = k' c) \<Longrightarrow> mid act s k u = mid act s k' u"
  by (simp add: mid_def)

lemma literals_propagateSat [simp]: "literals (fst (Clause_propagateSat units c)) = literals c"
  by (simp add: Clause_propagateSat_def split: prod.splits)

lemma map_literals_refresh:
  "map literals (u_clauses (refresh units i u)) = map literals (u_clauses u)"
  by (simp add: refresh_def map_update)
    (metis (no_types, lifting) length_map list_update_beyond list_update_id not_le_imp_less nth_map)

lemma literals_u:
  assumes "map literals (u_clauses u) = map literals (clauses s)" "c < length (clauses s)"
  shows "literals (u_clauses u ! c) = literals (clauses s ! c)"
  using assms by (metis length_map nth_map)

lemma refresh_simps [simp]:
  "u_unsat (refresh units i u) = u_unsat u" "newSatisfied (refresh units i u) = newSatisfied u"
  "newCounts (refresh units i u) = newCounts u" "newCount (refresh units i u) = newCount u"
  "newSum (refresh units i u) = newSum u"
  by (simp_all add: refresh_def)

text \<open>A step that changes the number of satisfied literals of one clause, with or without a toggle.\<close>

lemma mid_step:
  assumes m: "mid act s k u" and c: "c \<in> act" "c < length (clauses s)"
    and lits: "map literals (u_clauses u') = map literals (clauses s)"
    and counts: "newCounts u' = (newCounts u)[c := newCounts u ! c + d]" "of_nat (k c) + d = of_nat kc"
    and same: "(k c > 0) = (kc > 0) \<Longrightarrow>
      newSatisfied u' = newSatisfied u \<and> newSum u' = newSum u \<and> newCount u' = newCount u \<and> u_unsat u' = u_unsat u"
    and toggle: "(k c > 0) \<noteq> (kc > 0) \<Longrightarrow>
      newSatisfied u' = newSatisfied u @ [c] \<and>
      newSum u' = (if k c > 0 then newSum u - weights s ! c else newSum u + weights s ! c) \<and>
      newCount u' = (if k c > 0 then newCount u - 1 else newCount u + 1) \<and>
      u_unsat u' = bump (if k c > 0 then 1 else -1) (u_clauses u' ! c) (u_unsat u)"
  shows "mid act s (k(c := kc)) u'"
proof -
  have M: "length (newCounts u) = length (clauses s)" "length (u_unsat u) = length (literal_to_unsat s)"
     "\<forall>c. c \<notin> act \<longrightarrow> flag s u c = sat s ! c"
     "\<forall>c\<in>act. clauses_count_satisfied s ! c + newCounts u ! c = of_nat (k c) \<and> flag s u c = (k c > 0)"
     "newSum u = (\<Sum>c<length (clauses s). if flag s u c then weights s ! c else 0)"
     "newCount u = (\<Sum>c<length (clauses s). if flag s u c then 1 else 0)"
     "\<forall>v<length (literal_to_unsat s). u_unsat u ! v =
        (\<Sum>c<length (clauses s). if flag s u c then 0 else of_nat (occurs v (clauses s ! c)))"
    using m by (simp_all add: mid_def)
  note M = M(1,2,4-7) M(3)
  have cnt: "clauses_count_satisfied s ! x + newCounts u' ! x = of_nat ((k(c := kc)) x)" if "x \<in> act" for x
  proof (cases "x = c")
    case True
    have "clauses_count_satisfied s ! c + newCounts u ! c = of_nat (k c)" using M(3) c(1) by blast
    then show ?thesis using True counts c(2) M(1) by (simp add: add.assoc [symmetric])
  next
    case False
    then show ?thesis using M(3) that counts(1) by simp
  qed
  have len: "length (newCounts u') = length (clauses s)" using counts(1) M(1) by simp
  have fc: "flag s u c = (k c > 0)" using M(3) c(1) by blast
  show ?thesis
  proof (cases "(k c > 0) = (kc > 0)")
    case True
    then have e: "flag s u' x = flag s u x" for x using same by (simp add: flag_def)
    have "flag s u' x = ((k(c := kc)) x > 0)" if "x \<in> act" for x using M(3) that True fc e by simp
    then show ?thesis unfolding mid_def using M lits cnt len same [OF True] e by simp
  next
    case False
    note T = toggle [OF False]
    have e: "flag s u' = (flag s u)(c := \<not> flag s u c)" using T by (auto simp: flag_def fun_eq_iff)
    have f: "flag s u' x = ((k(c := kc)) x > 0)" if "x \<in> act" for x using M(3) that False fc e by simp
    have F: "(\<Sum>x<length (clauses s). if flag s u' x then g x else h x) =
        (\<Sum>x<length (clauses s). if flag s u x then g x else h x) + (if k c > 0 then h c - g c else g c - h c)"
      for g h :: "nat \<Rightarrow> 32 word" unfolding e fc [symmetric] by (rule sum_flip [OF c(2)])
    have "newSum u' = (\<Sum>c<length (clauses s). if flag s u' c then weights s ! c else 0)"
      using F [of "\<lambda>c. weights s ! c" "\<lambda>_. 0"] T M(4) by simp
    moreover have "newCount u' = (\<Sum>c<length (clauses s). if flag s u' c then 1 else 0)"
      using F [of "\<lambda>_. 1" "\<lambda>_. 0"] T M(5) by simp
    moreover have "u_unsat u' ! v = (\<Sum>c<length (clauses s). if flag s u' c then 0 else of_nat (occurs v (clauses s ! c)))"
      if v: "v < length (literal_to_unsat s)" for v
    proof -
      have "occurs v (u_clauses u' ! c) = occurs v (clauses s ! c)"
        by (rule occurs_literals, rule literals_u [OF lits c(2)])
      then have "u_unsat u' ! v = u_unsat u ! v + (if k c > 0 then 1 else -1) * of_nat (occurs v (clauses s ! c))"
        using T v M(2) by (simp add: bump_nth)
      then show ?thesis using F [of "\<lambda>_. 0" "\<lambda>c. of_nat (occurs v (clauses s ! c))"] M(6) v by simp
    qed
    moreover have "length (u_unsat u') = length (literal_to_unsat s)" using T M(2) by simp
    moreover have "flag s u' x = sat s ! x" if "x \<notin> act" for x using M(7) that c(1) unfolding e by auto
    ultimately show ?thesis unfolding mid_def using lits cnt len f by simp
  qed
qed

lemma word_count_0: "m < 2 ^ 32 \<Longrightarrow> (of_nat m :: 32 word) = 0 \<longleftrightarrow> m = 0"
  by (cases "m = 0") (auto simp: word_of_nat_eq_0_iff dest: dvd_imp_le)

lemma mid_sub:
  assumes m: "mid act s k u" and c: "c \<in> act" "c < length (clauses s)" and k: "0 < k c" "k c < 2 ^ 32"
  shows "mid act s (k(c := k c - 1)) (sub_clause s units c u)"
proof -
  have M: "map literals (u_clauses u) = map literals (clauses s)" "length (newCounts u) = length (clauses s)"
    "clauses_count_satisfied s ! c + newCounts u ! c = of_nat (k c)" using m c(1) by (simp_all add: mid_def)
  have d: "(of_nat (k c) :: 32 word) - 1 = of_nat (k c - 1)" using k(1) by (simp add: of_nat_diff)
  have z: "clauses_count_satisfied s ! c + (newCounts u ! c - 1) = 0 \<longleftrightarrow> k c - 1 = 0"
    using M(3) d word_count_0 [of "k c - 1"] k(2) by (simp add: add_diff_eq)
  show ?thesis
  proof (rule mid_step [OF m c, where d = "-1"])
    show "map literals (u_clauses (sub_clause s units c u)) = map literals (clauses s)"
      using M(1) map_literals_refresh [of units c u] by (simp add: sub_clause_def Let_def)
    show "newCounts (sub_clause s units c u) = (newCounts u)[c := newCounts u ! c + - 1]"
      by (simp add: sub_clause_def Let_def)
    show "of_nat (k c) + - 1 = (of_nat (k c - 1) :: 32 word)" using d by simp
  qed (use k(1) z M(2) c(2) in \<open>auto simp: sub_clause_def Let_def\<close>)
qed

lemma mid_add:
  assumes m: "mid act s k u" and c: "c \<in> act" "c < length (clauses s)" and k: "k c + 1 < 2 ^ 32"
  shows "mid act s (k(c := k c + 1)) (add_clause s units c u)"
proof -
  have M: "map literals (u_clauses u) = map literals (clauses s)" "length (newCounts u) = length (clauses s)"
    "clauses_count_satisfied s ! c + newCounts u ! c = of_nat (k c)" using m c(1) by (simp_all add: mid_def)
  have z: "clauses_count_satisfied s ! c + (newCounts u ! c + 1) = 1 \<longleftrightarrow> k c = 0"
    using M(3) word_count_0 [of "k c"] k by (simp add: add.assoc [symmetric])
  show ?thesis
  proof (rule mid_step [OF m c, where d = 1])
    show "map literals (u_clauses (add_clause s units c u)) = map literals (clauses s)"
      using M(1) map_literals_refresh [of units c u] by (simp add: add_clause_def Let_def)
    show "newCounts (add_clause s units c u) = (newCounts u)[c := newCounts u ! c + 1]"
      by (simp add: add_clause_def Let_def)
  qed (use z M(2) c(2) in \<open>auto simp: add_clause_def Let_def\<close>)
qed

lemma mid_subs:
  "mid act s k u \<Longrightarrow> set xs \<subseteq> act \<Longrightarrow> act \<subseteq> {..<length (clauses s)} \<Longrightarrow>
     \<forall>c\<in>act. count_list xs c \<le> k c \<and> k c < 2 ^ 32 \<Longrightarrow>
     mid act s (\<lambda>c. k c - count_list xs c) (fold (sub_clause s units) xs u)"
proof (induction xs arbitrary: k u)
  case (Cons x xs)
  let ?k = "k(x := k x - 1)"
  have x: "x \<in> act" "x < length (clauses s)" "count_list (x # xs) x \<le> k x" "k x < 2 ^ 32" using Cons.prems by auto
  have "mid act s ?k (sub_clause s units x u)" using mid_sub [OF Cons.prems(1) x(1,2)] x(3,4) by simp
  moreover have "\<forall>c\<in>act. count_list xs c \<le> ?k c \<and> ?k c < 2 ^ 32"
  proof
    fix c assume "c \<in> act"
    then have "count_list (x # xs) c \<le> k c \<and> k c < 2 ^ 32" using Cons.prems(4) by blast
    then show "count_list xs c \<le> ?k c \<and> ?k c < 2 ^ 32" by (auto split: if_splits)
  qed
  moreover have "set xs \<subseteq> act" using Cons.prems(2) by simp
  ultimately have "mid act s (\<lambda>c. ?k c - count_list xs c) (fold (sub_clause s units) xs (sub_clause s units x u))"
    using Cons.IH [of ?k] Cons.prems(3) by blast
  moreover have "(\<lambda>c. ?k c - count_list xs c) = (\<lambda>c. k c - count_list (x # xs) c)" by auto
  ultimately show ?case by simp
qed simp

lemma mid_adds:
  "mid act s k u \<Longrightarrow> set xs \<subseteq> act \<Longrightarrow> act \<subseteq> {..<length (clauses s)} \<Longrightarrow>
     \<forall>c\<in>act. k c + count_list xs c < 2 ^ 32 \<Longrightarrow>
     mid act s (\<lambda>c. k c + count_list xs c) (fold (add_clause s units) xs u)"
proof (induction xs arbitrary: k u)
  case (Cons x xs)
  let ?k = "k(x := k x + 1)"
  have x: "x \<in> act" "x < length (clauses s)" "k x + count_list (x # xs) x < 2 ^ 32" using Cons.prems by auto
  have "mid act s ?k (add_clause s units x u)" using mid_add [OF Cons.prems(1) x(1,2)] x(3) by simp
  moreover have "\<forall>c\<in>act. ?k c + count_list xs c < 2 ^ 32"
  proof
    fix c assume "c \<in> act"
    then have "k c + count_list (x # xs) c < 2 ^ 32" using Cons.prems(4) by blast
    then show "?k c + count_list xs c < 2 ^ 32" by (auto split: if_splits)
  qed
  moreover have "set xs \<subseteq> act" using Cons.prems(2) by simp
  ultimately have "mid act s (\<lambda>c. ?k c + count_list xs c) (fold (add_clause s units) xs (add_clause s units x u))"
    using Cons.IH [of ?k] Cons.prems(3) by blast
  moreover have "(\<lambda>c. ?k c + count_list xs c) = (\<lambda>c. k c + count_list (x # xs) c)" by auto
  ultimately show ?case by simp
qed simp

section \<open>The flips of one call\<close>

text \<open>The satisfied literals of each clause when the variables in xs are flipped.\<close>

definition hits :: "Solver \<Rightarrow> nat list \<Rightarrow> nat \<Rightarrow> nat" where
  "hits s xs c = Clause_propagate (flipped (propagated s) xs) (clauses s ! c)"

lemma hits_less:
  assumes "clauses_ok act s" "c \<in> act"
  shows "hits s xs c < 2 ^ 32"
proof -
  have "hits s xs c \<le> length (literals (clauses s ! c))" by (simp add: hits_def Clause_propagate_filter)
  then show ?thesis using assms by (auto simp: clauses_ok_def intro: le_less_trans)
qed

lemma index_okD:
  assumes "index_ok act live s" "v \<in> live"
  shows "v < length (propagated s)" "propagated s ! v \<le> 1"
    "count_list (lc_pos s ! v) c = (if c \<in> act then occ v True (clauses s ! c) else 0)"
    "count_list (lc_neg s ! v) c = (if c \<in> act then occ v False (clauses s ! c) else 0)"
    "set (lc_pos s ! v) \<subseteq> act" "set (lc_neg s ! v) \<subseteq> act"
proof -
  have I: "v < length (propagated s)" "propagated s ! v \<le> 1"
    "count_list (lc_pos s ! v) c = (if c \<in> act then occ v True (clauses s ! c) else 0)"
    "count_list (lc_neg s ! v) c = (if c \<in> act then occ v False (clauses s ! c) else 0)" for c
    using assms unfolding index_ok_def by blast+
  show "v < length (propagated s)" "propagated s ! v \<le> 1"
    "count_list (lc_pos s ! v) c = (if c \<in> act then occ v True (clauses s ! c) else 0)"
    "count_list (lc_neg s ! v) c = (if c \<in> act then occ v False (clauses s ! c) else 0)" by (fact I)+
  show "set (lc_pos s ! v) \<subseteq> act" "set (lc_neg s ! v) \<subseteq> act"
    using I(3,4) by (metis count_list_0_iff subsetI)+
qed

lemma apply_literal_mid:
  assumes ok: "index_ok act live s" "clauses_ok act s" and i: "i \<in> live" "i \<notin> set xs"
    and units: "units ! i = propagated s ! i XOR 1" and m: "mid act s (hits s xs) u"
  shows "mid act s (hits s (xs @ [i])) (apply_literal s units i u)"
proof -
  let ?old = "propagated s ! i \<noteq> 0" and ?pr = "propagated s"
  let ?lst = "\<lambda>b. if b then lc_pos s ! i else lc_neg s ! i"
  note I = index_okD [OF ok(1) i(1)]
  have act: "act \<subseteq> {..<length (clauses s)}" using ok(2) by (simp add: clauses_ok_def)
  have val: "(units ! i \<noteq> 0) = (\<not> ?old)" using units I(2) by (cases "?pr ! i") auto
  have set: "set (?lst b) \<subseteq> act" for b using I(5,6) by simp
  have cnt: "count_list (?lst b) c = occ i b (clauses s ! c)" if "c \<in> act" for c b using I(3,4) that by simp
  have mv: "hits s (xs @ [i]) c + occ i ?old (clauses s ! c) = hits s xs c + occ i (\<not> ?old) (clauses s ! c) \<and>
      occ i ?old (clauses s ! c) \<le> hits s xs c" if c: "c \<in> act" for c
  proof -
    have "\<forall>l\<in>set (literals (clauses s ! c)). number l < length ?pr" using ok(2) c by (simp add: clauses_ok_def)
    then show ?thesis using flip_moves [of "literals (clauses s ! c)" ?pr i xs] i(2) I(2)
      by (simp add: hits_def Clause_propagate_filter occ_def)
  qed
  let ?k = "\<lambda>c. hits s xs c - count_list (?lst ?old) c"
  let ?u = "fold (sub_clause s units) (?lst ?old) u"
  have "mid act s ?k ?u"
    using mv cnt hits_less [OF ok(2)] by (intro mid_subs [OF m set act]) auto
  moreover have eq: "?k c + count_list (?lst (\<not> ?old)) c = hits s (xs @ [i]) c" if "c \<in> act" for c
    using mv [OF that] cnt [OF that, of ?old] cnt [OF that, of "\<not> ?old"] by linarith
  moreover have "\<forall>c\<in>act. ?k c + count_list (?lst (\<not> ?old)) c < 2 ^ 32"
    using eq hits_less [OF ok(2)] by simp
  ultimately have "mid act s (\<lambda>c. ?k c + count_list (?lst (\<not> ?old)) c) (fold (add_clause s units) (?lst (\<not> ?old)) ?u)"
    using set act by (intro mid_adds) simp_all
  then have "mid act s (hits s (xs @ [i])) (fold (add_clause s units) (?lst (\<not> ?old)) ?u)"
    using eq mid_cong [of act] by (metis (no_types, lifting))
  moreover have "apply_literal s units i u = fold (add_clause s units) (?lst (\<not> ?old)) ?u"
    using val by (simp add: apply_literal_def Let_def)
  ultimately show ?thesis by simp
qed

lemma apply_literals_mid:
  assumes ok: "index_ok act live s" "clauses_ok act s"
  shows "set ys \<subseteq> live \<Longrightarrow> distinct (xs @ ys) \<Longrightarrow> \<forall>i\<in>set ys. units ! i = propagated s ! i XOR 1 \<Longrightarrow>
    mid act s (hits s xs) u \<Longrightarrow> mid act s (hits s (xs @ ys)) (fold (apply_literal s units) ys u)"
proof (induction ys arbitrary: xs u)
  case (Cons i ys)
  have "mid act s (hits s (xs @ [i])) (apply_literal s units i u)"
    using Cons.prems by (intro apply_literal_mid [OF ok]) simp_all
  then show ?case using Cons.IH [of "xs @ [i]"] Cons.prems(1-3) by simp
qed simp

lemma length_toggle_units [simp]: "length (toggle_units fl units) = length units"
  unfolding toggle_units_def by (induction fl arbitrary: units) simp_all

lemma toggle_units_nth:
  "v < length units \<Longrightarrow> distinct fl \<Longrightarrow> toggle_units fl units ! v = units ! v XOR of_bool (v \<in> set fl)"
  unfolding toggle_units_def by (induction fl arbitrary: units) (auto simp: nth_list_update)

lemma toggle_units_flipped: "distinct fl \<Longrightarrow> toggle_units fl units = flipped units fl"
  by (rule nth_equalityI) (simp_all add: toggle_units_nth flipped_nth)

lemma length_toggle_sat [simp]: "length (toggle_sat is flags) = length flags"
  unfolding toggle_sat_def by (induction "is" arbitrary: flags) simp_all

lemma toggle_sat_nth: "c < length flags \<Longrightarrow> toggle_sat is flags ! c = (flags ! c \<noteq> odd (count_list is c))"
  unfolding toggle_sat_def by (induction "is" arbitrary: flags) (auto simp: nth_list_update)

lemma flipped_Nil [simp]: "flipped units [] = units"
  by (rule nth_equalityI) (simp_all add: flipped_nth)

definition start :: "Solver \<Rightarrow> Update" where
  "start s = \<lparr>u_clauses = clauses s, u_unsat = literal_to_unsat s, newSatisfied = [],
     newCounts = replicate (length (clauses_count_satisfied s)) 0,
     newCount = satisfiedCount s, newSum = satisfiedSum s\<rparr>"

lemma start_mid:
  assumes "clauses_ok act s" "totals_ok act s"
  shows "mid act s (hits s []) (start s)"
proof -
  have "flag s (start s) c = sat s ! c" for c by (simp add: flag_def start_def)
  moreover have "act \<subseteq> {..<length (clauses s)}" "length (clauses_count_satisfied s) = length (clauses s)"
    using assms(1) by (simp_all add: clauses_ok_def)
  ultimately show ?thesis using assms(2) unfolding mid_def totals_ok_def hits_def
    by (auto simp: start_def)
qed

text \<open>What apply_flipped makes of the state, from the local variables at the end of its loops.\<close>

definition finish :: "Solver \<Rightarrow> nat list \<Rightarrow> Update \<Rightarrow> Solver" where
  "finish s units u = s\<lparr>propagated := units, clauses := u_clauses u, literal_to_unsat := u_unsat u,
     clauses_count_satisfied := map2 (+) (clauses_count_satisfied s) (newCounts u),
     satisfiedCount := newCount u, satisfiedSum := newSum u, sat := toggle_sat (newSatisfied u) (sat s)\<rparr>"

lemma apply_flipped_start:
  "Net_compute_flipped (solver_net s) (propagated s) fl = Some fl' \<Longrightarrow>
     apply_flipped s fl = Some (finish s (toggle_units fl' (propagated s))
       (fold (apply_literal s (toggle_units fl' (propagated s))) fl' (start s)))"
  by (simp add: apply_flipped_def finish_def start_def Let_def)

lemma finish_ok:
  assumes ok: "solver_ok act live s" and m: "mid act s (hits s fl) u"
    and con: "consistent (solver_net s) (flipped (propagated s) fl)"
  shows "solver_ok act live (finish s (flipped (propagated s) fl) u)"
proof -
  let ?s = "finish s (flipped (propagated s) fl) u"
  have O: "index_ok act live s" "clauses_ok act s" "net_ok (length (propagated s)) (solver_net s)"
    "variable ` set (finalized (solver_net s)) \<subseteq> live" using ok by (simp_all add: solver_ok_def)
  have C: "act \<subseteq> {..<length (clauses s)}" "length (sat s) = length (clauses s)"
     "length (clauses_count_satisfied s) = length (clauses s)" using O(2) by (simp_all add: clauses_ok_def)
  have M: "map literals (u_clauses u) = map literals (clauses s)" "length (newCounts u) = length (clauses s)"
    "length (u_unsat u) = length (literal_to_unsat s)" using m by (simp_all add: mid_def)
  have len: "length (u_clauses u) = length (clauses s)" using M(1) map_eq_imp_length_eq by blast
  have lit: "literals (u_clauses u ! c) = literals (clauses s ! c)" if "c < length (clauses s)" for c
    using literals_u [OF M(1) that] .
  have act: "c < length (clauses s)" if "c \<in> act" for c using C(1) that by blast
  have fl: "sat ?s ! c = flag s u c" if "c < length (clauses s)" for c
    using that C(2) by (simp add: finish_def flag_def toggle_sat_nth)
  have "index_ok act live ?s"
  proof -
    have "flipped (propagated s) fl ! v \<le> 1" if "v < length (propagated s)" "propagated s ! v \<le> 1" for v
      using that by (cases "propagated s ! v") (auto simp: flipped_nth)
    then show ?thesis using O(1) lit act unfolding index_ok_def by (simp add: finish_def occ_def)
  qed
  moreover have "clauses_ok act ?s"
    using O(2) lit act len M(2) unfolding clauses_ok_def by (simp add: finish_def)
  moreover have "totals_ok act ?s"
    unfolding totals_ok_def
  proof (intro conjI ballI allI impI)
    fix c assume c: "c \<in> act"
    have p: "Clause_propagate (propagated ?s) (clauses ?s ! c) = hits s fl c"
      using lit [OF act [OF c]] by (simp add: finish_def hits_def Clause_propagate_filter)
    show "clauses_count_satisfied ?s ! c = of_nat (Clause_propagate (propagated ?s) (clauses ?s ! c))"
      unfolding p using m c act [OF c] C(3) M(2) by (simp add: mid_def finish_def)
    show "sat ?s ! c = (Clause_propagate (propagated ?s) (clauses ?s ! c) > 0)"
      unfolding p fl [OF act [OF c]] using m c by (simp add: mid_def)
  next
    have "satisfiedSum ?s = (\<Sum>c<length (clauses s). if flag s u c then weights s ! c else 0)"
      using m by (simp add: mid_def finish_def)
    also have "\<dots> = (\<Sum>c<length (clauses ?s). if sat ?s ! c then weights ?s ! c else 0)"
      using fl len by (intro sum.cong) (auto simp: finish_def)
    finally show "satisfiedSum ?s = (\<Sum>c<length (clauses ?s). if sat ?s ! c then weights ?s ! c else 0)" .
    have "satisfiedCount ?s = (\<Sum>c<length (clauses s). if flag s u c then 1 else 0)"
      using m by (simp add: mid_def finish_def)
    also have "\<dots> = (\<Sum>c<length (clauses ?s). if sat ?s ! c then 1 else 0)"
      using fl len by (intro sum.cong) (auto simp: finish_def)
    finally show "satisfiedCount ?s = (\<Sum>c<length (clauses ?s). if sat ?s ! c then 1 else 0)" .
    fix v assume "v < length (literal_to_unsat ?s)"
    then have "literal_to_unsat ?s ! v = (\<Sum>c<length (clauses s). if flag s u c then 0 else of_nat (occurs v (clauses s ! c)))"
      using m M(3) by (simp add: mid_def finish_def)
    also have "\<dots> = (\<Sum>c<length (clauses ?s). if sat ?s ! c then 0 else of_nat (occurs v (clauses ?s ! c)))"
      using fl lit len by (intro sum.cong) (auto simp: finish_def occurs_def)
    finally show "literal_to_unsat ?s ! v = (\<Sum>c<length (clauses ?s). if sat ?s ! c then 0 else of_nat (occurs v (clauses ?s ! c)))" .
  qed
  ultimately show ?thesis using O(3,4) con unfolding solver_ok_def by (simp add: finish_def)
qed

section \<open>The tally of check_flipped\<close>

definition tally_ok :: "Solver \<Rightarrow> (nat \<Rightarrow> bool) \<Rightarrow> tally \<Rightarrow> bool" where
  "tally_ok s new = (\<lambda>(seen, newSatisfiedCount, newSatisfiedSum).
     length seen = length (clauses s) \<and>
     newSatisfiedCount = (\<Sum>c<length (clauses s). if (if seen ! c then new c else sat s ! c) then 1 else 0) \<and>
     newSatisfiedSum = (\<Sum>c<length (clauses s). if (if seen ! c then new c else sat s ! c) then weights s ! c else 0))"

lemma check_clause_ok:
  assumes c: "c < length (clauses s)" and t: "tally_ok s new t"
    and new: "new c = Clause_propagate_flipped (propagated s) fl (clauses s ! c)"
  shows "tally_ok s new (check_clause s fl c t) \<and> (\<forall>x<length (clauses s). fst (check_clause s fl c t) ! x = (fst t ! x \<or> x = c))"
proof -
  obtain seen n w where tt: "t = (seen, n, w)" by (metis prod_cases3)
  let ?f = "\<lambda>seen x. if seen ! x then new x else sat s ! x"
  have T: "length seen = length (clauses s)" "n = (\<Sum>c<length (clauses s). if ?f seen c then 1 else 0)"
    "w = (\<Sum>c<length (clauses s). if ?f seen c then weights s ! c else 0)" using t by (simp_all add: tally_ok_def tt)
  show ?thesis
  proof (cases "seen ! c")
    case True
    then show ?thesis using t tt by (auto simp: check_clause_def)
  next
    case False
    have s': "length (seen[c := True]) = length (clauses s)" using T(1) by simp
    have fst: "fst (check_clause s fl c t) = seen[c := True]" using False by (simp add: check_clause_def tt Let_def)
    have f': "?f (seen[c := True]) x = (if x = c then new c else ?f seen x)" for x
      using c T(1) by (cases "x = c") simp_all
    have "tally_ok s new (check_clause s fl c t)"
    proof (cases "new c = sat s ! c")
      case True
      then have "?f (seen[c := True]) x = ?f seen x" for x using f' False by simp
      moreover have "check_clause s fl c t = (seen[c := True], n, w)" using True False new by (simp add: check_clause_def tt Let_def)
      ultimately show ?thesis using T s' by (simp add: tally_ok_def)
    next
      case d: False
      then have e: "?f (seen[c := True]) x = ((?f seen)(c := \<not> ?f seen c)) x" for x using f' [of x] False by simp
      have F: "(\<Sum>x<length (clauses s). if ?f (seen[c := True]) x then g x else 0) =
          (\<Sum>x<length (clauses s). if ?f seen x then g x else 0) + (if sat s ! c then - g c else g c)" for g :: "nat \<Rightarrow> 32 word"
      proof -
        have "(\<Sum>x<length (clauses s). if ?f (seen[c := True]) x then g x else 0) =
            (\<Sum>x<length (clauses s). if ((?f seen)(c := \<not> ?f seen c)) x then g x else 0)" by (simp only: e)
        then show ?thesis using sum_flip [OF c, of "?f seen" g "\<lambda>_. 0"] False by simp
      qed
      have "check_clause s fl c t = (seen[c := True], if sat s ! c then n - 1 else n + 1,
          if sat s ! c then w - weights s ! c else w + weights s ! c)"
        using d False new by (simp add: check_clause_def tt Let_def)
      then show ?thesis using F [of "\<lambda>_. 1"] F [of "\<lambda>c. weights s ! c"] T s' by (simp add: tally_ok_def)
    qed
    then show ?thesis using fst c T(1) by (auto simp: tt nth_list_update)
  qed
qed

lemma check_clauses_ok:
  assumes new: "\<forall>c\<in>act. new c = Clause_propagate_flipped (propagated s) fl (clauses s ! c)" and act: "act \<subseteq> {..<length (clauses s)}"
  shows "tally_ok s new t \<Longrightarrow> set xs \<subseteq> act \<Longrightarrow> tally_ok s new (fold (check_clause s fl) xs t) \<and>
    (\<forall>x<length (clauses s). fst (fold (check_clause s fl) xs t) ! x = (fst t ! x \<or> x \<in> set xs))"
proof (induction xs arbitrary: t)
  case (Cons c xs)
  have "c < length (clauses s)" "new c = Clause_propagate_flipped (propagated s) fl (clauses s ! c)"
    using Cons.prems(2) new act by auto
  then have "tally_ok s new (check_clause s fl c t)"
    "\<forall>x<length (clauses s). fst (check_clause s fl c t) ! x = (fst t ! x \<or> x = c)"
    using check_clause_ok [OF _ Cons.prems(1)] by blast+
  then show ?case using Cons.IH [of "check_clause s fl c t"] Cons.prems(2) by auto
qed simp

lemma check_literals_ok:
  assumes new: "\<forall>c\<in>act. new c = Clause_propagate_flipped (propagated s) fl (clauses s ! c)" and act: "act \<subseteq> {..<length (clauses s)}"
  shows "tally_ok s new t \<Longrightarrow> \<forall>i\<in>set is. set (lc_pos s ! i) \<subseteq> act \<and> set (lc_neg s ! i) \<subseteq> act \<Longrightarrow>
    tally_ok s new (fold (check_literal s fl) is t) \<and>
    (\<forall>x<length (clauses s). fst (fold (check_literal s fl) is t) ! x =
       (fst t ! x \<or> (\<exists>i\<in>set is. x \<in> set (lc_pos s ! i) \<union> set (lc_neg s ! i))))"
proof (induction "is" arbitrary: t)
  case (Cons i "is")
  let ?t1 = "fold (check_clause s fl) (lc_pos s ! i) t"
  let ?t2 = "fold (check_clause s fl) (lc_neg s ! i) ?t1"
  have 1: "tally_ok s new ?t1" "\<forall>x<length (clauses s). fst ?t1 ! x = (fst t ! x \<or> x \<in> set (lc_pos s ! i))"
    using check_clauses_ok [OF new act Cons.prems(1)] Cons.prems(2) by simp_all
  have 2: "tally_ok s new ?t2" "\<forall>x<length (clauses s). fst ?t2 ! x = (fst ?t1 ! x \<or> x \<in> set (lc_neg s ! i))"
    using check_clauses_ok [OF new act 1(1)] Cons.prems(2) by simp_all
  have 3: "tally_ok s new (fold (check_literal s fl) is ?t2)"
    "\<forall>x<length (clauses s). fst (fold (check_literal s fl) is ?t2) ! x =
       (fst ?t2 ! x \<or> (\<exists>i\<in>set is. x \<in> set (lc_pos s ! i) \<union> set (lc_neg s ! i)))"
    using Cons.IH [OF 2(1)] Cons.prems(2) by simp_all
  have e: "fold (check_literal s fl) (i # is) t = fold (check_literal s fl) is ?t2" by (simp add: check_literal_def)
  show ?case unfolding e using 3 2(2) 1(2) by auto
qed simp

section \<open>Properties\<close>

lemma propagate_flipped_hits:
  assumes "clauses_ok act s" "sorted fl" "c \<in> act"
  shows "Clause_propagate_flipped (propagated s) fl (clauses s ! c) = (hits s fl c > 0)"
  using assms flip_loop_spec [OF assms(2), of "literals (clauses s ! c)" 0 "propagated s"]
  by (auto simp: Clause_propagate_flipped_def hits_def Clause_propagate_filter clauses_ok_def filter_empty_conv)

lemma hits_unread:
  assumes "clauses_ok act s" "c \<in> act" "\<forall>i\<in>set fl. \<forall>b. occ i b (clauses s ! c) = 0"
  shows "hits s fl c = Clause_propagate (propagated s) (clauses s ! c)"
proof -
  have "holds (flipped (propagated s) fl) l = holds (propagated s) l" if l: "l \<in> set (literals (clauses s ! c))" for l
  proof -
    have "count_list (literals (clauses s ! c)) l \<noteq> 0" using l by (simp add: count_list_0_iff)
    then have "number l \<notin> set fl" using assms(3) by (cases l) (auto simp: occ_def)
    then show ?thesis using assms(1,2) l by (auto simp: clauses_ok_def holds_def flipped_nth)
  qed
  then show ?thesis by (simp add: hits_def Clause_propagate_filter cong: filter_cong)
qed

text \<open>Everything about one call, before it is split into properties.\<close>

lemma flips_spec:
  assumes ok: "solver_ok act live s" and fl: "sorted fl" "distinct fl"
    "set fl \<subseteq> live - variable ` set (finalized (solver_net s))"
  obtains fl' s' where "apply_flipped s fl = Some s'" "solver_ok act live s'" "propagated s' = flipped (propagated s) fl'"
    "set fl \<subseteq> set fl'" "set fl' - set fl \<subseteq> variable ` set (finalized (solver_net s))"
    "check_flipped s fl = Some (fl', satisfiedSum s < satisfiedSum s')" "solver_net s' = solver_net s"
proof -
  let ?net = "solver_net s" and ?pr = "propagated s"
  have O: "index_ok act live s" "clauses_ok act s" "totals_ok act s" "net_ok (length ?pr) ?net" "consistent ?net ?pr"
    "variable ` set (finalized ?net) \<subseteq> live" using ok by (simp_all add: solver_ok_def)
  have act: "act \<subseteq> {..<length (clauses s)}" using O(2) by (simp add: clauses_ok_def)
  obtain fl' where N: "Net_compute_flipped ?net ?pr fl = Some fl'" "sorted fl'" "distinct fl'" "set fl \<subseteq> set fl'"
    "set fl' - set fl \<subseteq> variable ` set (finalized ?net)" "consistent ?net (flipped ?pr fl')"
    using Net_compute_flipped_spec [OF O(4,5) fl(1,2)] fl(3) by blast
  have live: "set fl' \<subseteq> live" using N(5) O(6) fl(3) by blast
  let ?units = "flipped ?pr fl'" and ?u = "fold (apply_literal s (flipped ?pr fl')) fl' (start s)"
  have "?units ! i = ?pr ! i XOR 1" if "i \<in> set fl'" for i
    using that index_okD(1) [OF O(1)] live by (simp add: flipped_nth subset_iff)
  then have m: "mid act s (hits s fl') ?u"
    using apply_literals_mid [OF O(1,2) live, of "[]"] start_mid [OF O(2,3)] N(3) by simp
  let ?s = "finish s ?units ?u"
  have a: "apply_flipped s fl = Some ?s" using apply_flipped_start [OF N(1)] toggle_units_flipped [OF N(3)] by simp
  let ?new = "\<lambda>c. hits s fl' c > 0"
  let ?init = "(replicate (length (clauses_count_satisfied s)) False, satisfiedCount s, satisfiedSum s)"
  let ?t = "fold (check_literal s fl') fl' ?init"
  have t0: "tally_ok s ?new ?init" using O(2,3) by (simp add: tally_ok_def clauses_ok_def totals_ok_def)
  have new: "\<forall>c\<in>act. ?new c = Clause_propagate_flipped ?pr fl' (clauses s ! c)"
    using propagate_flipped_hits [OF O(2) N(2)] by simp
  have lists: "\<forall>i\<in>set fl'. set (lc_pos s ! i) \<subseteq> act \<and> set (lc_neg s ! i) \<subseteq> act" using index_okD(5,6) [OF O(1)] live by blast
  have T: "tally_ok s ?new ?t" "\<forall>x<length (clauses s). fst ?t ! x = (\<exists>i\<in>set fl'. x \<in> set (lc_pos s ! i) \<union> set (lc_neg s ! i))"
    using check_literals_ok [OF new act t0 lists] O(2) by (simp_all add: clauses_ok_def)
  have flag: "(if fst ?t ! c then ?new c else sat s ! c) = flag s ?u c" if c: "c < length (clauses s)" for c
  proof (cases "c \<in> act")
    case True
    have "?new c = sat s ! c" if "\<not> fst ?t ! c"
    proof -
      have "count_list (lc_pos s ! i) c = 0 \<and> count_list (lc_neg s ! i) c = 0" if "i \<in> set fl'" for i
        using that T(2) c \<open>\<not> fst ?t ! c\<close> by (auto simp: count_list_0_iff)
      then have "occ i b (clauses s ! c) = 0" if "i \<in> set fl'" for i b
        using that live True index_okD(3,4) [OF O(1), of i c] by (cases b) (auto simp: subset_iff)
      then show ?thesis using hits_unread [OF O(2) True] O(3) True by (simp add: totals_ok_def)
    qed
    then show ?thesis using m True by (simp add: mid_def)
  next
    case False
    then have "\<not> fst ?t ! c" using T(2) c lists by blast
    then show ?thesis using m False by (simp add: mid_def)
  qed
  obtain seen n w where tt: "?t = (seen, n, w)" by (metis prod_cases3)
  have "w = (\<Sum>c<length (clauses s). if flag s ?u c then weights s ! c else 0)"
    using T(1) flag unfolding tally_ok_def tt by simp
  also have "\<dots> = satisfiedSum ?s" using m by (simp add: mid_def finish_def)
  finally have "check_flipped s fl = Some (fl', satisfiedSum s < satisfiedSum ?s)"
    using N(1) tt by (simp add: check_flipped_def)
  then show ?thesis
    using that [of ?s fl'] a finish_ok [OF ok m N(6)] N(4,5) by (simp add: finish_def)
qed

text \<open>
  C1: apply_flipped keeps the state of the search consistent.  For sorted flips of live variables
  that are not gates it succeeds; the flips and the gates that follow from them are performed, and
  in the new state every count, every flag, both sums and the number of unsatisfied clauses of
  each variable are again those of the assignment.
\<close>

theorem apply_flipped_invariant:
  assumes "solver_ok act live s" "sorted fl" "distinct fl"
    "set fl \<subseteq> live - variable ` set (finalized (solver_net s))"
  shows "\<exists>s' fl'. apply_flipped s fl = Some s' \<and> solver_ok act live s' \<and> propagated s' = flipped (propagated s) fl' \<and>
    set fl \<subseteq> set fl' \<and> set fl' - set fl \<subseteq> variable ` set (finalized (solver_net s))"
  using flips_spec [OF assms] by metis

text \<open>
  C10: check_flipped predicts apply_flipped.  It says yes exactly when applying the same flips
  raises the weight of the satisfied clauses, and returns the variables that apply_flipped flips.
\<close>

theorem check_flipped_predicts:
  assumes "solver_ok act live s" "sorted fl" "distinct fl"
    "set fl \<subseteq> live - variable ` set (finalized (solver_net s))"
  shows "\<exists>s' fl'. apply_flipped s fl = Some s' \<and> propagated s' = flipped (propagated s) fl' \<and>
    check_flipped s fl = Some (fl', satisfiedSum s < satisfiedSum s')"
  using flips_spec [OF assms] by metis

section \<open>Examples\<close>

text \<open>Variables 2 and 3 are inputs, the gate 1 is their conjunction, the only clause is 1.\<close>

definition ex_solver :: Solver where
  "ex_solver =
     \<lparr>clauses = [\<lparr>literals = [Literal_dimacs 1], satisfied = [False]\<rparr>], propagated = [2, 0, 1, 0], sat = [False],
      metaVariables = [], structuredMetaVariables = [], metaValues = [],
      literal_to_meta_variable = [None, None, None, None], literal_to_unsat = [0, 1, 0, 0], weights = [1],
      solver_net = \<lparr>nodes = [], finalized = [(AndIffNode 1 [Literal_dimacs 2, Literal_dimacs 3])\<lparr>depth := 1\<rparr>],
        literal_to_nodes = [[], [], [0], [0]], variable_to_node = [None, Some 0]\<rparr>,
      clauses_count_satisfied = [0], literal_to_clause_with_positive_value = [[], [0], [], []],
      literal_to_clause_with_negative_value = [[], [], [], []], sum_weights = 1, satisfiedSum = 0,
      satisfiedCount = 0, coreSize = 3\<rparr>"

lemma ex_solver_ok: "solver_ok {0} {1, 2, 3} ex_solver"
proof -
  have "index_ok {0} {1, 2, 3} ex_solver" by (auto simp: index_ok_def ex_solver_def occ_def Literal_dimacs_def)
  moreover have "clauses_ok {0} ex_solver" by (simp add: clauses_ok_def ex_solver_def Literal_dimacs_def)
  moreover have "totals_ok {0} ex_solver"
    by (auto simp: totals_ok_def ex_solver_def Clause_propagate_def Literal_dimacs_def occurs_def nth_Cons' less_Suc_eq)
  moreover have "net_ok 4 (solver_net ex_solver)"
    by (auto simp: net_ok_def ex_solver_def AndIffNode_def Literal_dimacs_def scannable_def lit_le_def less_Suc_eq nth_Cons')
  moreover have "consistent (solver_net ex_solver) (propagated ex_solver)"
    by (simp add: consistent_def ex_solver_def AndIffNode_def node_value_def lit_true_def Literal_dimacs_def)
  ultimately show ?thesis by (simp add: solver_ok_def) (simp add: ex_solver_def AndIffNode_def eval_nat_numeral)
qed

theorem apply_flipped_invariant_witness:
  "\<exists>s' fl'. apply_flipped ex_solver [3] = Some s' \<and> solver_ok {0} {1, 2, 3} s' \<and>
    propagated s' = flipped (propagated ex_solver) fl' \<and> set [3] \<subseteq> set fl' \<and>
    set fl' - set [3] \<subseteq> variable ` set (finalized (solver_net ex_solver))"
  by (rule apply_flipped_invariant [OF ex_solver_ok]) (simp_all add: ex_solver_def AndIffNode_def)

theorem check_flipped_predicts_witness:
  "\<exists>s' fl'. apply_flipped ex_solver [3] = Some s' \<and> propagated s' = flipped (propagated ex_solver) fl' \<and>
    check_flipped ex_solver [3] = Some (fl', satisfiedSum ex_solver < satisfiedSum s')"
  by (rule check_flipped_predicts [OF ex_solver_ok]) (simp_all add: ex_solver_def AndIffNode_def)


end
