(* ===== verification/Ls_Comb.thy ===== *)
theory Ls_Comb
  imports Ls_Cnf
begin

text \<open>
  The combinatorial helpers of the local search, src/localsearch/utils/utils.cpp: the mixed radix
  counter over the values of a bag of variables (nextArray), the enumeration of the bags
  (next_combination and its variants), their number, and the random start of the enumeration.
  rand() is a parameter: the sequence of the values it returns.
\<close>

section \<open>The code\<close>

text \<open>Both vectors have the same length; only the sizes of the second one count.\<close>

fun nextArray :: "nat list \<Rightarrow> 'a list list \<Rightarrow> nat list \<times> bool" where
  "nextArray [] indices = ([], False)"
| "nextArray (a # array) indices =
     (if a + 1 = length (hd indices)
      then (let (array', r) = nextArray array (tl indices) in (0 # array', r))
      else ((a + 1) # array, True))"

definition UINT64_MAX :: nat where "UINT64_MAX = 2 ^ 64 - 1"

function falling_loop :: "nat \<Rightarrow> nat \<Rightarrow> nat \<Rightarrow> nat \<Rightarrow> (nat + nat) option" where
  "falling_loop n k i result =
     (if i < k then
        let result = (result * (n - i)) mod 2 ^ 64
        in if n - i = 0 then None
           else if UINT64_MAX div (n - i) < result then Some (Inl UINT64_MAX)
           else falling_loop n k (i + 1) result
      else Some (Inr result))"
  by pat_completeness auto
termination by (relation "measure (\<lambda>(n, k, i, result). k - i)") (auto simp: Let_def)

function divide_loop :: "nat \<Rightarrow> nat \<Rightarrow> nat \<Rightarrow> nat" where
  "divide_loop k i result = (if i \<le> k then divide_loop k (i + 1) (result div i) else result)"
  by pat_completeness auto
termination by (relation "measure (\<lambda>(k, i, result). Suc k - i)") auto

declare falling_loop.simps [simp del] divide_loop.simps [simp del]

definition get_number_of_combinations :: "nat \<Rightarrow> nat \<Rightarrow> nat option" where
  "get_number_of_combinations n k =
     (case falling_loop n k 0 1 of
        None \<Rightarrow> None
      | Some (Inl result) \<Rightarrow> Some result
      | Some (Inr result) \<Rightarrow> Some (divide_loop k 2 result))"

fun contains_loop :: "nat list \<Rightarrow> nat list \<Rightarrow> nat \<Rightarrow> bool" where
  "contains_loop [] including i = False"
| "contains_loop (element # combination) including i =
     (let i = skip_to including i element
      in if i < length including \<and> element = including ! i then True
         else contains_loop combination including i)"

definition contains :: "nat list \<Rightarrow> nat list \<Rightarrow> bool" where
  "contains combination including = contains_loop combination including 0"

fun next_combination_loop :: "nat \<Rightarrow> nat \<Rightarrow> nat list \<Rightarrow> nat list \<times> bool" where
  "next_combination_loop i n [] = ([], False)"
| "next_combination_loop i n (c # cs) =
     (let upper_bound = (case cs of [] \<Rightarrow> n | d # _ \<Rightarrow> d)
      in if c + 1 = upper_bound
         then (let (cs', r) = next_combination_loop (i + 1) n cs in (i # cs', r))
         else ((c + 1) # cs, True))"

definition next_combination :: "nat list \<Rightarrow> nat \<Rightarrow> nat list \<times> bool" where
  "next_combination combination n = next_combination_loop 0 n combination"

partial_function (option) next_combination_including ::
    "nat list \<Rightarrow> nat \<Rightarrow> nat list \<Rightarrow> (nat list \<times> bool) option" where
  "next_combination_including combination n including =
     (let (combination, r) = next_combination combination n
      in if \<not> r then Some (combination, False)
         else if \<not> contains combination including then next_combination_including combination n including
         else Some (combination, True))"

text \<open>The random start: t counts the calls of rand, mn and mx are the variables min and max.\<close>

fun random_start :: "(nat \<Rightarrow> nat) \<Rightarrow> nat \<Rightarrow> nat \<Rightarrow> nat \<Rightarrow> nat \<Rightarrow> nat list option" where
  "random_start rnd t mn mx 0 = Some []"
| "random_start rnd t mn mx (Suc k) =
     (if mx - mn = 0 then None
      else
        let c = rnd t mod (mx - mn) + mn
        in map_option ((#) c) (random_start rnd (t + 1) (c + 1) (mx + 1) k))"

partial_function (option) random_combination_including ::
    "(nat \<Rightarrow> nat) \<Rightarrow> nat \<Rightarrow> nat \<Rightarrow> nat \<Rightarrow> nat list \<Rightarrow> (nat list \<times> nat) option" where
  "random_combination_including rnd t n k including =
     (case random_start rnd t 0 (n - k) k of
        None \<Rightarrow> None
      | Some combination \<Rightarrow>
          (case next_combination_including combination n including of
             None \<Rightarrow> None
           | Some (combination, r) \<Rightarrow>
               if r then Some (combination, t + k)
               else random_combination_including rnd (t + k) n k including))"

function log_loop :: "nat \<Rightarrow> nat \<Rightarrow> nat" where
  "log_loop k i = (if k > 0 then log_loop (k div 2) (i + 1) else i)"
  by pat_completeness auto
termination by (relation "measure (\<lambda>(k, i). k)") auto

declare log_loop.simps [simp del]

definition log_u :: "nat \<Rightarrow> nat" where "log_u k = log_loop k 0"

section \<open>The mixed radix counter\<close>

fun radix :: "nat list \<Rightarrow> 'a list list \<Rightarrow> nat" where
  "radix (a # array) (ix # indices) = a + length ix * radix array indices"
| "radix _ _ = 0"

definition in_radix :: "nat list \<Rightarrow> 'a list list \<Rightarrow> bool" where
  "in_radix array indices \<longleftrightarrow> list_all2 (\<lambda>a ix. a < length ix) array indices"

definition radices :: "'a list list \<Rightarrow> nat" where
  "radices indices = prod_list (map length indices)"

lemma nextArray_spec:
  "in_radix array indices \<Longrightarrow> nextArray array indices = (array', r) \<Longrightarrow>
     in_radix array' indices \<and>
     (if r then radix array' indices = radix array indices + 1
      else radix array indices + 1 = radices indices \<and> array' = replicate (length array) 0)"
proof (induction array arbitrary: indices array' r)
  case Nil
  then show ?case by (simp add: in_radix_def radices_def)
next
  case (Cons a array)
  obtain ix ixs where ix: "indices = ix # ixs" "a < length ix" "in_radix array ixs"
    using Cons.prems(1) by (auto simp: in_radix_def list_all2_Cons1)
  obtain a' r' where n: "nextArray array ixs = (a', r')" by fastforce
  note IH = Cons.IH [OF ix(3) n]
  show ?case
  proof (cases "a + 1 = length ix")
    case True
    have m: "a + length ix * x + 1 = length ix * (x + 1)" for x using True by (simp add: algebra_simps)
    have e: "array' = 0 # a'" "r = r'" using Cons.prems(2) ix(1) n True by simp_all
    have R: "radix (a # array) indices + 1 = length ix * (radix array ixs + 1)"
      "radices indices = length ix * radices ixs" "radix array' indices = length ix * radix a' ixs"
      using m [of "radix array ixs"] ix(1) e(1) by (simp_all add: radices_def)
    have "in_radix array' indices" using IH ix e(1) by (auto simp: in_radix_def)
    then show ?thesis using IH e R by (simp only: if_split) auto
  next
    case False
    then have "array' = (a + 1) # array" "r" using Cons.prems(2) ix(1) by auto
    then show ?thesis using ix False by (simp add: in_radix_def)
  qed
qed

lemma radix_less: "in_radix array indices \<Longrightarrow> radix array indices < radices indices"
proof (induction array indices rule: radix.induct)
  case (1 a array ix indices)
  then have a: "a < length ix" "radix array indices < radices indices" by (simp_all add: in_radix_def)
  have "a + length ix * radix array indices < length ix * (radix array indices + 1)" using a(1) by simp
  also have "\<dots> \<le> length ix * radices indices" using a(2) by (intro mult_le_mono2) simp
  finally show ?case by (simp add: radices_def)
qed (auto simp: in_radix_def radices_def)

lemma radix_inj:
  "in_radix a ixs \<Longrightarrow> in_radix b ixs \<Longrightarrow> radix a ixs = radix b ixs \<Longrightarrow> a = b"
proof (induction ixs arbitrary: a b)
  case Nil
  then show ?case by (simp add: in_radix_def)
next
  case (Cons ix ixs)
  obtain x a' where a: "a = x # a'" "x < length ix" "in_radix a' ixs"
    using Cons.prems(1) by (auto simp: in_radix_def list_all2_Cons2)
  obtain y b' where b: "b = y # b'" "y < length ix" "in_radix b' ixs"
    using Cons.prems(2) by (auto simp: in_radix_def list_all2_Cons2)
  have e: "x + length ix * radix a' ixs = y + length ix * radix b' ixs" using Cons.prems(3) a(1) b(1) by simp
  have "(z + length ix * q) div length ix = q" "(z + length ix * q) mod length ix = z" if "z < length ix" for z q
  proof -
    have "length ix \<noteq> 0" using that by linarith
    then show "(z + length ix * q) div length ix = q" "(z + length ix * q) mod length ix = z"
      using that div_mult_self2 [of "length ix" z q] by simp_all
  qed
  then have "x = y" "radix a' ixs = radix b' ixs" using e a(2) b(2) by metis+
  then show ?case using Cons.IH [OF a(3) b(3)] a(1) b(1) by simp
qed

text \<open>The arrays that a loop over nextArray visits, given enough steps.\<close>

fun visited :: "nat \<Rightarrow> nat list \<Rightarrow> 'a list list \<Rightarrow> nat list list" where
  "visited 0 array indices = []"
| "visited (Suc f) array indices =
     array # (let (array', r) = nextArray array indices in if r then visited f array' indices else [])"

lemma visited_spec:
  "in_radix array indices \<Longrightarrow> f = radices indices - radix array indices \<Longrightarrow>
     map (\<lambda>a. radix a indices) (visited f array indices) = [radix array indices..<radices indices] \<and>
     (\<forall>a\<in>set (visited f array indices). in_radix a indices)"
proof (induction f arbitrary: array)
  case 0
  then show ?case using radix_less [OF 0(1)] by simp
next
  case (Suc f)
  obtain array' r where n: "nextArray array indices = (array', r)" by fastforce
  note sp = nextArray_spec [OF Suc.prems(1) n]
  have lt: "radix array indices < radices indices" using radix_less [OF Suc.prems(1)] .
  show ?case
  proof (cases r)
    case True
    then have "f = radices indices - radix array' indices" using sp Suc.prems(2) by simp
    then have "map (\<lambda>a. radix a indices) (visited f array' indices) = [radix array' indices..<radices indices] \<and>
      (\<forall>a\<in>set (visited f array' indices). in_radix a indices)" using Suc.IH sp by blast
    then show ?thesis using sp True n Suc.prems(1) lt by (simp add: upt_conv_Cons)
  next
    case False
    then have "radices indices = radix array indices + 1" using sp by simp
    then show ?thesis using False n Suc.prems(1) by (simp add: upt_rec)
  qed
qed

section \<open>Combinations\<close>

text \<open>
  A combination is a strictly increasing vector of numbers below n.  Its rank in the
  combinatorial number system is the sum of the binomials of its elements; rank_from i is the
  sum for the elements from position i on.
\<close>

fun rank_from :: "nat \<Rightarrow> nat list \<Rightarrow> nat" where
  "rank_from i [] = 0"
| "rank_from i (c # cs) = (c choose (i + 1)) + rank_from (i + 1) cs"

definition comb_from :: "nat \<Rightarrow> nat \<Rightarrow> nat list \<Rightarrow> bool" where
  "comb_from i n cs \<longleftrightarrow> sorted_wrt (<) cs \<and> (\<forall>c\<in>set cs. i \<le> c \<and> c < n)"

lemma next_combination_loop_spec:
  "comb_from i n cs \<Longrightarrow> cs \<noteq> [] \<Longrightarrow> next_combination_loop i n cs = (cs', r) \<Longrightarrow>
     length cs' = length cs \<and> comb_from i n cs' \<and>
     (if r then rank_from i cs' = rank_from i cs + (hd cs choose i)
      else rank_from i cs + (hd cs choose i) = (n choose (i + length cs)) \<and> cs' = [i..<i + length cs])"
proof (induction i n cs arbitrary: cs' r rule: next_combination_loop.induct)
  case (1 i n)
  then show ?case by simp
next
  case (2 i n c cs)
  have c: "i \<le> c" "c < n" "sorted_wrt (<) cs" "\<forall>d\<in>set cs. c < d \<and> d < n"
    using 2(2) by (auto simp: comb_from_def)
  let ?ub = "case cs of [] \<Rightarrow> n | d # _ \<Rightarrow> d"
  have lt: "c < ?ub" using c by (cases cs) auto
  show ?case
  proof (cases "c + 1 = ?ub")
    case False
    then have e: "cs' = (c + 1) # cs" "r" using 2(4) by (auto simp: Let_def)
    have "\<forall>d\<in>set cs. c + 1 < d"
    proof (cases cs)
      case (Cons d ds)
      then have "c + 1 < d" using False lt by simp
      then show ?thesis using c(3) Cons by auto
    qed simp
    moreover have "c + 1 < n" using False lt c(4) by (cases cs) auto
    ultimately have "comb_from i n cs'" using e c by (auto simp: comb_from_def)
    then show ?thesis using e by simp
  next
    case True
    obtain ds r' where n: "next_combination_loop (i + 1) n cs = (ds, r')" by fastforce
    have e: "cs' = i # ds" "r = r'" using 2(4) True n by (simp_all add: Let_def)
    show ?thesis
    proof (cases cs)
      case Nil
      then have "cs' = [i]" "\<not> r" "c + 1 = n" using e n True by auto
      then show ?thesis using Nil c(1,2) by (auto simp: comb_from_def)
    next
      case (Cons d ds')
      have cf: "comb_from (i + 1) n cs" using c by (fastforce simp: comb_from_def)
      have d: "d = c + 1" using True Cons by simp
      have h: "hd cs = c + 1" and ne: "cs \<noteq> []" using Cons d by simp_all
      note I = 2(1) [OF refl True cf ne n, unfolded h]
      have "comb_from i n cs'" using I e(1) c(1,2) by (auto simp: comb_from_def)
      moreover have "(c + 1 choose (i + 1)) = (c choose i) + (c choose (i + 1))" by simp
      moreover have "[i..<i + length (c # cs)] = i # [i + 1..<i + 1 + length cs]" by (simp add: upt_conv_Cons del: upt_Suc)
      moreover have "(i choose (i + 1)) = 0" by simp
      moreover have "n choose (i + length (c # cs)) = n choose (i + 1 + length cs)" by simp
      ultimately show ?thesis using I e by (cases r') (simp_all only: rank_from.simps list.sel list.size, simp_all)
    qed
  qed
qed

definition is_comb :: "nat \<Rightarrow> nat \<Rightarrow> nat list \<Rightarrow> bool" where
  "is_comb n k cs \<longleftrightarrow> sorted_wrt (<) cs \<and> (\<forall>c\<in>set cs. c < n) \<and> length cs = k"

definition rank :: "nat list \<Rightarrow> nat" where
  "rank cs = rank_from 0 cs"

lemma next_combination_spec:
  assumes "is_comb n k cs" "0 < k" "next_combination cs n = (cs', r)"
  shows "is_comb n k cs'" "r \<Longrightarrow> rank cs' = rank cs + 1" "\<not> r \<Longrightarrow> rank cs + 1 = (n choose k) \<and> cs' = [0..<k]"
proof -
  have "comb_from 0 n cs" "cs \<noteq> []" using assms(1,2) by (auto simp: is_comb_def comb_from_def)
  then have "length cs' = length cs \<and> comb_from 0 n cs' \<and>
     (if r then rank_from 0 cs' = rank_from 0 cs + (hd cs choose 0)
      else rank_from 0 cs + (hd cs choose 0) = (n choose (0 + length cs)) \<and> cs' = [0..<0 + length cs])"
    using next_combination_loop_spec assms(3) unfolding next_combination_def by blast
  then show "is_comb n k cs'" "r \<Longrightarrow> rank cs' = rank cs + 1" "\<not> r \<Longrightarrow> rank cs + 1 = (n choose k) \<and> cs' = [0..<k]"
    using assms(1) by (simp_all add: is_comb_def comb_from_def rank_def)
qed

lemma rank_less: "is_comb n k cs \<Longrightarrow> 0 < k \<Longrightarrow> rank cs < (n choose k)"
proof -
  have "rank_from i cs + (hd cs choose i) \<le> (n choose (i + length cs))" if "comb_from i n cs" "cs \<noteq> []" for i
    using that
  proof (induction cs arbitrary: i)
    case (Cons c cs)
    have up: "(c + 1 choose (i + 1)) = (c choose i) + (c choose (i + 1))" by simp
    show ?case
    proof (cases cs)
      case Nil
      then show ?thesis using Cons.prems(1) up binomial_right_mono [of "c + 1" n "i + 1"]
        by (simp add: comb_from_def del: binomial_Suc_Suc)
    next
      case (Cons d ds)
      have "comb_from (i + 1) n cs" "c + 1 \<le> d" using Cons.prems(1) Cons by (fastforce simp: comb_from_def)+
      then have "rank_from (i + 1) cs + (d choose (i + 1)) \<le> (n choose (i + 1 + length cs))"
        using Cons.IH [of "i + 1"] Cons by simp_all
      moreover have "(c + 1 choose (i + 1)) \<le> (d choose (i + 1))"
        using \<open>c + 1 \<le> d\<close> by (rule binomial_right_mono)
      moreover have "n choose (i + length (c # cs)) = n choose (i + 1 + length cs)" by simp
      ultimately show ?thesis using up Cons by (simp only: rank_from.simps list.sel)
    qed
  qed simp
  note b = this
  assume a: "is_comb n k cs" "0 < k"
  then have "comb_from 0 n cs" "cs \<noteq> []" by (auto simp: is_comb_def comb_from_def)
  then show ?thesis using b [of 0] a(1) by (simp add: rank_def is_comb_def)
qed

text \<open>The combinations that a loop over next_combination visits.\<close>

fun combinations :: "nat \<Rightarrow> nat list \<Rightarrow> nat \<Rightarrow> nat list list" where
  "combinations 0 cs n = []"
| "combinations (Suc f) cs n =
     cs # (let (cs', r) = next_combination cs n in if r then combinations f cs' n else [])"

lemma combinations_spec:
  "is_comb n k cs \<Longrightarrow> 0 < k \<Longrightarrow> f = (n choose k) - rank cs \<Longrightarrow>
     map rank (combinations f cs n) = [rank cs..<n choose k] \<and> (\<forall>c\<in>set (combinations f cs n). is_comb n k c)"
proof (induction f arbitrary: cs)
  case 0
  then show ?case using rank_less [OF 0(1,2)] by simp
next
  case (Suc f)
  obtain cs' r where n: "next_combination cs n = (cs', r)" by fastforce
  note sp = next_combination_spec [OF Suc.prems(1,2) n]
  have lt: "rank cs < (n choose k)" using rank_less [OF Suc.prems(1,2)] .
  show ?case
  proof (cases r)
    case True
    then have "f = (n choose k) - rank cs'" using sp(2) Suc.prems(3) by simp
    then have "map rank (combinations f cs' n) = [rank cs'..<n choose k] \<and> (\<forall>c\<in>set (combinations f cs' n). is_comb n k c)"
      using Suc.IH [OF sp(1) Suc.prems(2)] by blast
    then show ?thesis using sp(2) [OF True] True n Suc.prems(1) lt by (simp add: upt_conv_Cons)
  next
    case False
    then have "(n choose k) = rank cs + 1" using sp(3) by simp
    then show ?thesis using False n Suc.prems(1) by (simp add: upt_rec)
  qed
qed

lemma rank_from_init: "rank_from i [i..<i + k] = 0"
proof (induction k arbitrary: i)
  case (Suc k)
  have "[i..<i + Suc k] = i # [Suc i..<Suc i + k]" by (simp add: upt_conv_Cons del: upt_Suc)
  then show ?case using Suc [of "Suc i"] by (simp del: upt_Suc)
qed simp

lemma is_comb_init: "k \<le> n \<Longrightarrow> is_comb n k [0..<k]"
  by (simp add: is_comb_def)

lemma combs_card: "k \<le> n \<Longrightarrow> card {S. S \<subseteq> {0..<n} \<and> card S = k} = (n choose k)"
  by (simp add: n_subsets)

text \<open>
  The enumeration visits every subset of size k once: it visits as many different increasing
  vectors as there are subsets.
\<close>

lemma combinations_sets:
  assumes "k \<le> n" "0 < k"
  shows "set (map set (combinations (n choose k) [0..<k] n)) = {S. S \<subseteq> {0..<n} \<and> card S = k} \<and>
    distinct (combinations (n choose k) [0..<k] n)"
proof -
  let ?cs = "combinations (n choose k) [0..<k] n"
  have r0: "rank [0..<k] = 0" using rank_from_init [of 0 k] by (simp add: rank_def)
  have sp: "map rank ?cs = [0..<n choose k]" "\<forall>c\<in>set ?cs. is_comb n k c"
    using combinations_spec [OF is_comb_init [OF assms(1)] assms(2), of "n choose k"] r0 by simp_all
  have "distinct (map rank ?cs)" unfolding sp(1) by simp
  then have d: "distinct ?cs" using distinct_map by blast
  have "c = c'" if "c \<in> set ?cs" "c' \<in> set ?cs" "set c = set c'" for c c'
    using that sp(2) by (auto simp: is_comb_def strict_sorted_equal)
  then have i: "inj_on set (set ?cs)" by (auto simp: inj_on_def)
  have sub: "set ` set ?cs \<subseteq> {S. S \<subseteq> {0..<n} \<and> card S = k}"
    using sp(2) by (auto simp: is_comb_def distinct_card strict_sorted_iff)
  have "length ?cs = (n choose k)" using sp(1) by (metis length_map length_upt minus_nat.diff_0)
  then have "card (set ` set ?cs) = (n choose k)" using card_image [OF i] distinct_card [OF d] by simp
  then have "set ` set ?cs = {S. S \<subseteq> {0..<n} \<and> card S = k}"
    using sub combs_card [OF assms(1)] by (intro card_subset_eq) auto
  then show ?thesis using d by simp
qed

section \<open>Bags that meet a given set\<close>

lemma contains_loop_spec:
  assumes "sorted including" "sorted cs" "i \<le> length including" "\<forall>c\<in>set cs. \<forall>j<i. including ! j < c"
  shows "contains_loop cs including i \<longleftrightarrow> set cs \<inter> set including \<noteq> {}"
  using assms(2-)
proof (induction cs arbitrary: i)
  case Nil
  then show ?case by simp
next
  case (Cons c cs)
  let ?i = "skip_to including i c"
  have sk: "?i \<le> length including" "\<forall>j<?i. including ! j < c" "(?i < length including \<and> including ! ?i = c) = (c \<in> set including)"
    using skip_to_spec [OF assms(1) Cons.prems(2), of c] Cons.prems(3) by simp_all
  have "\<forall>d\<in>set cs. \<forall>j<?i. including ! j < d" using sk(2) Cons.prems(1) by (auto intro: less_le_trans)
  then have "contains_loop cs including ?i \<longleftrightarrow> set cs \<inter> set including \<noteq> {}"
    using Cons.IH Cons.prems(1) sk(1) by simp
  then show ?case using sk(3) by (auto simp: Let_def)
qed

lemma contains_spec: "sorted including \<Longrightarrow> sorted cs \<Longrightarrow> contains cs including \<longleftrightarrow> set cs \<inter> set including \<noteq> {}"
  using contains_loop_spec [of "including" cs 0] by (simp add: contains_def)

lemma next_including_spec:
  assumes "sorted including" "0 < k"
  shows "is_comb n k cs \<Longrightarrow> \<exists>cs' r. next_combination_including cs n including = Some (cs', r) \<and> is_comb n k cs' \<and>
     (r \<longrightarrow> rank cs < rank cs' \<and> set cs' \<inter> set including \<noteq> {})"
proof (induction "(n choose k) - rank cs" arbitrary: cs rule: less_induct)
  case less
  obtain c r where n: "next_combination cs n = (c, r)" by fastforce
  note sp = next_combination_spec [OF less.prems assms(2) n]
  have so: "sorted c" using sp(1) by (auto simp: is_comb_def intro: strict_sorted_imp_sorted)
  show ?case
  proof (cases "r \<and> \<not> contains c including")
    case True
    then have "(n choose k) - rank c < (n choose k) - rank cs" using sp(2) rank_less [OF sp(1) assms(2)] by simp
    then obtain cs' r' where c': "next_combination_including c n including = Some (cs', r')" "is_comb n k cs'"
      "r' \<longrightarrow> rank c < rank cs' \<and> set cs' \<inter> set including \<noteq> {}"
      using less.hyps [OF _ sp(1)] by blast
    then show ?thesis using True n sp(2) by (subst next_combination_including.simps) auto
  next
    case False
    then show ?thesis using n sp contains_spec [OF assms(1) so]
      by (subst next_combination_including.simps) auto
  qed
qed

section \<open>The number of combinations\<close>

definition falling :: "nat \<Rightarrow> nat \<Rightarrow> nat" where
  "falling n i = (\<Prod>j<i. n - j)"

lemma falling_Suc: "falling n (Suc i) = falling n i * (n - i)"
  by (simp add: falling_def)

lemma falling_loop_spec:
  "k \<le> n \<Longrightarrow> i \<le> k \<Longrightarrow> n < 2 ^ 32 \<Longrightarrow> (i = 0 \<or> falling n i \<le> UINT64_MAX div (n - i + 1)) \<Longrightarrow>
     falling_loop n k i (falling n i) = Some (Inl UINT64_MAX) \<or>
     falling_loop n k i (falling n i) = Some (Inr (falling n k))"
proof (induction "k - i" arbitrary: i)
  case 0
  then have "i = k" by simp
  then show ?case by (subst falling_loop.simps) simp
next
  case (Suc x)
  then have i: "i < k" "x = k - Suc i" "n - i \<noteq> 0" by auto
  have "falling n i * (n - i) < 2 ^ 64"
  proof (cases "i = 0")
    case True
    then show ?thesis using Suc.prems(3) by (simp add: falling_def)
  next
    case False
    then have "falling n i * (n - i + 1) \<le> UINT64_MAX" using Suc.prems(4) by (simp add: less_eq_div_iff_mult_less_eq)
    then have "falling n i * (n - i) \<le> UINT64_MAX" by (metis add.commute add_leD2 distrib_left)
    then show ?thesis by (simp add: UINT64_MAX_def)
  qed
  then have m: "falling n i * (n - i) mod 2 ^ 64 = falling n (Suc i)" by (simp add: falling_Suc)
  show ?case
  proof (cases "UINT64_MAX div (n - i) < falling n (Suc i)")
    case True
    then show ?thesis using i m by (subst falling_loop.simps) (simp add: Let_def)
  next
    case False
    have e: "n - Suc i + 1 = n - i" using i by simp
    have "falling_loop n k i (falling n i) = falling_loop n k (Suc i) (falling n (Suc i))"
      using False i m by (subst falling_loop.simps) (simp add: Let_def)
    then show ?thesis using Suc.hyps(1) [OF i(2)] Suc.prems i False e by simp
  qed
qed

lemma divide_loop_spec: "2 \<le> i \<Longrightarrow> divide_loop k i (x div fact (i - 1)) = x div fact (max k (i - 1))"
proof (induction "Suc k - i" arbitrary: i)
  case 0
  then have "max k (i - 1) = i - 1" "\<not> i \<le> k" by linarith+
  then show ?case by (subst divide_loop.simps) simp
next
  case (Suc d)
  then have i: "i \<le> k" "d = Suc k - Suc i" by auto
  have "fact i = i * (fact (i - 1) :: nat)" using Suc.prems by (simp add: fact_reduce)
  then have "x div fact (i - 1) div i = x div fact (Suc i - 1)" by (metis diff_Suc_1 div_mult2_eq mult.commute)
  then have "divide_loop k i (x div fact (i - 1)) = divide_loop k (Suc i) (x div fact (Suc i - 1))"
    using i by (subst divide_loop.simps) simp
  moreover have "max k (Suc i - 1) = k" "max k (i - 1) = k" using i(1) by linarith+
  ultimately show ?case using Suc.hyps(1) [OF i(2)] Suc.prems by simp
qed

lemma falling_fact: "k \<le> n \<Longrightarrow> falling n k = (n choose k) * fact k"
proof (induction k)
  case 0
  then show ?case by (simp add: falling_def)
next
  case (Suc k)
  have "(n - k) * (n choose k) = Suc k * (n choose Suc k)" by (simp only: binomial_absorb_comp binomial_absorption)
  then have "(n choose k) * fact k * (n - k) = (n choose Suc k) * fact (Suc k)" by (simp add: algebra_simps)
  then show ?case using Suc by (simp add: falling_Suc)
qed

section \<open>Properties\<close>

text \<open>
  The loop over nextArray visits every combination of values once.  Starting from zeros it
  visits, in increasing mixed radix order, exactly as many valid arrays as there are, none twice,
  and then stops.
\<close>

theorem nextArray_enumerates:
  assumes "\<forall>ix\<in>set indices. ix \<noteq> []" and "as = visited (radices indices) (replicate (length indices) 0) indices"
  shows "distinct as \<and> set as = {a. in_radix a indices} \<and> length as = radices indices"
proof -
  let ?z = "replicate (length indices) 0"
  have z: "in_radix ?z indices" using assms(1) by (simp add: in_radix_def list_all2_conv_all_nth)
  have r0: "radix ?z indices = 0"
  proof -
    have "radix (replicate (length ixs) 0) ixs = 0" for ixs :: "'a list list" by (induction ixs) auto
    then show ?thesis .
  qed
  have v: "map (\<lambda>a. radix a indices) as = [0..<radices indices]" "\<forall>a\<in>set as. in_radix a indices"
    using visited_spec [OF z, of "radices indices"] r0 assms(2) by simp_all
  have "distinct (map (\<lambda>a. radix a indices) as)" unfolding v(1) by simp
  then have "distinct as" using distinct_map by blast
  moreover have "a \<in> set as" if "in_radix a indices" for a
  proof -
    have "radix a indices \<in> set (map (\<lambda>a. radix a indices) as)" using radix_less [OF that] unfolding v(1) by simp
    then obtain b where "b \<in> set as" "radix b indices = radix a indices" by auto
    then show ?thesis using radix_inj [OF _ that] v(2) by blast
  qed
  moreover have "length as = radices indices" using v(1) by (metis length_map length_upt minus_nat.diff_0)
  ultimately show ?thesis using v(2) by auto
qed

theorem nextArray_enumerates_witness:
  "let indices = [[0, 1], [0, 1, 2]] :: nat list list; as = visited (radices indices) (replicate (length indices) 0) indices in
   distinct as \<and> set as = {a. in_radix a indices} \<and> length as = radices indices"
  unfolding Let_def by (rule nextArray_enumerates [OF _ refl]) simp



text \<open>
  The search for the next bag that meets the set including ends: next_combination_including
  returns, with a bag of the same size; when it says so the bag is further in the enumeration and
  meets the set.
\<close>

theorem next_combination_including_ends:
  assumes "sorted including" "0 < k" "is_comb n k cs"
  shows "\<exists>cs' r. next_combination_including cs n including = Some (cs', r) \<and> is_comb n k cs' \<and>
       (r \<longrightarrow> rank cs < rank cs' \<and> contains cs' including \<and> set cs' \<inter> set including \<noteq> {})"
proof -
  obtain cs' r where r: "next_combination_including cs n including = Some (cs', r)" "is_comb n k cs'"
    "r \<longrightarrow> rank cs < rank cs' \<and> set cs' \<inter> set including \<noteq> {}"
    using next_including_spec [OF assms] by blast
  have "sorted cs'" using r(2) by (simp add: is_comb_def strict_sorted_imp_sorted)
  then show ?thesis using r contains_spec [OF assms(1)] by blast
qed

theorem next_combination_including_ends_witness:
  "\<exists>cs' r. next_combination_including [0, 1] 5 [3, 4] = Some (cs', r) \<and> is_comb 5 2 cs'"
  using next_combination_including_ends [of "[3, 4]" 2 5 "[0, 1]"] by (auto simp: is_comb_def)

text \<open>
  The number of combinations is never computed with a wrapped product: for 32 bit arguments
  k at most n, get_number_of_combinations returns the binomial coefficient or the largest 64 bit
  number.  For k above n it divides by zero.
\<close>

theorem get_number_of_combinations_correct:
  assumes "k \<le> n" "n < 2 ^ 32"
  shows "get_number_of_combinations n k = Some (n choose k) \<or> get_number_of_combinations n k = Some UINT64_MAX"
proof -
  have "falling_loop n k 0 (falling n 0) = Some (Inl UINT64_MAX) \<or> falling_loop n k 0 (falling n 0) = Some (Inr (falling n k))"
    by (rule falling_loop_spec) (use assms in simp_all)
  moreover have "falling n 0 = 1" by (simp add: falling_def)
  moreover have "divide_loop k 2 (falling n k) = (n choose k)"
  proof -
    have "divide_loop k 2 (falling n k) = falling n k div fact (max k 1)"
      using divide_loop_spec [of 2 k "falling n k"] by simp
    moreover have "fact (max k 1) = (fact k :: nat)" by (cases k) (simp_all add: max_def)
    ultimately show ?thesis using falling_fact [OF assms(1)] by simp
  qed
  ultimately show ?thesis by (auto simp: get_number_of_combinations_def)
qed

theorem get_number_of_combinations_correct_witness:
  "get_number_of_combinations 81 3 = Some (81 choose 3) \<or> get_number_of_combinations 81 3 = Some UINT64_MAX"
  by (rule get_number_of_combinations_correct) simp_all

lemma log_loop_spec: "k < 2 ^ m \<Longrightarrow> (m = 0 \<or> 2 ^ (m - 1) \<le> k) \<Longrightarrow> log_loop k i = i + m"
proof (induction m arbitrary: k i)
  case 0
  then show ?case by (subst log_loop.simps) simp
next
  case (Suc m)
  then have "0 < k" by (metis diff_Suc_1 gr0I less_numeral_extra(3) nat.distinct(1) not_le zero_less_numeral zero_less_power)
  moreover have "k div 2 < 2 ^ m" using Suc.prems(1) by simp
  moreover have "m = 0 \<or> 2 ^ (m - 1) \<le> k div 2"
  proof (cases m)
    case (Suc j)
    then have "2 * 2 ^ j \<le> k" using Suc.prems(2) by simp
    then have "2 ^ j \<le> k div 2" by linarith
    then show ?thesis using Suc by simp
  qed simp
  ultimately show ?case using Suc.IH [of "k div 2" "i + 1"] by (subst log_loop.simps) simp
qed

lemma log_u_bits: "2 ^ m \<le> k \<Longrightarrow> k < 2 ^ Suc m \<Longrightarrow> log_u k = Suc m"
  unfolding log_u_def by (subst log_loop_spec [of k "Suc m"]) simp_all

end
