(* ===== verification/Ls_Search.thy ===== *)
theory Ls_Search
  imports Ls_Solver Ls_Comb "HOL-Library.List_Lexorder"
begin

text \<open>
  The local search itself, src/localsearch/solver/HillClimbingSolver.cpp: the constructor with the
  unit propagation reduce, the two predicates that filter bags of metavariables and their values,
  and the rounds of solve.  The results of rand are a function of the number of the call; the
  shuffle of the candidates and the choice among the hits of the threads are parameters.
  Accesses out of range are left as open as in C++.
\<close>

section \<open>The formula\<close>

record CNF =
  cnf_clauses :: "Clause list"
  literalCount :: nat
  metaVars :: "MetaVariable list"
  coreVariables :: "Literal list"
  cnf_net :: Net
  cnf_weights :: "32 word list"
  toCompute :: "nat list"

text \<open>The constructor of CNF takes its arguments over and finalizes the net.\<close>

definition CNF_new :: "Clause list \<Rightarrow> nat \<Rightarrow> Literal list \<Rightarrow> MetaVariable list \<Rightarrow> Net \<Rightarrow> 32 word list \<Rightarrow> nat list \<Rightarrow> CNF option" where
  "CNF_new cs n core mvs net ws tc =
     map_option (\<lambda>net. \<lparr>cnf_clauses = cs, literalCount = n, metaVars = mvs, coreVariables = core, cnf_net = net,
       cnf_weights = ws, toCompute = tc\<rparr>) (Net_finalize net)"

section \<open>Unit propagation\<close>

text \<open>std::map in the order of its keys.\<close>

fun put :: "nat \<Rightarrow> nat \<Rightarrow> (nat \<times> nat) list \<Rightarrow> (nat \<times> nat) list" where
  "put k v [] = [(k, v)]"
| "put k v ((k', v') # m) =
     (if k < k' then (k, v) # (k', v') # m else if k = k' then (k, v) # m else (k', v') # put k v m)"

fun erase_var :: "nat \<Rightarrow> Literal list \<Rightarrow> Literal list" where
  "erase_var v [] = []"
| "erase_var v (l # ls) = (if number l = v then ls else l # erase_var v ls)"

definition restrict_meta :: "Literal \<Rightarrow> MetaVariable \<Rightarrow> MetaVariable" where
  "restrict_meta l mv =
     (let kept = filter (\<lambda>(vars, val). list_ex (\<lambda>var. number var = number l \<and> valu var = valu l) vars)
                   (zip (mv_variables mv) (mv_values mv))
      in mv\<lparr>mv_variables := map fst kept, mv_values := map snd kept\<rparr>)"

text \<open>The variables assigned so far, the clauses to delete with a literal that satisfies them, and changed.\<close>

type_synonym reduction = "Solver \<times> nat list \<times> (nat \<times> nat) list \<times> bool"

definition reduce_unit :: "Literal \<Rightarrow> reduction \<Rightarrow> reduction" where
  "reduce_unit l = (\<lambda>(s, cache, toDelete, changed).
     let s = s\<lparr>propagated := (propagated s)[number l := of_bool (valu l)]\<rparr>;
         s = (case literal_to_meta_variable s ! number l of
                None \<Rightarrow> s
              | Some m \<Rightarrow> s\<lparr>metaVariables := (metaVariables s)[m := restrict_meta l (metaVariables s ! m)]\<rparr>);
         to_sat = (if valu l then lc_pos s ! number l else lc_neg s ! number l);
         to_sub = (if valu l then lc_neg s ! number l else lc_pos s ! number l)
     in (s\<lparr>clauses := fold (\<lambda>i cs. cs[i := (cs ! i)\<lparr>literals := erase_var (number l) (literals (cs ! i))\<rparr>]) to_sub (clauses s)\<rparr>,
         cache @ [number l],
         fold (\<lambda>i. put i (number l)) to_sat toDelete,
         changed \<or> to_sub \<noteq> []))"

definition reduce_clause :: "nat \<Rightarrow> reduction \<Rightarrow> reduction" where
  "reduce_clause ci r =
     (let ls = literals (clauses (fst r) ! ci)
      in if length ls = 1 \<and> number (hd ls) \<notin> set (fst (snd r)) then reduce_unit (hd ls) r else r)"

definition reduce_round :: "reduction \<Rightarrow> reduction" where
  "reduce_round = (\<lambda>(s, cache, toDelete, changed).
     fold reduce_clause [0..<length (clauses s)] (s, cache, toDelete, False))"

partial_function (option) reduce_loop :: "reduction \<Rightarrow> reduction option" where
  "reduce_loop r = (if snd (snd (snd r)) then reduce_loop (reduce_round r) else Some r)"

definition unlist :: "nat \<Rightarrow> Literal \<Rightarrow> Solver \<Rightarrow> Solver" where
  "unlist ci l s =
     (if valu l
      then s\<lparr>literal_to_clause_with_positive_value := (lc_pos s)[number l := remove1 ci (lc_pos s ! number l)]\<rparr>
      else s\<lparr>literal_to_clause_with_negative_value := (lc_neg s)[number l := remove1 ci (lc_neg s ! number l)]\<rparr>)"

text \<open>A deleted clause keeps the last of its literals of the given variable.\<close>

definition delete_clause :: "nat \<times> nat \<Rightarrow> Solver \<Rightarrow> Solver" where
  "delete_clause = (\<lambda>(ci, v) s.
     let ls = literals (clauses s ! ci);
         s = fold (unlist ci) ls s
     in s\<lparr>clauses := (clauses s)[ci := (clauses s ! ci)\<lparr>literals := [last (filter (\<lambda>l. number l = v) ls)]\<rparr>]\<rparr>)"

definition clear_var :: "nat \<Rightarrow> Solver \<Rightarrow> Solver" where
  "clear_var v s = s\<lparr>literal_to_clause_with_negative_value := (lc_neg s)[v := []],
     literal_to_clause_with_positive_value := (lc_pos s)[v := []]\<rparr>"

definition reduce :: "Solver \<Rightarrow> Solver option" where
  "reduce s =
     map_option (\<lambda>(s, cache, toDelete, changed). fold clear_var cache (fold delete_clause toDelete s))
       (reduce_loop (s, [], [], True))"

section \<open>The constructor\<close>

definition upd2 :: "nat \<Rightarrow> nat \<Rightarrow> ('a \<Rightarrow> 'a) \<Rightarrow> 'a list list \<Rightarrow> 'a list list" where
  "upd2 i j f m = m[i := (m ! i)[j := f (m ! i ! j)]]"

definition upd3 :: "nat \<Rightarrow> nat \<Rightarrow> nat \<Rightarrow> ('a \<Rightarrow> 'a) \<Rightarrow> 'a list list list \<Rightarrow> 'a list list list" where
  "upd3 k i j f m = m[k := upd2 i j f (m ! k)]"

definition list_literal :: "nat \<Rightarrow> Literal \<Rightarrow> Solver \<Rightarrow> Solver" where
  "list_literal i l s =
     (if valu l
      then s\<lparr>literal_to_clause_with_positive_value := (lc_pos s)[number l := lc_pos s ! number l @ [i]]\<rparr>
      else s\<lparr>literal_to_clause_with_negative_value := (lc_neg s)[number l := lc_neg s ! number l @ [i]]\<rparr>)"

definition list_clause :: "nat list \<Rightarrow> nat \<Rightarrow> Solver \<Rightarrow> Solver" where
  "list_clause tc i s =
     (let s = s\<lparr>sum_weights := sum_weights s + weights s ! i\<rparr>
      in if i \<notin> set tc then s else fold (list_literal i) (literals (clauses s ! i)) s)"

definition place_meta :: "nat \<times> MetaVariable \<Rightarrow> Solver \<Rightarrow> Solver" where
  "place_meta = (\<lambda>(i, mv) s.
     let m = matrixIndex mv; r = rowIndex mv; c = columnIndex mv;
         (st, vs) = (structuredMetaVariables s, metaValues s);
         (st, vs) = (if length vs \<le> m then (resize [] (m + 1) st, resize [] (m + 1) vs) else (st, vs));
         (st, vs) = (if length (vs ! m) \<le> r then (st[m := resize [] (r + 1) (st ! m)], vs[m := resize [] (r + 1) (vs ! m)]) else (st, vs));
         (st, vs) = (if length (vs ! m ! r) \<le> c
           then (upd2 m r (resize None (c + 1)) st, upd2 m r (resize 0 (c + 1)) vs) else (st, vs))
     in s\<lparr>structuredMetaVariables := st, metaValues := vs,
          literal_to_meta_variable :=
            fold (\<lambda>l t. t[number l := Some i]) (mv_variables mv ! 0) (literal_to_meta_variable s)\<rparr>)"

definition first_row :: "nat \<Rightarrow> nat list list list \<Rightarrow> nat list list list" where
  "first_row k mvs =
     (let mvs = upd2 k 0 (resize 0 (length (mvs ! k ! 1))) mvs;
          mvs = fold (\<lambda>i. upd3 k i 0 (\<lambda>_. i + 1)) [0..<length (mvs ! k)] mvs
      in if k = 0 then fold (\<lambda>i. upd3 k 0 i (\<lambda>_. i + 1)) [0..<length (mvs ! k ! 0)] mvs else mvs)"

text \<open>A random value for each metavariable; None when it has none left (a division by zero).\<close>

definition assign_literal :: "Literal \<Rightarrow> nat list \<Rightarrow> nat list" where
  "assign_literal l u = u[number l := of_bool (valu l)]"

fun choose_metas :: "(nat \<Rightarrow> nat) \<Rightarrow> (nat \<times> MetaVariable) list \<Rightarrow> Solver \<Rightarrow> Solver option" where
  "choose_metas rnd [] s = Some s"
| "choose_metas rnd ((i, mv) # mvs) s =
     (if mv_variables mv = [] then None
      else
        let meta = rnd i mod length (mv_variables mv)
        in choose_metas rnd mvs
             (s\<lparr>metaValues := upd3 (matrixIndex mv) (rowIndex mv) (columnIndex mv) (\<lambda>_. mv_values mv ! meta) (metaValues s),
                structuredMetaVariables :=
                  upd3 (matrixIndex mv) (rowIndex mv) (columnIndex mv) (\<lambda>_. Some i) (structuredMetaVariables s),
                propagated := fold assign_literal (mv_variables mv ! meta) (propagated s)\<rparr>))"

fun value_of :: "nat \<Rightarrow> Literal list list \<Rightarrow> nat list \<Rightarrow> nat option" where
  "value_of i [] vals = None"
| "value_of i (vars # varss) vals =
     (if list_ex (\<lambda>l. number l = i \<and> valu l) vars then Some (hd vals) else value_of i varss (tl vals))"

definition take_first :: "nat list \<Rightarrow> nat \<Rightarrow> Solver \<Rightarrow> Solver" where
  "take_first first i s =
     (let s = s\<lparr>propagated := (propagated s)[i := first ! i]\<rparr>
      in case literal_to_meta_variable s ! i of
           None \<Rightarrow> s
         | Some m \<Rightarrow>
             if first ! i = 0 then s
             else
               let mv = metaVariables s ! m
               in (case value_of i (mv_variables mv) (mv_values mv) of
                     None \<Rightarrow> s
                   | Some val \<Rightarrow> s\<lparr>metaValues := upd3 (matrixIndex mv) (rowIndex mv) (columnIndex mv) (\<lambda>_. val) (metaValues s)\<rparr>))"

definition count_clause :: "nat list \<Rightarrow> nat \<Rightarrow> Solver \<Rightarrow> Solver" where
  "count_clause tc i s =
     (let (c, count) = Clause_propagateSat (propagated s) (clauses s ! i);
          s = s\<lparr>clauses := (clauses s)[i := c], clauses_count_satisfied := (clauses_count_satisfied s)[i := of_nat count]\<rparr>
      in if count > 0 \<or> i \<notin> set tc
         then s\<lparr>sat := (sat s)[i := True], satisfiedSum := satisfiedSum s + weights s ! i, satisfiedCount := satisfiedCount s + 1\<rparr>
         else s\<lparr>literal_to_unsat := bump 1 c (literal_to_unsat s)\<rparr>)"

definition Solver_init :: "CNF \<Rightarrow> Solver" where
  "Solver_init cnf =
     (let n = literalCount cnf + 1; cs = cnf_clauses cnf
      in \<lparr>clauses = cs, propagated = replicate n 2, sat = replicate (length cs) False, metaVariables = metaVars cnf,
          structuredMetaVariables = [], metaValues = [], literal_to_meta_variable = replicate n None,
          literal_to_unsat = replicate n 0, weights = cnf_weights cnf, solver_net = cnf_net cnf,
          clauses_count_satisfied = replicate (length cs) 0, literal_to_clause_with_positive_value = replicate n [],
          literal_to_clause_with_negative_value = replicate n [], sum_weights = 0, satisfiedSum = 0, satisfiedCount = 0,
          coreSize = length (coreVariables cnf)\<rparr>)"

definition load :: "CNF \<Rightarrow> Solver" where
  "load cnf =
     (let s = Solver_init cnf;
          s = fold (list_clause (toCompute cnf)) [0..<length (clauses s)] s
      in fold place_meta (List.enumerate 0 (metaVariables s)) s)"

definition HillClimbingSolver :: "(nat \<Rightarrow> nat) \<Rightarrow> CNF \<Rightarrow> nat list \<Rightarrow> Solver option" where
  "HillClimbingSolver rnd cnf first =
     (case reduce (load cnf) of
           None \<Rightarrow> None
         | Some s \<Rightarrow>
             let s = s\<lparr>metaValues := fold first_row [0..<length (metaValues s)] (metaValues s)\<rparr>
             in case choose_metas rnd (List.enumerate 0 (metaVariables s)) s of
                  None \<Rightarrow> None
                | Some s \<Rightarrow>
                    let s = (if first \<noteq> [] then fold (take_first first) [1..<coreSize s + 1] s else s);
                        s = s\<lparr>propagated := Net_compute (finalized (solver_net s)) (propagated s)\<rparr>
                    in Some (fold (count_clause (toCompute cnf)) [0..<length (clauses s)] s))"

section \<open>The predicate for bags\<close>

text \<open>Two positions of the matrices interact: the same row or column of one, the same cell of two.\<close>

definition interacts :: "MetaVariable \<Rightarrow> nat \<times> nat \<times> nat \<Rightarrow> bool" where
  "interacts mv = (\<lambda>(m, r, c).
     if matrixIndex mv = m then rowIndex mv = r \<or> columnIndex mv = c else rowIndex mv = r \<and> columnIndex mv = c)"

fun first_found :: "MetaVariable \<Rightarrow> (nat \<times> nat \<times> nat) list \<Rightarrow> nat \<Rightarrow> nat option" where
  "first_found mv [] k = None"
| "first_found mv (f # found) k = (if interacts mv f then Some k else first_found mv found (k + 1))"

fun mark_found :: "MetaVariable list \<Rightarrow> nat list \<Rightarrow> nat \<Rightarrow> (nat \<times> nat \<times> nat) list \<Rightarrow> bool list \<Rightarrow> bool list" where
  "mark_found mvs [] j found flags = flags"
| "mark_found mvs (i # is) j found flags =
     (let mv = mvs ! i;
          flags = (case first_found mv found 0 of None \<Rightarrow> flags | Some k \<Rightarrow> flags[j := True, k := True])
      in mark_found mvs is (j + 1) (found @ [(matrixIndex mv, rowIndex mv, columnIndex mv)]) flags)"

definition satisfyPredicateForMetavars :: "Solver \<Rightarrow> nat list \<Rightarrow> bool" where
  "satisfyPredicateForMetavars s indices =
     (if list_ex (\<lambda>i. length (mv_variables (metaVariables s ! i)) \<le> 1) indices then False
      else if length indices = 1 then True
      else list_all (\<lambda>b. b) (mark_found (metaVariables s) indices 0 [] (replicate (length indices) False)))"

section \<open>The predicate for values\<close>

text \<open>
  Eight bit arithmetic: i8 the value of an int8_t, dec a value of uint8_t minus one.  The vectors
  changedRows and valuesRows of one matrix, which grow together, are one list of pairs.
\<close>

definition i8 :: "int \<Rightarrow> int" where "i8 x = (x + 128) mod 256 - 128"

definition dec :: "nat \<Rightarrow> nat" where "dec x = (x + 255) mod 256"

fun line_delta :: "nat \<Rightarrow> nat \<Rightarrow> nat \<Rightarrow> nat \<Rightarrow> (nat \<times> int list) list \<Rightarrow> (nat \<times> int list) list" where
  "line_delta n pos new old [] =
     (let d = replicate n 0; d = d[new - 1 := i8 (d ! (new - 1) + 1)]; d = d[old - 1 := i8 (d ! (old - 1) - 1)]
      in [(pos, d)])"
| "line_delta n pos new old ((p, d) # ds) =
     (if p = pos
      then (let d = d[new - 1 := i8 (d ! (new - 1) + 1)]; d = d[old - 1 := i8 (d ! (old - 1) - 1)] in (p, d) # ds)
      else (p, d) # line_delta n pos new old ds)"

text \<open>One cell of the table of pairs loses a pair and another gains one.\<close>

definition pair_delta :: "nat list list \<Rightarrow> nat \<Rightarrow> nat \<Rightarrow> nat \<Rightarrow> int list list \<times> int \<Rightarrow> int list list \<times> int" where
  "pair_delta pairsIndex idx old new = (\<lambda>(delta, sum).
     let delta = upd2 idx old (\<lambda>x. i8 (x - 1)) delta;
         sum = (if delta ! idx ! old + int (pairsIndex ! idx ! old) = 0 then sum + 1 else sum);
         delta = upd2 idx new (\<lambda>x. i8 (x + 1)) delta
     in (delta, if delta ! idx ! new + int (pairsIndex ! idx ! new) = 1 then sum - 1 else sum))"

definition meta_pairs :: "nat list list list \<Rightarrow> nat list list \<Rightarrow> MetaVariable \<Rightarrow> nat \<Rightarrow> int list list \<times> int \<Rightarrow> int list list \<times> int" where
  "meta_pairs vs pairsIndex mv new =
     fold (\<lambda>(k1, k2) st.
         let n = length (vs ! 0); r = rowIndex mv; c = columnIndex mv
         in if k1 = matrixIndex mv
            then pair_delta pairsIndex (k1 + k2 - 1) (dec (vs ! k1 ! r ! c) * n + dec (vs ! k2 ! r ! c))
                   (dec new * n + dec (vs ! k2 ! r ! c)) st
            else if k2 = matrixIndex mv
            then pair_delta pairsIndex (k1 + k2 - 1) (dec (vs ! k1 ! r ! c) * n + dec (vs ! k2 ! r ! c))
                   (dec (vs ! k1 ! r ! c) * n + dec new) st
            else st)
       (concat (map (\<lambda>k1. map (Pair k1) [k1 + 1..<length vs]) [0..<length vs]))"

text \<open>The change of the penalty of a line: repeated values, and values that are missing.\<close>

definition line_sum :: "nat list \<Rightarrow> int list \<Rightarrow> int" where
  "line_sum prev delta =
     (\<Sum>(p, d)\<leftarrow>zip (map int prev) delta.
        if d = 0 then 0
        else ((p + d) * (p + d - 1) div 2 - p * (p - 1) div 2) + (of_bool (p + d = 0) - of_bool (p = 0)))"

definition satisfyPredicateForDomain ::
    "Solver \<Rightarrow> nat list \<Rightarrow> nat list \<Rightarrow> nat list list list \<Rightarrow> nat list list list \<Rightarrow> nat list list \<Rightarrow> bool" where
  "satisfyPredicateForDomain s mvis vis rowsDistinct columnsDistinct pairsIndex =
     (let vs = metaValues s; n = length (vs ! 0);
          step = (\<lambda>(i, vi) (rows, cols, st).
            let mv = metaVariables s ! i; m = matrixIndex mv; new = mv_values mv ! vi;
                old = vs ! m ! rowIndex mv ! columnIndex mv
            in (rows[m := line_delta n (rowIndex mv) new old (rows ! m)],
                cols[m := line_delta n (columnIndex mv) new old (cols ! m)],
                meta_pairs vs pairsIndex mv new st));
          (rows, cols, delta, sum) =
            fold step (zip mvis vis)
              (replicate (length vs) [], replicate (length vs) [],
               replicate (length pairsIndex) (replicate (n * n) 0), 0);
          sum = sum +
            (\<Sum>k\<leftarrow>[0..<length vs].
               (\<Sum>(row, d)\<leftarrow>rows ! k. line_sum (rowsDistinct ! k ! row) d) +
               (\<Sum>(col, d)\<leftarrow>cols ! k. line_sum (columnsDistinct ! k ! col) d))
      in sum \<le> 0)"

section \<open>The tables of a round\<close>

definition inc8 :: "nat \<Rightarrow> nat" where "inc8 x = (x + 1) mod 256"

definition cells :: "nat \<Rightarrow> (nat \<times> nat) list" where
  "cells n = concat (map (\<lambda>i. map (Pair i) [0..<n]) [0..<n])"

definition rowsDistinct :: "nat list list list \<Rightarrow> nat list list list" where
  "rowsDistinct vs =
     fold (\<lambda>k. fold (\<lambda>(i, j). upd3 k i (vs ! k ! i ! j - 1) inc8) (cells (length (vs ! k)))) [0..<length vs]
       (replicate (length vs) (replicate (length (vs ! 0)) (replicate (length (vs ! 0)) 0)))"

definition columnsDistinct :: "nat list list list \<Rightarrow> nat list list list" where
  "columnsDistinct vs =
     fold (\<lambda>k. fold (\<lambda>(i, j). upd3 k j (vs ! k ! i ! j - 1) inc8) (cells (length (vs ! k)))) [0..<length vs]
       (replicate (length vs) (replicate (length (vs ! 0)) (replicate (length (vs ! 0)) 0)))"

definition pairsIndex :: "nat list list list \<Rightarrow> nat list list" where
  "pairsIndex vs =
     fold (\<lambda>(k1, k2). fold (\<lambda>(i, j).
         upd2 (k1 + k2 - 1) (dec (vs ! k1 ! i ! j) * length (vs ! k1) + dec (vs ! k2 ! i ! j)) inc8) (cells (length (vs ! k1))))
       (concat (map (\<lambda>k1. map (Pair k1) [k1 + 1..<length vs]) [0..<length vs]))
       (replicate (length vs * (length vs - 1) div 2) (replicate (length (vs ! 0) * length (vs ! 0)) 0))"

text \<open>The metavariables to start from, in order: those of the literals of unsatisfied clauses.\<close>

definition vars_vec :: "Solver \<Rightarrow> nat list" where
  "vars_vec s =
     sorted_list_of_set (\<Union>i\<in>set [0..<length (literal_to_unsat s)].
       if literal_to_unsat s ! i > 0
       then (case literal_to_meta_variable s ! i of None \<Rightarrow> {0..<length (metaVariables s)} | Some m \<Rightarrow> {m})
       else {})"

definition first_bag :: "nat list \<Rightarrow> nat \<Rightarrow> nat list" where
  "first_bag vars bagSize = [0..<bagSize - 1] @ [max (vars ! 0) (bagSize - 1)]"

section \<open>The candidates of a round\<close>

partial_function (option) draw :: "(nat \<Rightarrow> nat) \<Rightarrow> nat \<Rightarrow> nat \<Rightarrow> nat list \<Rightarrow> nat \<Rightarrow> (nat \<times> nat) option" where
  "draw rnd t n combination val =
     (if val \<in> set combination then draw rnd (t + 1) n combination (rnd t mod n) else Some (val, t))"

fun draw_rest :: "(nat \<Rightarrow> nat) \<Rightarrow> nat \<Rightarrow> nat \<Rightarrow> nat list \<Rightarrow> nat \<Rightarrow> (nat list \<times> nat) option" where
  "draw_rest rnd t n combination 0 = Some (combination, t)"
| "draw_rest rnd t n combination (Suc k) =
     (case draw rnd t n combination (hd combination) of
        None \<Rightarrow> None
      | Some (val, t) \<Rightarrow> draw_rest rnd t n (combination @ [val]) k)"

text \<open>The member function random_combination_including: at most one step of the enumeration.\<close>

definition random_bag :: "Solver \<Rightarrow> (nat \<Rightarrow> nat) \<Rightarrow> nat \<Rightarrow> nat \<Rightarrow> nat \<Rightarrow> nat list \<Rightarrow> (nat list \<times> nat) option" where
  "random_bag s rnd t n k including =
     (if including = [] then None
      else
        (case draw_rest rnd (t + 1) n [including ! (rnd t mod length including)] (k - 1) of
           None \<Rightarrow> None
         | Some (combination, t) \<Rightarrow>
             let combination = sort combination
             in if satisfyPredicateForMetavars s combination then Some (combination, t)
                else map_option (\<lambda>(combination, _). (combination, t)) (next_combination_including combination n including)))"

fun random_bags :: "Solver \<Rightarrow> (nat \<Rightarrow> nat) \<Rightarrow> nat \<Rightarrow> nat \<Rightarrow> nat \<Rightarrow> nat list \<Rightarrow> nat \<Rightarrow> nat list list \<Rightarrow> nat list list option" where
  "random_bags s rnd t n k including 0 acc = Some acc"
| "random_bags s rnd t n k including (Suc tries) acc =
     (case random_bag s rnd t n k including of
        None \<Rightarrow> None
      | Some (c, t) \<Rightarrow>
          random_bags s rnd t n k including tries (if satisfyPredicateForMetavars s c then acc @ [c] else acc))"

text \<open>
  Removal of repetitions from the sorted candidates: every element that differs from its successor
  is kept, and the last one when it differs from the element before it.
\<close>

fun dedup :: "nat list list \<Rightarrow> nat list list" where
  "dedup (a # b # xs) =
     (if a \<noteq> b then a # (if xs = [] then [b] else dedup (b # xs)) else dedup (b # xs))"
| "dedup _ = []"

partial_function (option) all_bags :: "Solver \<Rightarrow> nat list \<Rightarrow> nat \<Rightarrow> nat list \<Rightarrow> nat list list \<Rightarrow> nat list list option" where
  "all_bags s bag n including acc =
     (let acc = (if satisfyPredicateForMetavars s bag then acc @ [bag] else acc)
      in case next_combination_including bag n including of
           None \<Rightarrow> None
         | Some (bag, r) \<Rightarrow> if r then all_bags s bag n including acc else Some acc)"

definition LIMIT :: nat where "LIMIT = 10000000"

definition candidates :: "Solver \<Rightarrow> (nat \<Rightarrow> nat) \<Rightarrow> nat \<Rightarrow> nat list list option" where
  "candidates s rnd bagSize =
     (let n = length (metaVariables s); vars = vars_vec s
      in if vars = [] then None
         else
           (case get_number_of_combinations n bagSize of
              None \<Rightarrow> None
            | Some combs \<Rightarrow>
                if combs > LIMIT
                then (case random_bags s rnd 0 n bagSize vars LIMIT [] of
                        None \<Rightarrow> None
                      | Some [] \<Rightarrow> None
                      | Some bags \<Rightarrow> Some (dedup (sort bags)))
                else all_bags s (first_bag vars bagSize) n vars []))"

section \<open>The search of a round\<close>

text \<open>A hit: the flips that raise the sum, and the new values of the cells of the matrices.\<close>

type_synonym hit = "nat list \<times> (nat \<times> nat \<times> nat \<times> nat) list"

definition bag_flips :: "Solver \<Rightarrow> nat list \<Rightarrow> nat list \<Rightarrow> nat list" where
  "bag_flips s bag perm =
     concat (map (\<lambda>(i, p). map number (filter (\<lambda>l. propagated s ! number l \<noteq> of_bool (valu l))
       (mv_variables (metaVariables s ! i) ! p))) (zip bag perm))"

definition bag_values :: "Solver \<Rightarrow> nat list \<Rightarrow> nat list \<Rightarrow> (nat \<times> nat \<times> nat \<times> nat) list" where
  "bag_values s bag perm =
     map (\<lambda>(i, p). let mv = metaVariables s ! i in (matrixIndex mv, rowIndex mv, columnIndex mv, mv_values mv ! p)) (zip bag perm)"

text \<open>One choice of values for the metavariables of a bag; None when check_flipped reads out of range.\<close>

definition try_values :: "Solver \<Rightarrow> nat list \<Rightarrow> nat list \<Rightarrow> hit option option" where
  "try_values s bag perm =
     (let vs = metaValues s
      in if \<not> satisfyPredicateForDomain s bag perm (rowsDistinct vs) (columnsDistinct vs) (pairsIndex vs) then Some None
         else map_option (\<lambda>(fl, returned). if returned then Some (fl, bag_values s bag perm) else None)
                (check_flipped s (bag_flips s bag perm)))"

partial_function (option) search_bag :: "Solver \<Rightarrow> nat list \<Rightarrow> nat list \<Rightarrow> hit option option" where
  "search_bag s bag perm =
     (case try_values s bag perm of
        None \<Rightarrow> None
      | Some (Some h) \<Rightarrow> Some (Some h)
      | Some None \<Rightarrow>
          (case nextArray perm (map (\<lambda>i. mv_variables (metaVariables s ! i)) bag) of
             (perm, r) \<Rightarrow> if r then search_bag s bag perm else Some None))"

fun search_bags :: "Solver \<Rightarrow> nat list list \<Rightarrow> hit option option" where
  "search_bags s [] = Some None"
| "search_bags s (bag # bags) =
     (case search_bag s bag (replicate (length bag) 0) of
        None \<Rightarrow> None
      | Some (Some h) \<Rightarrow> Some (Some h)
      | Some None \<Rightarrow> search_bags s bags)"

fun batches :: "nat \<Rightarrow> nat \<Rightarrow> nat \<Rightarrow> nat \<Rightarrow> (nat \<times> nat) list" where
  "batches 0 prev batch_size remains = []"
| "batches (Suc threads) prev batch_size remains =
     (let stop = (if remains > 0 then prev + batch_size + 1 else prev + batch_size)
      in (prev, stop) # batches threads stop batch_size (if remains > 0 then remains - 1 else remains))"

definition batch :: "'a list \<Rightarrow> nat \<times> nat \<Rightarrow> 'a list" where
  "batch xs = (\<lambda>(start, stop). take (stop - start) (drop start xs))"

text \<open>
  The round: shuffle orders the candidates, and pick chooses among the results of the threads, at
  least one of which is a hit: the threads run to their own end here.
\<close>

definition solve_round :: "(nat list list \<Rightarrow> nat list list) \<Rightarrow> (hit option list \<Rightarrow> hit) \<Rightarrow> (nat \<Rightarrow> nat) \<Rightarrow> nat \<Rightarrow> nat \<Rightarrow> Solver \<Rightarrow> (Solver \<times> bool) option" where
  "solve_round shuffle pick rnd thread_count bagSize s =
     (case candidates s rnd bagSize of
        None \<Rightarrow> None
      | Some bags \<Rightarrow>
          let bags = shuffle bags; n = length bags;
              results = map (\<lambda>b. search_bags s (batch bags b)) (batches thread_count 0 (n div thread_count) (n mod thread_count))
          in if None \<in> set results then None
             else
               let hits = map the results
               in if list_all (\<lambda>h. h = None) hits then Some (s, False)
                  else
                    let (solution, newMetaValues) = pick hits
                    in map_option (\<lambda>s. (s\<lparr>metaValues :=
                           fold (\<lambda>(m, r, c, v). upd3 m r c (\<lambda>_. v)) newMetaValues (metaValues s)\<rparr>, True))
                         (apply_flipped s solution))"

text \<open>The loop; stopped says in which rounds a signal has arrived.\<close>

partial_function (option) solve ::
    "(nat list list \<Rightarrow> nat list list) \<Rightarrow> (hit option list \<Rightarrow> hit) \<Rightarrow> (nat \<Rightarrow> nat \<Rightarrow> nat) \<Rightarrow> (nat \<Rightarrow> bool) \<Rightarrow> nat \<Rightarrow> nat \<Rightarrow> nat \<Rightarrow> nat \<Rightarrow> bool \<Rightarrow> Solver \<Rightarrow> nat list option" where
  "solve shuffle pick rnd stopped thread_count bagSize bagSizeEnd q changed s =
     (if changed \<and> of_nat (length (clauses s)) - satisfiedCount s > 0
      then
        (case solve_round shuffle pick (rnd q) thread_count bagSize s of
           None \<Rightarrow> None
         | Some (s, changed) \<Rightarrow>
             let grown = (\<not> changed \<and> bagSize < bagSizeEnd)
             in solve shuffle pick rnd stopped thread_count (if grown then bagSize + 1 else bagSize) bagSizeEnd (q + 1)
                  (\<not> stopped q \<and> (changed \<or> grown)) s)
      else Some (propagated s))"

section \<open>The predicate for bags is sound\<close>

abbreviation place :: "MetaVariable \<Rightarrow> nat \<times> nat \<times> nat" where
  "place mv \<equiv> (matrixIndex mv, rowIndex mv, columnIndex mv)"

lemma first_found_spec:
  "first_found mv found k = Some i \<Longrightarrow> k \<le> i \<and> i < k + length found \<and> interacts mv (found ! (i - k))"
proof (induction found arbitrary: k)
  case (Cons f found)
  show ?case
  proof (cases "interacts mv f")
    case False
    then have "Suc k \<le> i \<and> i < Suc k + length found \<and> interacts mv (found ! (i - Suc k))"
      using Cons.IH [of "Suc k"] Cons.prems by simp
    then show ?thesis by (auto simp: nth_Cons' not_less intro: arg_cong)
  qed (use Cons.prems in simp)
qed simp

lemma mark_found_spec:
  assumes "indices = done @ todo"
  shows "length flags = length indices \<Longrightarrow> found = map (\<lambda>i. place (mvs ! i)) done \<Longrightarrow>
    \<forall>j<length indices. flags ! j \<longrightarrow> (\<exists>k<length indices. k \<noteq> j \<and>
      (interacts (mvs ! (indices ! j)) (place (mvs ! (indices ! k))) \<or> interacts (mvs ! (indices ! k)) (place (mvs ! (indices ! j))))) \<Longrightarrow>
    \<forall>j<length indices. mark_found mvs todo (length done) found flags ! j \<longrightarrow> (\<exists>k<length indices. k \<noteq> j \<and>
      (interacts (mvs ! (indices ! j)) (place (mvs ! (indices ! k))) \<or> interacts (mvs ! (indices ! k)) (place (mvs ! (indices ! j)))))"
  using assms
proof (induction todo arbitrary: "done" found flags)
  case (Cons i todo)
  let ?d = "length done"
  have i: "indices ! ?d = i" "?d < length indices" using Cons.prems(4) by simp_all
  let ?P = "\<lambda>j. \<exists>k<length indices. k \<noteq> j \<and>
      (interacts (mvs ! (indices ! j)) (place (mvs ! (indices ! k))) \<or> interacts (mvs ! (indices ! k)) (place (mvs ! (indices ! j))))"
  let ?flags = "case first_found (mvs ! i) found 0 of None \<Rightarrow> flags | Some k \<Rightarrow> flags[?d := True, k := True]"
  have "?flags ! j \<longrightarrow> ?P j" if j: "j < length indices" for j
  proof (cases "first_found (mvs ! i) found 0")
    case (Some k)
    then have k: "k < ?d" "interacts (mvs ! i) (found ! k)" using first_found_spec [OF Some] Cons.prems(2) by auto
    then have e: "interacts (mvs ! (indices ! ?d)) (place (mvs ! (indices ! k)))" "k < length indices" "k \<noteq> ?d"
      using Cons.prems(2,4) i by (simp_all add: nth_append)
    then have "?P ?d" "?P k" using i(2) by blast+
    moreover have "j = ?d \<or> j = k \<or> ?flags ! j = flags ! j" using Some by auto
    ultimately show ?thesis using Cons.prems(3) j by auto
  qed (use Cons.prems(3) j in simp)
  then have "\<forall>j<length indices. mark_found mvs todo (length (done @ [i])) (found @ [place (mvs ! i)]) ?flags ! j \<longrightarrow> ?P j"
    using Cons.prems(1,2,4) by (intro Cons.IH) (simp_all split: option.splits)
  then show ?case by (simp add: Let_def)
qed simp

lemma interacts_sym: "interacts a (place b) = interacts b (place a)"
  by (auto simp: interacts_def)

text \<open>
  A bag that passes the filter has no metavariable whose value is fixed, and, when it has more
  than one, every metavariable of it shares a row or a column of a matrix, or the cell of two
  matrices, with another one of the bag.
\<close>

theorem satisfyPredicateForMetavars_sound:
  assumes "satisfyPredicateForMetavars s bag"
  shows "list_all (\<lambda>i. length (mv_variables (metaVariables s ! i)) \<ge> 2) bag \<and>
    (length bag \<noteq> 1 \<longrightarrow> (\<forall>j<length bag. \<exists>k<length bag. k \<noteq> j \<and>
       interacts (metaVariables s ! (bag ! j)) (place (metaVariables s ! (bag ! k)))))"
proof (intro conjI impI)
  show "list_all (\<lambda>i. length (mv_variables (metaVariables s ! i)) \<ge> 2) bag"
    using assms by (auto simp: satisfyPredicateForMetavars_def list_all_iff list_ex_iff split: if_splits)
  assume "length bag \<noteq> 1"
  let ?fl = "mark_found (metaVariables s) bag 0 [] (replicate (length bag) False)"
  have len: "length (mark_found mvs is j found flags) = length flags" for mvs "is" j found flags
    by (induction mvs "is" j found flags rule: mark_found.induct) (simp_all add: Let_def split: option.splits)
  have "list_all (\<lambda>b. b) ?fl"
    using assms \<open>length bag \<noteq> 1\<close> by (simp add: satisfyPredicateForMetavars_def split: if_splits)
  then have "?fl ! j" if "j < length bag" for j using that len by (simp add: list_all_length)
  then show "\<forall>j<length bag. \<exists>k<length bag. k \<noteq> j \<and>
       interacts (metaVariables s ! (bag ! j)) (place (metaVariables s ! (bag ! k)))"
    using mark_found_spec [of bag "[]" bag "replicate (length bag) False" "[]" "metaVariables s"] interacts_sym by simp
qed

definition ex_metas :: Solver where
  "ex_metas =
     (let mv = (\<lambda>m r c. \<lparr>matrixIndex = m, rowIndex = r, columnIndex = c,
            mv_variables = [[Literal_dimacs 1], [Literal_dimacs 2]], mv_values = [1, 2]\<rparr>)
      in ex_solver\<lparr>metaVariables := [mv 0 1 1, mv 0 1 2, mv 1 1 2]\<rparr>)"

theorem satisfyPredicateForMetavars_sound_witness:
  "list_all (\<lambda>i. length (mv_variables (metaVariables ex_metas ! i)) \<ge> 2) [0, 1, 2] \<and>
    interacts (metaVariables ex_metas ! 2) (place (metaVariables ex_metas ! 1))"
proof -
  have p: "satisfyPredicateForMetavars ex_metas [0, 1, 2]"
    by (simp add: satisfyPredicateForMetavars_def ex_metas_def Let_def interacts_def numeral_eq_Suc)
  have "length [0, 1, 2 :: nat] \<noteq> 1" by simp
  then have "\<forall>j<length [0, 1, 2 :: nat]. \<exists>k<length [0, 1, 2 :: nat]. k \<noteq> j \<and>
       interacts (metaVariables ex_metas ! ([0, 1, 2] ! j)) (place (metaVariables ex_metas ! ([0, 1, 2] ! k)))"
    using satisfyPredicateForMetavars_sound [OF p] by blast
  moreover have "2 < length [0, 1, 2 :: nat]" by simp
  ultimately obtain k where k: "k < length [0, 1, 2 :: nat]" "k \<noteq> 2"
    "interacts (metaVariables ex_metas ! ([0, 1, 2] ! 2)) (place (metaVariables ex_metas ! ([0, 1, 2] ! k)))" by blast
  have "k = 0 \<or> k = 1" using k(1,2) by (simp, arith)
  then have "interacts (metaVariables ex_metas ! 2) (place (metaVariables ex_metas ! 0)) \<or>
      interacts (metaVariables ex_metas ! 2) (place (metaVariables ex_metas ! 1))"
    using k(3) by auto
  moreover have "\<not> interacts (metaVariables ex_metas ! 2) (place (metaVariables ex_metas ! 0))"
    by (simp add: interacts_def ex_metas_def Let_def numeral_eq_Suc)
  ultimately show ?thesis using satisfyPredicateForMetavars_sound [OF p] by blast
qed

section \<open>The work of the threads\<close>

lemma batches_concat:
  "remains \<le> threads \<Longrightarrow> concat (map (batch xs) (batches threads prev sz remains)) =
     take (threads * sz + remains) (drop prev xs)"
proof (induction threads arbitrary: prev remains)
  case (Suc threads)
  show ?case
  proof (cases "remains > 0")
    case True
    then obtain r where r: "remains = Suc r" by (cases remains) auto
    then have "concat (map (batch xs) (batches threads (prev + sz + 1) sz r)) = take (threads * sz + r) (drop (prev + sz + 1) xs)"
      using Suc by simp
    moreover have "take (Suc threads * sz + remains) (drop prev xs) =
        take (sz + 1) (drop prev xs) @ take (threads * sz + r) (drop (sz + 1) (drop prev xs))"
      using take_add [of "sz + 1" "threads * sz + r" "drop prev xs"] r by (simp add: algebra_simps)
    ultimately show ?thesis using r by (simp add: batch_def Let_def add.commute)
  next
    case False
    then have "concat (map (batch xs) (batches threads (prev + sz) sz 0)) = take (threads * sz) (drop (prev + sz) xs)"
      using Suc.IH [of 0] by simp
    moreover have "take (Suc threads * sz) (drop prev xs) =
        take sz (drop prev xs) @ take (threads * sz) (drop sz (drop prev xs))"
      using take_add [of sz "threads * sz" "drop prev xs"] by simp
    ultimately show ?thesis using False by (simp add: batch_def Let_def add.commute)
  qed
qed simp

text \<open>
  The candidates of a round are divided among the threads without gap or overlap: the batches
  of any positive number of threads, one after the other, are the list of candidates.
\<close>

theorem batches_partition:
  "0 < thread_count \<Longrightarrow> concat (map (batch bags)
     (batches thread_count 0 (length bags div thread_count) (length bags mod thread_count))) = bags"
  using batches_concat [of "length bags mod thread_count" thread_count bags 0 "length bags div thread_count"]
    less_imp_le [OF mod_less_divisor [of thread_count "length bags"]]
  by (simp add: mult.commute)

theorem batches_partition_witness:
  "concat (map (batch [[0 :: nat, 1], [0, 2], [1, 2], [1, 3]]) (batches 3 0 (4 div 3) (4 mod 3))) =
     [[0, 1], [0, 2], [1, 2], [1, 3]]"
  using batches_partition [of 3 "[[0 :: nat, 1], [0, 2], [1, 2], [1, 3]]"] by simp

text \<open>The removal of repetitions loses the last candidate when it was drawn twice, or is the only one.\<close>

lemma dedup_loses_last: "dedup [[0, 1], [0, 2], [0, 2]] = [[0, 1]]" "dedup [[0, 1]] = []"
  by simp_all

end
