(* ===== verification/Ls_Reduce.thy ===== *)
theory Ls_Reduce
  imports Ls_Search
begin

text \<open>
  The unit propagation of the constructor, HillClimbingSolver::reduce: it ends, and it leaves the
  lists of clauses of every variable that it did not assign complete.
\<close>

section \<open>The lists of a formula\<close>

text \<open>lists_ok: the part of index_ok that concerns the lists, for the variables in V.\<close>

definition lists_ok :: "nat set \<Rightarrow> nat set \<Rightarrow> Solver \<Rightarrow> bool" where
  "lists_ok act V s \<longleftrightarrow> (\<forall>v\<in>V. \<forall>c.
     count_list (lc_pos s ! v) c = (if c \<in> act then occ v True (clauses s ! c) else 0) \<and>
     count_list (lc_neg s ! v) c = (if c \<in> act then occ v False (clauses s ! c) else 0))"

definition lc :: "bool \<Rightarrow> Solver \<Rightarrow> nat list list" where
  "lc b s = (if b then lc_pos s else lc_neg s)"

lemma lists_ok_lc:
  "lists_ok act V s \<longleftrightarrow> (\<forall>v\<in>V. \<forall>c b. count_list (lc b s ! v) c = (if c \<in> act then occ v b (clauses s ! c) else 0))"
proof
  show "lists_ok act V s \<Longrightarrow> \<forall>v\<in>V. \<forall>c b. count_list (lc b s ! v) c = (if c \<in> act then occ v b (clauses s ! c) else 0)"
    by (simp add: lists_ok_def lc_def)
  assume A: "\<forall>v\<in>V. \<forall>c b. count_list (lc b s ! v) c = (if c \<in> act then occ v b (clauses s ! c) else 0)"
  then have "\<forall>v\<in>V. \<forall>c. count_list (lc True s ! v) c = (if c \<in> act then occ v True (clauses s ! c) else 0)"
    "\<forall>v\<in>V. \<forall>c. count_list (lc False s ! v) c = (if c \<in> act then occ v False (clauses s ! c) else 0)" by blast+
  then show "lists_ok act V s" by (simp add: lists_ok_def lc_def)
qed

lemma literal_eq: "l = \<lparr>number = v, valu = b\<rparr> \<longleftrightarrow> number l = v \<and> valu l = b"
  by (cases l) auto

lemma occ_0: "v \<notin> number ` set (literals c) \<Longrightarrow> occ v b c = 0"
  by (simp add: occ_def count_list_0_iff) (metis Literal.select_convs(1) imageI)

section \<open>Erasing a literal\<close>

lemma erase_var_occ: "v \<noteq> w \<Longrightarrow> count_list (erase_var v ls) \<lparr>number = w, valu = b\<rparr> = count_list ls \<lparr>number = w, valu = b\<rparr>"
  by (induction ls) (auto simp: literal_eq)

lemma erase_var_sub: "set (erase_var v ls) \<subseteq> set ls \<and> length (erase_var v ls) \<le> length ls"
  by (induction ls) auto

lemma erase_var_sorted: "sorted_wrt lit_le ls \<Longrightarrow> sorted_wrt lit_le (erase_var v ls)"
  by (induction ls) (use erase_var_sub in auto)

lemma erase_var_count:
  "count_list (map number (erase_var v ls)) v = count_list (map number ls) v - 1"
  by (induction ls) auto

lemma occurs_split: "occurs v c = occ v True c + occ v False c"
proof -
  have "count_list (map number ls) v = count_list ls \<lparr>number = v, valu = True\<rparr> + count_list ls \<lparr>number = v, valu = False\<rparr>" for ls
    by (induction ls) (auto simp: literal_eq)
  then show ?thesis by (simp add: occurs_def occ_def)
qed

definition erase_in :: "nat \<Rightarrow> nat list \<Rightarrow> Clause list \<Rightarrow> Clause list" where
  "erase_in v is cs = fold (\<lambda>i cs. cs[i := (cs ! i)\<lparr>literals := erase_var v (literals (cs ! i))\<rparr>]) is cs"

lemma length_erase_in [simp]: "length (erase_in v is cs) = length cs"
  unfolding erase_in_def by (induction "is" arbitrary: cs) simp_all

lemma erase_in_nth:
  assumes "c < length cs"
  shows "(w \<noteq> v \<longrightarrow> occ w b (erase_in v is cs ! c) = occ w b (cs ! c)) \<and>
    set (literals (erase_in v is cs ! c)) \<subseteq> set (literals (cs ! c)) \<and>
    length (literals (erase_in v is cs ! c)) \<le> length (literals (cs ! c)) \<and>
    (sorted_wrt lit_le (literals (cs ! c)) \<longrightarrow> sorted_wrt lit_le (literals (erase_in v is cs ! c))) \<and>
    occurs v (erase_in v is cs ! c) = occurs v (cs ! c) - count_list is c"
  using assms
proof (induction "is" arbitrary: cs)
  case Nil
  then show ?case by (simp add: erase_in_def)
next
  case (Cons i "is")
  let ?cs = "cs[i := (cs ! i)\<lparr>literals := erase_var v (literals (cs ! i))\<rparr>]"
  have e: "erase_in v (i # is) cs = erase_in v is ?cs" by (simp add: erase_in_def)
  have IH: "(w \<noteq> v \<longrightarrow> occ w b (erase_in v is ?cs ! c) = occ w b (?cs ! c)) \<and>
    set (literals (erase_in v is ?cs ! c)) \<subseteq> set (literals (?cs ! c)) \<and>
    length (literals (erase_in v is ?cs ! c)) \<le> length (literals (?cs ! c)) \<and>
    (sorted_wrt lit_le (literals (?cs ! c)) \<longrightarrow> sorted_wrt lit_le (literals (erase_in v is ?cs ! c))) \<and>
    occurs v (erase_in v is ?cs ! c) = occurs v (?cs ! c) - count_list is c"
    using Cons by simp
  show ?case
  proof (cases "i = c")
    case True
    then have c: "literals (?cs ! c) = erase_var v (literals (cs ! c))" using Cons.prems by simp
    have "w \<noteq> v \<Longrightarrow> occ w b (?cs ! c) = occ w b (cs ! c)" unfolding occ_def c using erase_var_occ by metis
    moreover have "occurs v (?cs ! c) = occurs v (cs ! c) - 1" unfolding occurs_def c by (rule erase_var_count)
    moreover have "set (literals (?cs ! c)) \<subseteq> set (literals (cs ! c)) \<and> length (literals (?cs ! c)) \<le> length (literals (cs ! c))"
      "sorted_wrt lit_le (literals (cs ! c)) \<Longrightarrow> sorted_wrt lit_le (literals (?cs ! c))"
      unfolding c using erase_var_sub erase_var_sorted by blast+
    ultimately show ?thesis unfolding e using IH True by auto
  next
    case False
    then have "?cs ! c = cs ! c" by simp
    then show ?thesis unfolding e using IH False by simp
  qed
qed

section \<open>The map of clauses to delete\<close>

lemma put_set: "distinct (map fst m) \<Longrightarrow> sorted (map fst m) \<Longrightarrow>
    distinct (map fst (put k v m)) \<and> sorted (map fst (put k v m)) \<and> set (put k v m) \<subseteq> insert (k, v) (set m) \<and>
    fst ` set (put k v m) = insert k (fst ` set m)"
proof (induction m)
  case (Cons a m)
  obtain k' v' where a: "a = (k', v')" by (cases a)
  consider "k < k'" | "k = k'" | "k' < k" by linarith
  then show ?case
  proof cases
    case 3
    have "distinct (map fst (put k v m)) \<and> sorted (map fst (put k v m)) \<and> set (put k v m) \<subseteq> insert (k, v) (set m) \<and>
      fst ` set (put k v m) = insert k (fst ` set m)" using Cons by simp
    then show ?thesis using 3 Cons.prems a by auto
  qed (use Cons.prems a in auto)
qed simp

lemma puts_set: "distinct (map fst m) \<Longrightarrow> sorted (map fst m) \<Longrightarrow>
    distinct (map fst (fold (\<lambda>i. put i v) is m)) \<and> sorted (map fst (fold (\<lambda>i. put i v) is m)) \<and>
    set (fold (\<lambda>i. put i v) is m) \<subseteq> (\<lambda>i. (i, v)) ` set is \<union> set m"
proof (induction "is" arbitrary: m)
  case (Cons i "is")
  have "distinct (map fst (put i v m)) \<and> sorted (map fst (put i v m)) \<and> set (put i v m) \<subseteq> insert (i, v) (set m)"
    using put_set [OF Cons.prems] by blast
  then show ?case using Cons.IH [of "put i v m"] by auto
qed simp

section \<open>The invariant of the propagation\<close>

text \<open>
  s0 is the state before: only clauses, values and metavariables change, and variables that are not
  assigned yet keep their occurrences.
\<close>

definition same_rest :: "Solver \<Rightarrow> Solver \<Rightarrow> bool" where
  "same_rest s0 s \<longleftrightarrow> (\<exists>cs pr mvs. s = s0\<lparr>clauses := cs, propagated := pr, metaVariables := mvs\<rparr> \<and>
     length cs = length (clauses s0) \<and> length pr = length (propagated s0))"

definition shrunk :: "Solver \<Rightarrow> Solver \<Rightarrow> bool" where
  "shrunk s0 s \<longleftrightarrow> length (clauses s) = length (clauses s0) \<and> (\<forall>c<length (clauses s0).
     set (literals (clauses s ! c)) \<subseteq> set (literals (clauses s0 ! c)) \<and>
     length (literals (clauses s ! c)) \<le> length (literals (clauses s0 ! c)) \<and>
     (sorted_wrt lit_le (literals (clauses s0 ! c)) \<longrightarrow> sorted_wrt lit_le (literals (clauses s ! c))))"

definition red_inv :: "nat set \<Rightarrow> Solver \<Rightarrow> reduction \<Rightarrow> bool" where
  "red_inv act s0 = (\<lambda>(s, cache, toDelete, changed).
     same_rest s0 s \<and> shrunk s0 s \<and> distinct cache \<and>
     set cache \<subseteq> (\<Union>c<length (clauses s0). number ` set (literals (clauses s0 ! c))) \<and>
     (\<forall>v. v \<notin> set cache \<longrightarrow> propagated s ! v = propagated s0 ! v \<and>
        (\<forall>c<length (clauses s0). \<forall>b. occ v b (clauses s ! c) = occ v b (clauses s0 ! c))) \<and>
     distinct (map fst toDelete) \<and> sorted (map fst toDelete) \<and>
     (\<forall>(c, v)\<in>set toDelete. c \<in> act \<and> v \<in> set cache \<and> v \<in> number ` set (literals (clauses s ! c))))"

lemma same_rest_lc: "same_rest s0 s \<Longrightarrow> lc_pos s = lc_pos s0 \<and> lc_neg s = lc_neg s0"
  by (auto simp: same_rest_def)

lemma same_rest_upd:
  assumes "same_rest s0 s"
  shows "same_rest s0 (s\<lparr>propagated := (propagated s)[v := x]\<rparr>)" "same_rest s0 (s\<lparr>metaVariables := mvs\<rparr>)"
    "length cs = length (clauses s) \<Longrightarrow> same_rest s0 (s\<lparr>clauses := cs\<rparr>)"
proof -
  obtain cs' pr mvs' where s: "s = s0\<lparr>clauses := cs', propagated := pr, metaVariables := mvs'\<rparr>"
    "length cs' = length (clauses s0)" "length pr = length (propagated s0)" using assms by (auto simp: same_rest_def)
  show "same_rest s0 (s\<lparr>propagated := (propagated s)[v := x]\<rparr>)" unfolding same_rest_def
    using s by (intro exI [of _ cs'] exI [of _ "pr[v := x]"] exI [of _ mvs']) simp
  show "same_rest s0 (s\<lparr>metaVariables := mvs\<rparr>)" unfolding same_rest_def
    using s by (intro exI [of _ cs'] exI [of _ pr] exI [of _ mvs]) simp
  show "same_rest s0 (s\<lparr>clauses := cs\<rparr>)" if "length cs = length (clauses s)" unfolding same_rest_def
    using s that by (intro exI [of _ cs] exI [of _ pr] exI [of _ mvs']) simp
qed

text \<open>The state after one unit, but for its clauses.\<close>

lemma reduce_unit_eq:
  obtains s1 where "reduce_unit l (s, cache, toDelete, changed) =
      (s1\<lparr>clauses := erase_in (number l) (lc (\<not> valu l) s ! number l) (clauses s)\<rparr>, cache @ [number l],
       fold (\<lambda>i. put i (number l)) (lc (valu l) s ! number l) toDelete, changed \<or> lc (\<not> valu l) s ! number l \<noteq> [])"
    "same_rest s0 s \<Longrightarrow> same_rest s0 s1" "clauses s1 = clauses s"
    "propagated s1 = (propagated s)[number l := of_bool (valu l)]"
proof -
  let ?s = "s\<lparr>propagated := (propagated s)[number l := of_bool (valu l)]\<rparr>"
  let ?s1 = "case literal_to_meta_variable s ! number l of None \<Rightarrow> ?s
      | Some m \<Rightarrow> ?s\<lparr>metaVariables := (metaVariables ?s)[m := restrict_meta l (metaVariables ?s ! m)]\<rparr>"
  have "reduce_unit l (s, cache, toDelete, changed) =
      (?s1\<lparr>clauses := erase_in (number l) (lc (\<not> valu l) s ! number l) (clauses s)\<rparr>, cache @ [number l],
       fold (\<lambda>i. put i (number l)) (lc (valu l) s ! number l) toDelete, changed \<or> lc (\<not> valu l) s ! number l \<noteq> [])"
    by (simp add: reduce_unit_def Let_def erase_in_def lc_def split: option.splits)
  moreover have "same_rest s0 s \<Longrightarrow> same_rest s0 ?s1"
    by (auto split: option.splits intro: same_rest_upd)
  moreover have "clauses ?s1 = clauses s" "propagated ?s1 = (propagated s)[number l := of_bool (valu l)]"
    by (simp_all split: option.splits)
  ultimately show ?thesis by (rule that)
qed

lemma reduce_unit_inv:
  assumes inv: "red_inv act s0 (s, cache, toDelete, changed)"
    and act: "act \<subseteq> {..<length (clauses s0)}" and lists: "lists_ok act V s0"
    and l: "l \<in> set (literals (clauses s ! ci))" "ci < length (clauses s0)" "number l \<notin> set cache" "number l \<in> V"
  shows "red_inv act s0 (reduce_unit l (s, cache, toDelete, changed)) \<and>
    set (fst (snd (reduce_unit l (s, cache, toDelete, changed)))) = insert (number l) (set cache)"
proof -
  let ?v = "number l" and ?sub = "lc (\<not> valu l) s ! number l" and ?sat = "lc (valu l) s ! number l"
  obtain s1 where e: "reduce_unit l (s, cache, toDelete, changed) =
      (s1\<lparr>clauses := erase_in ?v ?sub (clauses s)\<rparr>, cache @ [?v], fold (\<lambda>i. put i ?v) ?sat toDelete, changed \<or> ?sub \<noteq> [])"
    and s1: "same_rest s0 s \<Longrightarrow> same_rest s0 s1" "clauses s1 = clauses s" "propagated s1 = (propagated s)[?v := of_bool (valu l)]"
    by (rule reduce_unit_eq [of l s cache toDelete changed s0]) blast
  let ?cs = "erase_in ?v ?sub (clauses s)" and ?del = "fold (\<lambda>i. put i ?v) ?sat toDelete"
  have I: "same_rest s0 s" "shrunk s0 s" "distinct cache"
    "set cache \<subseteq> (\<Union>c<length (clauses s0). number ` set (literals (clauses s0 ! c)))"
    "\<forall>v. v \<notin> set cache \<longrightarrow> propagated s ! v = propagated s0 ! v \<and>
        (\<forall>c<length (clauses s0). \<forall>b. occ v b (clauses s ! c) = occ v b (clauses s0 ! c))"
    "distinct (map fst toDelete)" "sorted (map fst toDelete)"
    "\<forall>(c, v)\<in>set toDelete. c \<in> act \<and> v \<in> set cache \<and> v \<in> number ` set (literals (clauses s ! c))"
    using inv by (simp_all add: red_inv_def)
  have len: "length (clauses s) = length (clauses s0)" using I(2) by (simp add: shrunk_def)
  have lcs: "lc b s = lc b s0" for b using same_rest_lc [OF I(1)] by (simp add: lc_def)
  have E: "(w \<noteq> ?v \<longrightarrow> occ w b (?cs ! c) = occ w b (clauses s ! c)) \<and>
    set (literals (?cs ! c)) \<subseteq> set (literals (clauses s ! c)) \<and>
    length (literals (?cs ! c)) \<le> length (literals (clauses s ! c)) \<and>
    (sorted_wrt lit_le (literals (clauses s ! c)) \<longrightarrow> sorted_wrt lit_le (literals (?cs ! c))) \<and>
    occurs ?v (?cs ! c) = occurs ?v (clauses s ! c) - count_list ?sub c" if "c < length (clauses s0)" for c w b
    by (rule erase_in_nth) (use that len in simp)
  have "same_rest s0 (s1\<lparr>clauses := ?cs\<rparr>)" using s1(1) [OF I(1)] by (rule same_rest_upd(3)) (simp add: s1(2))
  moreover have "shrunk s0 (s1\<lparr>clauses := ?cs\<rparr>)"
    using I(2) E len unfolding shrunk_def by (simp add: subset_iff) (meson le_trans)
  moreover have "?v \<in> (\<Union>c<length (clauses s0). number ` set (literals (clauses s0 ! c)))"
    using l(1,2) I(2) by (auto simp: shrunk_def)
  moreover have "propagated (s1\<lparr>clauses := ?cs\<rparr>) ! w = propagated s0 ! w \<and>
        (\<forall>c<length (clauses s0). \<forall>b. occ w b (clauses (s1\<lparr>clauses := ?cs\<rparr>) ! c) = occ w b (clauses s0 ! c))"
    if "w \<notin> set (cache @ [?v])" for w using I(5) E s1(3) that by simp
  moreover have "distinct (map fst ?del) \<and> sorted (map fst ?del) \<and> set ?del \<subseteq> (\<lambda>i. (i, ?v)) ` set ?sat \<union> set toDelete"
    by (rule puts_set [OF I(6,7)])
  moreover have "c \<in> act \<and> w \<in> set (cache @ [?v]) \<and> w \<in> number ` set (literals (?cs ! c))" if cw: "(c, w) \<in> set ?del" for c w
  proof -
    consider "c \<in> set ?sat" "w = ?v" | "(c, w) \<in> set toDelete" using cw calculation(5) by auto
    then show ?thesis
    proof cases
      case 1
      have n: "count_list ?sat c \<noteq> 0" using 1(1) by (simp add: count_list_0_iff)
      then have c: "c \<in> act" "occ ?v (valu l) (clauses s0 ! c) \<noteq> 0"
        using lists l(4) lcs unfolding lists_ok_lc by (metis (full_types))+
      then have cl: "c < length (clauses s0)" using act by blast
      have "count_list ?sub c = occ ?v (\<not> valu l) (clauses s0 ! c)" using lists l(4) lcs c(1) unfolding lists_ok_lc by simp
      moreover have "occurs ?v (clauses s ! c) = occ ?v True (clauses s0 ! c) + occ ?v False (clauses s0 ! c)"
        using I(5) l(3) cl by (simp add: occurs_split)
      ultimately have "occurs ?v (?cs ! c) \<noteq> 0" using E [OF cl] c(2) by (cases "valu l") simp_all
      then show ?thesis using 1 c(1) by (auto simp: occurs_def count_list_0_iff)
    next
      case 2
      then have d: "c \<in> act" "w \<in> set cache" "w \<in> number ` set (literals (clauses s ! c))" using I(8) by auto
      have "occurs w (clauses s ! c) \<noteq> 0" using d(3) by (auto simp: occurs_def count_list_0_iff)
      moreover have "w \<noteq> ?v" using d(2) l(3) by auto
      ultimately have "occurs w (?cs ! c) \<noteq> 0" using E d(1) act by (auto simp: occurs_split)
      then show ?thesis using d by (auto simp: occurs_def count_list_0_iff)
    qed
  qed
  ultimately show ?thesis unfolding e using I(3,4) l(3) by (simp add: red_inv_def) blast
qed

section \<open>The propagation ends\<close>

definition cached :: "reduction \<Rightarrow> nat set" where
  "cached r = set (fst (snd r))"

lemma reduce_clause_inv:
  assumes inv: "red_inv act s0 r" and act: "act \<subseteq> {..<length (clauses s0)}" and lists: "lists_ok act V s0"
    and V: "\<forall>c<length (clauses s0). number ` set (literals (clauses s0 ! c)) \<subseteq> V" and ci: "ci < length (clauses s0)"
  shows "red_inv act s0 (reduce_clause ci r) \<and> cached r \<subseteq> cached (reduce_clause ci r) \<and>
    (reduce_clause ci r = r \<or> cached (reduce_clause ci r) \<noteq> cached r)"
proof -
  obtain s cache toDelete changed where r: "r = (s, cache, toDelete, changed)" by (metis prod_cases4)
  let ?ls = "literals (clauses s ! ci)"
  show ?thesis
  proof (cases "length ?ls = 1 \<and> number (hd ?ls) \<notin> set cache")
    case True
    then have l: "hd ?ls \<in> set ?ls" by (intro hd_in_set) auto
    have "set ?ls \<subseteq> set (literals (clauses s0 ! ci))" using inv ci by (simp add: r red_inv_def shrunk_def)
    then have "number (hd ?ls) \<in> V" using V ci l by blast
    then have "red_inv act s0 (reduce_unit (hd ?ls) r) \<and> set (fst (snd (reduce_unit (hd ?ls) r))) = insert (number (hd ?ls)) (set cache)"
      unfolding r using True inv by (intro reduce_unit_inv [OF _ act lists l ci]) (simp_all add: r)
    moreover have "reduce_clause ci r = reduce_unit (hd ?ls) r" using True by (simp add: reduce_clause_def r Let_def)
    ultimately show ?thesis using True by (auto simp: cached_def r)
  next
    case False
    then have "reduce_clause ci r = r" unfolding r reduce_clause_def Let_def fst_conv snd_conv by (simp only: if_False)
    then show ?thesis using inv by simp
  qed
qed

lemma reduce_clauses_inv:
  assumes act: "act \<subseteq> {..<length (clauses s0)}" and lists: "lists_ok act V s0"
    and V: "\<forall>c<length (clauses s0). number ` set (literals (clauses s0 ! c)) \<subseteq> V"
  shows "red_inv act s0 r \<Longrightarrow> set ids \<subseteq> {..<length (clauses s0)} \<Longrightarrow>
    red_inv act s0 (fold reduce_clause ids r) \<and> cached r \<subseteq> cached (fold reduce_clause ids r) \<and>
    (fold reduce_clause ids r = r \<or> cached (fold reduce_clause ids r) \<noteq> cached r)"
proof (induction ids arbitrary: r)
  case (Cons ci ids)
  let ?r = "reduce_clause ci r"
  have "red_inv act s0 ?r \<and> cached r \<subseteq> cached ?r \<and> (?r = r \<or> cached ?r \<noteq> cached r)"
    using Cons.prems by (intro reduce_clause_inv [OF _ act lists V]) simp_all
  moreover from this have "red_inv act s0 (fold reduce_clause ids ?r) \<and> cached ?r \<subseteq> cached (fold reduce_clause ids ?r) \<and>
      (fold reduce_clause ids ?r = ?r \<or> cached (fold reduce_clause ids ?r) \<noteq> cached ?r)"
    using Cons.prems by (intro Cons.IH) simp_all
  ultimately show ?case by auto
qed simp

definition numbers_of :: "Solver \<Rightarrow> nat set" where
  "numbers_of s = (\<Union>c<length (clauses s). number ` set (literals (clauses s ! c)))"

lemma reduce_loop_inv:
  assumes act: "act \<subseteq> {..<length (clauses s0)}" and lists: "lists_ok act V s0"
    and V: "\<forall>c<length (clauses s0). number ` set (literals (clauses s0 ! c)) \<subseteq> V"
  shows "red_inv act s0 r \<Longrightarrow> \<exists>r'. reduce_loop r = Some r' \<and> red_inv act s0 r'"
proof (induction "card (numbers_of s0 - cached r)" arbitrary: r rule: less_induct)
  case less
  obtain s cache toDelete changed where r: "r = (s, cache, toDelete, changed)" by (metis prod_cases4)
  show ?case
  proof (cases changed)
    case False
    then have "reduce_loop r = Some r" by (subst reduce_loop.simps) (simp add: r)
    then show ?thesis using less.prems by simp
  next
    case True
    let ?r1 = "(s, cache, toDelete, False)" and ?r2 = "reduce_round r"
    have e: "reduce_loop r = reduce_loop ?r2" using True by (subst reduce_loop.simps) (simp add: r)
    have len: "length (clauses s) = length (clauses s0)" using less.prems by (simp add: r red_inv_def shrunk_def)
    have "red_inv act s0 ?r1" using less.prems by (simp add: r red_inv_def)
    moreover have "set [0..<length (clauses s)] \<subseteq> {..<length (clauses s0)}" using len by auto
    ultimately have "red_inv act s0 ?r2 \<and> cached ?r1 \<subseteq> cached ?r2 \<and> (?r2 = ?r1 \<or> cached ?r2 \<noteq> cached ?r1)"
      unfolding r reduce_round_def prod.case by (rule reduce_clauses_inv [OF act lists V])
    then have S: "red_inv act s0 ?r2" "cached r \<subseteq> cached ?r2" "?r2 = ?r1 \<or> cached ?r2 \<noteq> cached r"
      by (simp_all add: cached_def r)
    show ?thesis
    proof (cases "?r2 = ?r1")
      case True
      then have "reduce_loop ?r2 = Some ?r2" by (subst reduce_loop.simps) simp
      then show ?thesis using S(1) e by simp
    next
      case False
      then have "cached r \<subset> cached ?r2" using S by blast
      moreover have "cached ?r2 \<subseteq> numbers_of s0"
        using S(1) unfolding cached_def numbers_of_def red_inv_def by (auto split: prod.splits)
      ultimately have "numbers_of s0 - cached ?r2 \<subset> numbers_of s0 - cached r" by blast
      then have "card (numbers_of s0 - cached ?r2) < card (numbers_of s0 - cached r)"
        by (rule psubset_card_mono [rotated]) (simp add: numbers_of_def)
      then show ?thesis using less.hyps S(1) e by simp
    qed
  qed
qed

lemma red_inv_start: "red_inv act s (s, [], [], True)"
proof -
  have "same_rest s s" unfolding same_rest_def
    by (rule exI [of _ "clauses s"], rule exI [of _ "propagated s"], rule exI [of _ "metaVariables s"]) simp
  then show ?thesis by (simp add: red_inv_def shrunk_def)
qed

section \<open>Deleting the satisfied clauses\<close>

lemma count_remove1: "count_list (remove1 x xs) y = count_list xs y - of_bool (x = y)"
  by (induction xs) auto

lemma unlist_simps [simp]:
  "clauses (unlist ci l s) = clauses s" "length (lc b (unlist ci l s)) = length (lc b s)"
  by (simp_all add: unlist_def lc_def)

lemma unlist_count:
  assumes "v < length (lc b s)"
  shows "count_list (lc b (unlist ci l s) ! v) c = count_list (lc b s ! v) c - of_bool (c = ci \<and> l = \<lparr>number = v, valu = b\<rparr>)"
  using assms by (cases "number l = v") (auto simp: unlist_def lc_def literal_eq count_remove1)

lemma unlists_simps [simp]:
  "clauses (fold (unlist ci) ls s) = clauses s" "length (lc b (fold (unlist ci) ls s)) = length (lc b s)"
  by (induction ls arbitrary: s) simp_all

lemma unlists_count:
  "v < length (lc b s) \<Longrightarrow> count_list (lc b (fold (unlist ci) ls s) ! v) c =
     count_list (lc b s ! v) c - (if c = ci then count_list ls \<lparr>number = v, valu = b\<rparr> else 0)"
  by (induction ls arbitrary: s) (auto simp: unlist_count)

text \<open>Nothing but the clauses, the values, the metavariables and the lists is different.\<close>

definition same_frame :: "Solver \<Rightarrow> Solver \<Rightarrow> bool" where
  "same_frame s0 s \<longleftrightarrow> sat s = sat s0 \<and> structuredMetaVariables s = structuredMetaVariables s0 \<and>
     metaValues s = metaValues s0 \<and> literal_to_meta_variable s = literal_to_meta_variable s0 \<and>
     literal_to_unsat s = literal_to_unsat s0 \<and> weights s = weights s0 \<and> solver_net s = solver_net s0 \<and>
     clauses_count_satisfied s = clauses_count_satisfied s0 \<and> satisfiedSum s = satisfiedSum s0 \<and>
     satisfiedCount s = satisfiedCount s0 \<and> coreSize s = coreSize s0 \<and> length (propagated s) = length (propagated s0)"

lemma same_frame_trans: "same_frame a b \<Longrightarrow> same_frame b c \<Longrightarrow> same_frame a c"
  by (simp add: same_frame_def)

lemma same_rest_frame: "same_rest s0 s \<Longrightarrow> same_frame s0 s"
  by (auto simp: same_rest_def same_frame_def)

lemma unlists_frame: "same_frame s (fold (unlist ci) ls s) \<and> propagated (fold (unlist ci) ls s) = propagated s"
proof (induction ls arbitrary: s)
  case (Cons l ls)
  have "same_frame s (unlist ci l s) \<and> propagated (unlist ci l s) = propagated s" by (simp add: unlist_def same_frame_def)
  then show ?case using Cons [of "unlist ci l s"] same_frame_trans by auto
qed (simp add: same_frame_def)

text \<open>One deletion, when the clause has a literal of the assigned variable v.\<close>

lemma delete_clause_inv:
  assumes lists: "lists_ok act V s" "V \<subseteq> {..<length (lc True s)}" "V \<subseteq> {..<length (lc False s)}"
    and c: "c \<in> act" "v \<notin> V" "v \<in> number ` set (literals (clauses s ! c))" "c < length (clauses s)"
    and s': "s' = delete_clause (c, v) s"
  shows "lists_ok act V s'" "length (lc b s') = length (lc b s)" "same_frame s s'" "propagated s' = propagated s"
    "length (clauses s') = length (clauses s)" "x \<noteq> c \<Longrightarrow> clauses s' ! x = clauses s ! x"
    "\<exists>l\<in>set (literals (clauses s ! c)). literals (clauses s' ! c) = [l]"
proof -
  let ?ls = "literals (clauses s ! c)" and ?l = "last (filter (\<lambda>l. number l = v) (literals (clauses s ! c)))"
  let ?s = "fold (unlist c) ?ls s"
  have e: "s' = ?s\<lparr>clauses := (clauses s)[c := (clauses s ! c)\<lparr>literals := [?l]\<rparr>]\<rparr>" by (simp add: s' delete_clause_def Let_def)
  have "filter (\<lambda>l. number l = v) ?ls \<noteq> []" using c(3) by (auto simp: filter_empty_conv)
  then have l: "?l \<in> set ?ls" "number ?l = v" using last_in_set by fastforce+
  have lcs: "lc b s' = lc b ?s" for b by (simp add: e lc_def)
  show "length (lc b s') = length (lc b s)" unfolding lcs by simp
  show "same_frame s s'" "propagated s' = propagated s" using unlists_frame [of s c ?ls] by (simp_all add: e same_frame_def)
  show "length (clauses s') = length (clauses s)" by (simp add: e)
  show "x \<noteq> c \<Longrightarrow> clauses s' ! x = clauses s ! x" by (simp add: e)
  show "\<exists>l\<in>set ?ls. literals (clauses s' ! c) = [l]" using l(1) c(4) by (auto simp: e)
  have "count_list (lc b s' ! w) x = (if x \<in> act then occ w b (clauses s' ! x) else 0)" if w: "w \<in> V" for w x b
  proof -
    have "w < length (lc b s)" using w lists(2,3) by (cases b) auto
    then have n: "count_list (lc b s' ! w) x = count_list (lc b s ! w) x - (if x = c then count_list ?ls \<lparr>number = w, valu = b\<rparr> else 0)"
      unfolding lcs by (rule unlists_count)
    have o: "count_list (lc b s ! w) x = (if x \<in> act then occ w b (clauses s ! x) else 0)" using lists(1) w by (simp add: lists_ok_lc)
    show ?thesis
    proof (cases "x = c")
      case True
      have "occ w b (clauses s' ! c) = 0" using l(2) w c(2,4) by (auto simp: e occ_def literal_eq)
      then show ?thesis using n o True by (simp add: occ_def)
    next
      case False
      then show ?thesis using n o by (simp add: e)
    qed
  qed
  then show "lists_ok act V s'" by (simp add: lists_ok_lc)
qed

definition deletions :: "(nat \<times> nat) list \<Rightarrow> nat set \<Rightarrow> nat set \<Rightarrow> Solver \<Rightarrow> bool" where
  "deletions del act C s \<longleftrightarrow> distinct (map fst del) \<and>
     (\<forall>(c, v)\<in>set del. c \<in> act \<and> v \<in> C \<and> v \<in> number ` set (literals (clauses s ! c)))"

lemma shrunk_refl: "shrunk s s"
  by (simp add: shrunk_def)

lemma shrunk_trans:
  assumes "shrunk a b" "shrunk b c"
  shows "shrunk a c"
proof -
  have l: "length (clauses b) = length (clauses a)" "length (clauses c) = length (clauses b)"
    using assms by (simp_all add: shrunk_def)
  have "set (literals (clauses c ! x)) \<subseteq> set (literals (clauses a ! x)) \<and>
     length (literals (clauses c ! x)) \<le> length (literals (clauses a ! x)) \<and>
     (sorted_wrt lit_le (literals (clauses a ! x)) \<longrightarrow> sorted_wrt lit_le (literals (clauses c ! x)))"
    if x: "x < length (clauses a)" for x
  proof -
    have "set (literals (clauses b ! x)) \<subseteq> set (literals (clauses a ! x)) \<and>
       length (literals (clauses b ! x)) \<le> length (literals (clauses a ! x)) \<and>
       (sorted_wrt lit_le (literals (clauses a ! x)) \<longrightarrow> sorted_wrt lit_le (literals (clauses b ! x)))"
      using assms(1) x by (simp add: shrunk_def)
    moreover have "set (literals (clauses c ! x)) \<subseteq> set (literals (clauses b ! x)) \<and>
       length (literals (clauses c ! x)) \<le> length (literals (clauses b ! x)) \<and>
       (sorted_wrt lit_le (literals (clauses b ! x)) \<longrightarrow> sorted_wrt lit_le (literals (clauses c ! x)))"
      using assms(2) x l by (simp add: shrunk_def)
    ultimately show ?thesis by auto
  qed
  then show ?thesis using l by (simp add: shrunk_def)
qed

lemma delete_clauses_inv:
  assumes V: "V \<inter> C = {}"
  shows "lists_ok act V s \<Longrightarrow> V \<subseteq> {..<length (lc True s)} \<Longrightarrow> V \<subseteq> {..<length (lc False s)} \<Longrightarrow>
    deletions del act C s \<Longrightarrow> act \<subseteq> {..<length (clauses s)} \<Longrightarrow>
    lists_ok act V (fold delete_clause del s) \<and> same_frame s (fold delete_clause del s) \<and>
    propagated (fold delete_clause del s) = propagated s \<and> shrunk s (fold delete_clause del s)"
proof (induction del arbitrary: s)
  case Nil
  then show ?case by (simp add: same_frame_def shrunk_def)
next
  case (Cons a del)
  obtain c v where a: "a = (c, v)" by (cases a)
  let ?s = "delete_clause (c, v) s"
  have D: "c \<in> act" "v \<in> C" "v \<in> number ` set (literals (clauses s ! c))" "c \<notin> fst ` set del"
    using Cons.prems(4) by (auto simp: deletions_def a)
  have v: "v \<notin> V" "c < length (clauses s)" using D(1,2) V Cons.prems(5) by auto
  note K = delete_clause_inv [OF Cons.prems(1-3) D(1) v(1) D(3) v(2) refl]
  obtain l where l: "l \<in> set (literals (clauses s ! c))" "literals (clauses ?s ! c) = [l]" using K(7) by blast
  have "shrunk s ?s" unfolding shrunk_def
  proof (intro conjI allI impI)
    fix x assume x: "x < length (clauses s)"
    show "set (literals (clauses ?s ! x)) \<subseteq> set (literals (clauses s ! x))" using l K(6) by (cases "x = c") auto
    show "length (literals (clauses ?s ! x)) \<le> length (literals (clauses s ! x))"
      using l K(6) length_pos_if_in_set [OF l(1)] by (cases "x = c") (auto simp: Suc_le_eq)
    show "sorted_wrt lit_le (literals (clauses ?s ! x))" if "sorted_wrt lit_le (literals (clauses s ! x))"
      using l K(6) that by (cases "x = c") auto
  qed (rule K(5))
  moreover have "deletions del act C ?s"
    using Cons.prems(4) K(6) D(4) unfolding deletions_def a by fastforce
  then have "lists_ok act V (fold delete_clause del ?s) \<and> same_frame ?s (fold delete_clause del ?s) \<and>
      propagated (fold delete_clause del ?s) = propagated ?s \<and> shrunk ?s (fold delete_clause del ?s)"
    using Cons.prems(2,3,5) K(1,2,5) by (intro Cons.IH) simp_all
  ultimately show ?case using a K(3,4) same_frame_trans shrunk_trans by auto
qed

lemma clear_vars_inv:
  "lists_ok act V s \<Longrightarrow> V \<inter> set vs = {} \<Longrightarrow>
    lists_ok act V (fold clear_var vs s) \<and> same_frame s (fold clear_var vs s) \<and>
    propagated (fold clear_var vs s) = propagated s \<and> clauses (fold clear_var vs s) = clauses s"
proof (induction vs arbitrary: s)
  case (Cons v vs)
  have "lists_ok act V (clear_var v s)" unfolding lists_ok_def
  proof (intro ballI allI)
    fix w c assume w: "w \<in> V"
    then have "w \<noteq> v" using Cons.prems(2) by auto
    then show "count_list (lc_pos (clear_var v s) ! w) c = (if c \<in> act then occ w True (clauses (clear_var v s) ! c) else 0) \<and>
      count_list (lc_neg (clear_var v s) ! w) c = (if c \<in> act then occ w False (clauses (clear_var v s) ! c) else 0)"
      using Cons.prems(1) w by (simp add: clear_var_def lists_ok_def)
  qed
  moreover have "same_frame s (clear_var v s) \<and> propagated (clear_var v s) = propagated s \<and> clauses (clear_var v s) = clauses s"
    by (simp add: clear_var_def same_frame_def)
  ultimately show ?case using Cons.IH [of "clear_var v s"] Cons.prems(2) same_frame_trans by auto
qed (simp add: same_frame_def)

text \<open>The variables that reduce assigns.\<close>

definition unit_vars :: "Solver \<Rightarrow> nat set" where
  "unit_vars s = (case reduce_loop (s, [], [], True) of None \<Rightarrow> {} | Some r \<Rightarrow> cached r)"

lemma reduce_spec:
  assumes act: "act \<subseteq> {..<length (clauses s)}" and lists: "lists_ok act V s"
    and V: "numbers_of s \<subseteq> V" "V \<subseteq> {..<length (lc_pos s)}" "V \<subseteq> {..<length (lc_neg s)}"
  shows "\<exists>s'. reduce s = Some s' \<and> lists_ok act (V - unit_vars s) s' \<and> same_frame s s' \<and> shrunk s s' \<and>
    (\<forall>v. v \<notin> unit_vars s \<longrightarrow> propagated s' ! v = propagated s ! v)"
proof -
  have "\<forall>c<length (clauses s). number ` set (literals (clauses s ! c)) \<subseteq> V" using V(1) by (auto simp: numbers_of_def)
  then obtain r where r: "reduce_loop (s, [], [], True) = Some r" "red_inv act s r"
    using reduce_loop_inv [OF act lists _ red_inv_start] by blast
  obtain s1 cache del changed where e: "r = (s1, cache, del, changed)" by (metis prod_cases4)
  have U: "unit_vars s = set cache" using r(1) e by (simp add: unit_vars_def cached_def)
  have I: "same_rest s s1" "shrunk s s1" "\<forall>v. v \<notin> set cache \<longrightarrow> propagated s1 ! v = propagated s ! v \<and>
        (\<forall>c<length (clauses s). \<forall>b. occ v b (clauses s1 ! c) = occ v b (clauses s ! c))"
    "deletions del act (set cache) s1" using r(2) by (simp_all add: e red_inv_def deletions_def)
  have len: "length (clauses s1) = length (clauses s)" using I(2) by (simp add: shrunk_def)
  have lcs: "lc_pos s1 = lc_pos s" "lc_neg s1 = lc_neg s" using same_rest_lc [OF I(1)] by simp_all
  have "lists_ok act (V - set cache) s1"
    using lists I(3) act unfolding lists_ok_def lcs by auto
  moreover have "(V - set cache) \<inter> set cache = {}" by blast
  ultimately have 2: "lists_ok act (V - set cache) (fold delete_clause del s1) \<and> same_frame s1 (fold delete_clause del s1) \<and>
    propagated (fold delete_clause del s1) = propagated s1 \<and> shrunk s1 (fold delete_clause del s1)"
    using V(2,3) I(4) act len by (intro delete_clauses_inv [where C = "set cache"]) (auto simp: lc_def lcs)
  let ?s = "fold clear_var cache (fold delete_clause del s1)"
  have 3: "lists_ok act (V - set cache) ?s \<and> same_frame (fold delete_clause del s1) ?s \<and>
    propagated ?s = propagated (fold delete_clause del s1) \<and> clauses ?s = clauses (fold delete_clause del s1)"
    using 2 by (intro clear_vars_inv) auto
  have "shrunk (fold delete_clause del s1) ?s" using 3 by (simp add: shrunk_def)
  moreover have "same_frame s ?s" using same_rest_frame [OF I(1)] 2 3 same_frame_trans by blast
  ultimately have "lists_ok act (V - unit_vars s) ?s \<and> same_frame s ?s \<and> shrunk s ?s \<and>
      (\<forall>v. v \<notin> unit_vars s \<longrightarrow> propagated ?s ! v = propagated s ! v)"
    using I(2,3) 2 3 shrunk_trans unfolding U by metis
  moreover have "reduce s = Some ?s" using r(1) by (simp add: reduce_def e)
  ultimately show ?thesis by blast
qed

end
