(* ===== verification/Ls_Construct.thy ===== *)
theory Ls_Construct
  imports Ls_Reduce
begin

text \<open>
  The constructor of HillClimbingSolver establishes the invariant of the search that
  apply_flipped keeps: after loading, unit propagation, the choice of values and the evaluation of
  the net, the lists, counts, flags and sums are those of the assignment.
\<close>

section \<open>Evaluating the net\<close>

lemma Net_compute_from:
  assumes ok: "net_ok n net"
  shows "p \<le> length (finalized net) \<Longrightarrow> length u = n \<Longrightarrow>
    \<forall>q<p. u ! variable (finalized net ! q) = of_bool (node_value u (finalized net ! q)) \<Longrightarrow>
    \<forall>q<length (finalized net). p \<le> q \<longrightarrow> u ! variable (finalized net ! q) = 2 \<Longrightarrow>
    length (Net_compute (drop p (finalized net)) u) = n \<and> consistent net (Net_compute (drop p (finalized net)) u) \<and>
    (\<forall>v. v \<notin> variable ` set (finalized net) \<longrightarrow> Net_compute (drop p (finalized net)) u ! v = u ! v)"
proof (induction "length (finalized net) - p" arbitrary: p u)
  case 0
  then have "p = length (finalized net)" by simp
  moreover have "consistent net u" using 0(4) calculation by (auto simp: consistent_def in_set_conv_nth)
  ultimately show ?case using 0(3) by simp
next
  case (Suc d)
  let ?fin = "finalized net"
  let ?node = "?fin ! p"
  have p: "p < length ?fin" using Suc(2) by simp
  let ?u' = "u[variable ?node := of_bool (Node_propagate u [] ?node)]"
  have N: "scannable n ?node" "variable ?node < n" using net_okD(1,2) [OF ok p] by simp_all
  have e: "Net_compute (drop p ?fin) u = Net_compute (drop (Suc p) ?fin) ?u'"
    using p Suc.prems(4) by (simp add: Cons_nth_drop_Suc [symmetric])
  have val: "Node_propagate u [] ?node = node_value u ?node"
    using Node_propagate_value [of "[]" u ?node] N(1) Suc.prems(2) by simp
  have other: "variable (?fin ! q) \<noteq> variable ?node" if "q < length ?fin" "q \<noteq> p" for q
    using net_okD(6) [OF ok p, of q] that by blast
  have same: "node_value ?u' (?fin ! q) = node_value u (?fin ! q)" if q: "q \<le> p" for q
  proof (rule node_value_cong)
    show "scannable n (?fin ! q)" using net_okD(1) [OF ok] q p by simp
    show "?u' ! number a = u ! number a" if "a \<in> set (args (?fin ! q))" for a
      using net_okD(5) [OF ok _ that p] q p by (metis le_less_trans not_less nth_list_update_neq)
  qed
  have "length (Net_compute (drop (Suc p) ?fin) ?u') = n \<and> consistent net (Net_compute (drop (Suc p) ?fin) ?u') \<and>
    (\<forall>v. v \<notin> variable ` set ?fin \<longrightarrow> Net_compute (drop (Suc p) ?fin) ?u' ! v = ?u' ! v)"
  proof (rule Suc.hyps)
    show "d = length ?fin - Suc p" "Suc p \<le> length ?fin" "length ?u' = n" using Suc(2) p Suc.prems(2) by simp_all
    show "\<forall>q<Suc p. ?u' ! variable (?fin ! q) = of_bool (node_value ?u' (?fin ! q))"
    proof (intro allI impI)
      fix q assume q: "q < Suc p"
      show "?u' ! variable (?fin ! q) = of_bool (node_value ?u' (?fin ! q))"
      proof (cases "q = p")
        case True
        then show ?thesis using val same [of p] N(2) Suc.prems(2) by simp
      next
        case False
        then show ?thesis using same [of q] other [of q] q p Suc.prems(3) by simp
      qed
    qed
    have "?u' ! variable (?fin ! q) = 2" if "q < length ?fin" "Suc p \<le> q" for q
      using other [OF that(1)] that Suc.prems(4) by simp
    then show "\<forall>q<length ?fin. Suc p \<le> q \<longrightarrow> ?u' ! variable (?fin ! q) = 2" by blast
  qed
  moreover have "?u' ! v = u ! v" if "v \<notin> variable ` set ?fin" for v
    using that p by (metis image_eqI nth_list_update_neq nth_mem)
  ultimately show ?case unfolding e by simp
qed

lemma Net_compute_spec:
  assumes "net_ok (length u) net" "\<forall>node\<in>set (finalized net). u ! variable node = 2"
  shows "length (Net_compute (finalized net) u) = length u \<and> consistent net (Net_compute (finalized net) u) \<and>
    (\<forall>v. v \<notin> variable ` set (finalized net) \<longrightarrow> Net_compute (finalized net) u ! v = u ! v)"
  using Net_compute_from [OF assms(1), of 0 u] assms(2) by simp

section \<open>Loading the formula\<close>

lemma list_literal_lc:
  "clauses (list_literal i l s) = clauses s" "length (lc b (list_literal i l s)) = length (lc b s)"
  "v < length (lc b s) \<Longrightarrow> count_list (lc b (list_literal i l s) ! v) c =
     count_list (lc b s ! v) c + of_bool (c = i \<and> l = \<lparr>number = v, valu = b\<rparr>)"
  by (cases "number l = v"; auto simp: list_literal_def lc_def literal_eq)+

lemma list_literals_lc:
  "clauses (fold (list_literal i) ls s) = clauses s \<and> length (lc b (fold (list_literal i) ls s)) = length (lc b s) \<and>
   (v < length (lc b s) \<longrightarrow> count_list (lc b (fold (list_literal i) ls s) ! v) c =
     count_list (lc b s ! v) c + (if c = i then count_list ls \<lparr>number = v, valu = b\<rparr> else 0))"
  by (induction ls arbitrary: s) (auto simp: list_literal_lc)

definition loaded :: "Solver \<Rightarrow> Solver \<Rightarrow> bool" where
  "loaded s0 s \<longleftrightarrow> same_frame s0 (s\<lparr>structuredMetaVariables := structuredMetaVariables s0, metaValues := metaValues s0,
       literal_to_meta_variable := literal_to_meta_variable s0\<rparr>) \<and>
     clauses s = clauses s0 \<and> propagated s = propagated s0 \<and> metaVariables s = metaVariables s0"

lemma loaded_trans: "loaded a b \<Longrightarrow> loaded b c \<Longrightarrow> loaded a c"
  by (simp add: loaded_def same_frame_def)

lemma loaded_refl: "loaded s s"
  by (simp add: loaded_def same_frame_def)

lemma list_literals_loaded: "loaded s (fold (list_literal i) ls s)"
proof (induction ls arbitrary: s)
  case (Cons l ls)
  have "loaded s (list_literal i l s)" by (simp add: loaded_def list_literal_def same_frame_def)
  then show ?case using Cons [of "list_literal i l s"] loaded_trans by auto
qed (simp add: loaded_refl)

lemma list_clause_props:
  assumes "v < length (lc b s)"
  shows "loaded s (list_clause tc i s)" "length (lc b (list_clause tc i s)) = length (lc b s)"
    "count_list (lc b (list_clause tc i s) ! v) c =
       count_list (lc b s ! v) c + (if c = i \<and> i \<in> set tc then occ v b (clauses s ! c) else 0)"
proof -
  let ?s = "s\<lparr>sum_weights := sum_weights s + weights s ! i\<rparr>"
  have l: "lc b ?s = lc b s" "clauses ?s = clauses s" by (simp_all add: lc_def)
  have "loaded s ?s" by (simp add: loaded_def same_frame_def)
  then show "loaded s (list_clause tc i s)"
    using list_literals_loaded [of ?s i] loaded_trans by (auto simp: list_clause_def Let_def)
  note L = list_literals_lc [of i "literals (clauses s ! i)" ?s b v c]
  show "length (lc b (list_clause tc i s)) = length (lc b s)"
    using L l by (simp add: list_clause_def Let_def)
  show "count_list (lc b (list_clause tc i s) ! v) c =
       count_list (lc b s ! v) c + (if c = i \<and> i \<in> set tc then occ v b (clauses s ! c) else 0)"
    using L l assms by (auto simp: list_clause_def Let_def occ_def)
qed

lemma list_clauses_props:
  "v < length (lc b s) \<Longrightarrow> distinct is \<Longrightarrow> loaded s (fold (list_clause tc) is s) \<and>
    length (lc b (fold (list_clause tc) is s)) = length (lc b s) \<and>
    count_list (lc b (fold (list_clause tc) is s) ! v) c =
       count_list (lc b s ! v) c + (if c \<in> set is \<and> c \<in> set tc then occ v b (clauses s ! c) else 0)"
proof (induction "is" arbitrary: s)
  case (Cons i "is")
  let ?s = "list_clause tc i s"
  note K = list_clause_props [OF Cons.prems(1), of tc i]
  have "loaded ?s (fold (list_clause tc) is ?s) \<and> length (lc b (fold (list_clause tc) is ?s)) = length (lc b ?s) \<and>
    count_list (lc b (fold (list_clause tc) is ?s) ! v) c =
       count_list (lc b ?s ! v) c + (if c \<in> set is \<and> c \<in> set tc then occ v b (clauses ?s ! c) else 0)"
    using Cons.prems K(2) by (intro Cons.IH) simp_all
  moreover have "clauses ?s = clauses s" using K(1) by (simp add: loaded_def)
  ultimately show ?case using K Cons.prems(2) loaded_trans [OF K(1)] by auto
qed (simp add: loaded_refl)

lemma place_metas_loaded: "loaded s (fold place_meta mvs s) \<and> lc b (fold place_meta mvs s) = lc b s"
proof (induction mvs arbitrary: s)
  case (Cons a mvs)
  have "loaded s (place_meta a s) \<and> lc b (place_meta a s) = lc b s"
    by (simp add: place_meta_def loaded_def same_frame_def lc_def Let_def split: prod.splits)
  then show ?case using Cons [of "place_meta a s"] loaded_trans by auto
qed (simp add: loaded_refl)

lemma load_props:
  fixes cnf :: CNF
  assumes "set (toCompute cnf) \<subseteq> {..<length (cnf_clauses cnf)}"
  shows "loaded (Solver_init cnf) (load cnf)" "length (lc b (load cnf)) = literalCount cnf + 1"
    "lists_ok (set (toCompute cnf)) {..<literalCount cnf + 1} (load cnf)"
proof -
  let ?s0 = "Solver_init cnf" and ?tc = "toCompute cnf"
  let ?s1 = "fold (list_clause ?tc) [0..<length (clauses ?s0)] ?s0"
  have init: "length (lc b ?s0) = literalCount cnf + 1" "v < literalCount cnf + 1 \<Longrightarrow> lc b ?s0 ! v = []"
    "clauses ?s0 = cnf_clauses cnf" for b v
    by (simp_all add: Solver_init_def lc_def Let_def nth_Cons')
  have L: "v < literalCount cnf + 1 \<Longrightarrow> loaded ?s0 ?s1 \<and> length (lc b ?s1) = literalCount cnf + 1 \<and>
    count_list (lc b ?s1 ! v) c = (if c < length (cnf_clauses cnf) \<and> c \<in> set ?tc then occ v b (cnf_clauses cnf ! c) else 0)" for v b c
    using list_clauses_props [of v b ?s0 "[0..<length (clauses ?s0)]" ?tc c] init by simp
  have e: "load cnf = fold place_meta (List.enumerate 0 (metaVariables ?s1)) ?s1" by (simp add: load_def Let_def)
  note P = place_metas_loaded [of ?s1 "List.enumerate 0 (metaVariables ?s1)"]
  show l: "loaded ?s0 (load cnf)" unfolding e
    using loaded_trans [OF _ conjunct1 [OF P]] L [of 0] by simp
  show "length (lc b (load cnf)) = literalCount cnf + 1" using L [of 0 b] P [of b] unfolding e by simp
  have cl: "clauses (load cnf) = cnf_clauses cnf" using l init(3) by (simp add: loaded_def)
  have "lc b (load cnf) = lc b ?s1" for b using P [of b] unfolding e by simp
  then show "lists_ok (set ?tc) {..<literalCount cnf + 1} (load cnf)"
    using L assms unfolding lists_ok_lc cl by auto
qed

section \<open>Metavariables\<close>

definition meta_numbers :: "Solver \<Rightarrow> nat set" where
  "meta_numbers s = (\<Union>mv\<in>set (metaVariables s). \<Union>ls\<in>set (mv_variables mv). number ` set ls)"

lemma restrict_meta_sub: "set (mv_variables (restrict_meta l mv)) \<subseteq> set (mv_variables mv)"
  by (auto simp: restrict_meta_def Let_def dest: set_zip_leftD)

lemma meta_numbers_update:
  "meta_numbers (s\<lparr>metaVariables := (metaVariables s)[m := restrict_meta l (metaVariables s ! m)]\<rparr>) \<subseteq> meta_numbers s"
proof (cases "m < length (metaVariables s)")
  case True
  have "set ((metaVariables s)[m := restrict_meta l (metaVariables s ! m)]) \<subseteq>
      insert (restrict_meta l (metaVariables s ! m)) (set (metaVariables s))" by (rule set_update_subset_insert)
  then show ?thesis using restrict_meta_sub [of l "metaVariables s ! m"] nth_mem [OF True]
    by (simp add: meta_numbers_def) blast
qed (simp add: meta_numbers_def list_update_beyond)

lemma reduce_unit_metas: "meta_numbers (fst (reduce_unit l r)) \<subseteq> meta_numbers (fst r)"
proof -
  obtain s cache del ch where r: "r = (s, cache, del, ch)" by (metis prod_cases4)
  have m: "meta_numbers (s\<lparr>propagated := x\<rparr>) = meta_numbers s" "meta_numbers (s\<lparr>clauses := cs\<rparr>) = meta_numbers s"
    for s :: Solver and x cs by (simp_all add: meta_numbers_def)
  show ?thesis
  proof (cases "literal_to_meta_variable s ! number l")
    case (Some i)
    have "meta_numbers (fst (reduce_unit l r)) =
        meta_numbers (s\<lparr>metaVariables := (metaVariables s)[i := restrict_meta l (metaVariables s ! i)]\<rparr>)"
      using Some by (simp add: reduce_unit_def r Let_def meta_numbers_def)
    then show ?thesis using meta_numbers_update [of s i l] by (simp add: r)
  qed (simp add: reduce_unit_def r Let_def meta_numbers_def)
qed

lemma reduce_clauses_metas: "meta_numbers (fst (fold reduce_clause ids r)) \<subseteq> meta_numbers (fst r)"
proof (induction ids arbitrary: r)
  case (Cons ci ids)
  have "meta_numbers (fst (reduce_clause ci r)) \<subseteq> meta_numbers (fst r)"
    using reduce_unit_metas [of _ r] by (simp add: reduce_clause_def Let_def)
  then show ?case using Cons [of "reduce_clause ci r"] by auto
qed simp

lemma reduce_loop_metas: "reduce_loop r = Some r' \<Longrightarrow> meta_numbers (fst r') \<subseteq> meta_numbers (fst r)"
proof (induction rule: reduce_loop.raw_induct [rotated, consumes 1, case_names 1])
  case (1 loop r r')
  obtain s cache del ch where r: "r = (s, cache, del, ch)" by (metis prod_cases4)
  show ?case
  proof (cases ch)
    case True
    then have "loop (reduce_round r) = Some r'" using 1(2) r by simp
    then have "meta_numbers (fst r') \<subseteq> meta_numbers (fst (reduce_round r))" by (rule 1(1))
    then show ?thesis using reduce_clauses_metas [of _ "(s, cache, del, False)"] by (force simp: reduce_round_def r)
  next
    case False
    then show ?thesis using 1(2) r by simp
  qed
qed

lemma deletions_metas:
  "metaVariables (fold (unlist ci) ls s) = metaVariables s" "metaVariables (fold delete_clause del s) = metaVariables s"
  "metaVariables (fold clear_var vs s) = metaVariables s"
proof -
  show u: "metaVariables (fold (unlist ci) ls s) = metaVariables s" for ci ls s
    by (induction ls arbitrary: s) (simp_all add: unlist_def)
  have "metaVariables (delete_clause a s) = metaVariables s" for a s
    by (cases a) (simp add: delete_clause_def Let_def u)
  then show "metaVariables (fold delete_clause del s) = metaVariables s" by (induction del arbitrary: s) simp_all
  show "metaVariables (fold clear_var vs s) = metaVariables s"
    by (induction vs arbitrary: s) (simp_all add: clear_var_def)
qed

lemma reduce_metas: "reduce s = Some s' \<Longrightarrow> meta_numbers s' \<subseteq> meta_numbers s"
proof -
  assume "reduce s = Some s'"
  then obtain s1 cache del ch where r: "reduce_loop (s, [], [], True) = Some (s1, cache, del, ch)"
    "s' = fold clear_var cache (fold delete_clause del s1)" by (auto simp: reduce_def)
  have "meta_numbers s' = meta_numbers s1" by (simp add: meta_numbers_def r(2) deletions_metas)
  then show "meta_numbers s' \<subseteq> meta_numbers s" using reduce_loop_metas [OF r(1)] by simp
qed

text \<open>What the choice of values and the first assignment leave alone.\<close>

definition same_search :: "Solver \<Rightarrow> Solver \<Rightarrow> bool" where
  "same_search s0 s \<longleftrightarrow> (\<exists>st vs pr. s = s0\<lparr>structuredMetaVariables := st, metaValues := vs, propagated := pr\<rparr> \<and>
     length pr = length (propagated s0))"

lemma same_search_upd:
  "length pr = length (propagated s) \<Longrightarrow> same_search s (s\<lparr>metaValues := vs, structuredMetaVariables := st, propagated := pr\<rparr>)"
  unfolding same_search_def by (intro exI [of _ st] exI [of _ vs] exI [of _ pr]) simp

lemma same_search_refl: "same_search s s"
  unfolding same_search_def
  by (rule exI [of _ "structuredMetaVariables s"], rule exI [of _ "metaValues s"], rule exI [of _ "propagated s"]) simp

lemma same_search_trans: "same_search a b \<Longrightarrow> same_search b c \<Longrightarrow> same_search a c"
proof -
  assume "same_search a b" "same_search b c"
  then obtain st vs pr st' vs' pr' where "b = a\<lparr>structuredMetaVariables := st, metaValues := vs, propagated := pr\<rparr>"
    "length pr = length (propagated a)" "c = b\<lparr>structuredMetaVariables := st', metaValues := vs', propagated := pr'\<rparr>"
    "length pr' = length (propagated b)" by (auto simp: same_search_def)
  then show "same_search a c" unfolding same_search_def
    by (intro exI [of _ st'] exI [of _ vs'] exI [of _ pr']) simp
qed

lemma assign_literals_nth: "length (fold assign_literal ls u) = length u \<and>
    (v \<notin> number ` set ls \<longrightarrow> fold assign_literal ls u ! v = u ! v)"
  by (induction ls arbitrary: u) (auto simp: assign_literal_def)

lemma choose_metas_spec:
  "\<forall>(i, mv)\<in>set mvs. mv_variables mv \<noteq> [] \<and> (\<forall>ls\<in>set (mv_variables mv). number ` set ls \<subseteq> M) \<Longrightarrow>
    \<exists>s'. choose_metas rnd mvs s = Some s' \<and> same_search s s' \<and> (\<forall>v. v \<notin> M \<longrightarrow> propagated s' ! v = propagated s ! v)"
proof (induction rnd mvs s rule: choose_metas.induct)
  case (2 rnd i mv mvs s)
  let ?meta = "rnd i mod length (mv_variables mv)"
  let ?pr = "fold assign_literal (mv_variables mv ! ?meta) (propagated s)"
  let ?s = "s\<lparr>metaValues := upd3 (matrixIndex mv) (rowIndex mv) (columnIndex mv) (\<lambda>_. mv_values mv ! ?meta) (metaValues s),
    structuredMetaVariables := upd3 (matrixIndex mv) (rowIndex mv) (columnIndex mv) (\<lambda>_. Some i) (structuredMetaVariables s),
    propagated := ?pr\<rparr>"
  have ne: "mv_variables mv \<noteq> []" "number ` set (mv_variables mv ! ?meta) \<subseteq> M"
    using 2(2) nth_mem [of ?meta "mv_variables mv"] by auto
  have pr: "length ?pr = length (propagated s)" "\<forall>v. v \<notin> M \<longrightarrow> ?pr ! v = propagated s ! v"
    using assign_literals_nth ne(2) by (metis, metis subsetD)
  obtain s' where s': "choose_metas rnd mvs ?s = Some s'" "same_search ?s s'" "\<forall>v. v \<notin> M \<longrightarrow> propagated s' ! v = propagated ?s ! v"
    using 2(1) [OF ne(1) refl] 2(2) by auto
  have "same_search s s'" using same_search_trans [OF same_search_upd [OF pr(1)] s'(2)] .
  moreover have "choose_metas rnd ((i, mv) # mvs) s = Some s'" using ne(1) s'(1) by (simp add: Let_def)
  ultimately show ?case using s'(3) pr(2) by simp
qed (simp add: same_search_refl)

lemma choose_metas_None: "(i, mv) \<in> set mvs \<Longrightarrow> mv_variables mv = [] \<Longrightarrow> choose_metas rnd mvs s = None"
  by (induction rnd mvs s rule: choose_metas.induct) (auto simp: Let_def)

lemma take_first_search:
  "same_search s (take_first first i s) \<and> (v \<noteq> i \<longrightarrow> propagated (take_first first i s) ! v = propagated s ! v)"
proof -
  have "\<exists>vs. take_first first i s = s\<lparr>metaValues := vs, structuredMetaVariables := structuredMetaVariables s,
      propagated := (propagated s)[i := first ! i]\<rparr>"
  proof (cases "literal_to_meta_variable s ! i")
    case None
    then show ?thesis by (intro exI [of _ "metaValues s"]) (simp add: take_first_def)
  next
    case (Some m)
    let ?mv = "metaVariables s ! m"
    show ?thesis
    proof (cases "first ! i = 0")
      case True
      then show ?thesis using Some by (intro exI [of _ "metaValues s"]) (simp add: take_first_def)
    next
      case False
      show ?thesis
      proof (cases "value_of i (mv_variables ?mv) (mv_values ?mv)")
        case None
        then show ?thesis using Some False by (intro exI [of _ "metaValues s"]) (simp add: take_first_def)
      next
        case (Some val)
        then show ?thesis using \<open>literal_to_meta_variable s ! i = Some m\<close> False
          by (intro exI [of _ "upd3 (matrixIndex ?mv) (rowIndex ?mv) (columnIndex ?mv) (\<lambda>_. val) (metaValues s)"])
            (simp add: take_first_def Let_def)
      qed
    qed
  qed
  then obtain vs where e: "take_first first i s = s\<lparr>metaValues := vs, structuredMetaVariables := structuredMetaVariables s,
      propagated := (propagated s)[i := first ! i]\<rparr>" by blast
  have "same_search s (take_first first i s)" unfolding e by (rule same_search_upd) simp
  then show ?thesis by (simp add: e)
qed

lemma take_firsts_search:
  "same_search s (fold (take_first first) is s) \<and> (v \<notin> set is \<longrightarrow> propagated (fold (take_first first) is s) ! v = propagated s ! v)"
proof (induction "is" arbitrary: s)
  case (Cons i "is")
  then show ?case using take_first_search [of s first i v] Cons [of "take_first first i s"] same_search_trans by auto
qed (simp add: same_search_refl)

section \<open>Counting\<close>

text \<open>The state after the first i clauses are counted; s0 is the state before.\<close>

definition counted :: "nat list \<Rightarrow> Solver \<Rightarrow> nat \<Rightarrow> Solver \<Rightarrow> bool" where
  "counted tc s0 i s \<longleftrightarrow>
     map literals (clauses s) = map literals (clauses s0) \<and> propagated s = propagated s0 \<and> weights s = weights s0 \<and>
     solver_net s = solver_net s0 \<and> lc_pos s = lc_pos s0 \<and> lc_neg s = lc_neg s0 \<and>
     length (sat s) = length (clauses s0) \<and> length (clauses_count_satisfied s) = length (clauses s0) \<and>
     length (literal_to_unsat s) = length (literal_to_unsat s0) \<and>
     (\<forall>c<i. clauses_count_satisfied s ! c = of_nat (Clause_propagate (propagated s0) (clauses s0 ! c)) \<and>
        sat s ! c = (Clause_propagate (propagated s0) (clauses s0 ! c) > 0 \<or> c \<notin> set tc)) \<and>
     (\<forall>c. i \<le> c \<and> c < length (clauses s0) \<longrightarrow> \<not> sat s ! c) \<and>
     satisfiedSum s = (\<Sum>c<i. if sat s ! c then weights s0 ! c else 0) \<and>
     satisfiedCount s = (\<Sum>c<i. if sat s ! c then 1 else 0) \<and>
     (\<forall>v<length (literal_to_unsat s0). literal_to_unsat s ! v =
        (\<Sum>c<i. if sat s ! c then 0 else of_nat (occurs v (clauses s0 ! c))))"

lemma propagateSat_pair: "Clause_propagateSat units c = (fst (Clause_propagateSat units c), Clause_propagate units c)"
  by (rule prod_eqI) (simp_all add: Clause_propagateSat_spec Clause_propagate_filter)

lemma count_clause_step:
  assumes m: "counted tc s0 i s" and i: "i < length (clauses s0)"
  shows "counted tc s0 (Suc i) (count_clause tc i s)"
proof -
  have M: "map literals (clauses s) = map literals (clauses s0)" "propagated s = propagated s0" "weights s = weights s0"
    "solver_net s = solver_net s0" "lc_pos s = lc_pos s0" "lc_neg s = lc_neg s0"
    "length (sat s) = length (clauses s0)" "length (clauses_count_satisfied s) = length (clauses s0)"
    "length (literal_to_unsat s) = length (literal_to_unsat s0)"
    "\<forall>c<i. clauses_count_satisfied s ! c = of_nat (Clause_propagate (propagated s0) (clauses s0 ! c)) \<and>
        sat s ! c = (Clause_propagate (propagated s0) (clauses s0 ! c) > 0 \<or> c \<notin> set tc)"
    "\<forall>c. i \<le> c \<and> c < length (clauses s0) \<longrightarrow> \<not> sat s ! c"
    "satisfiedSum s = (\<Sum>c<i. if sat s ! c then weights s0 ! c else 0)"
    "satisfiedCount s = (\<Sum>c<i. if sat s ! c then 1 else 0)"
    "\<forall>v<length (literal_to_unsat s0). literal_to_unsat s ! v = (\<Sum>c<i. if sat s ! c then 0 else of_nat (occurs v (clauses s0 ! c)))"
    using m by (simp_all add: counted_def)
  let ?n = "Clause_propagate (propagated s0) (clauses s0 ! i)" and ?c = "fst (Clause_propagateSat (propagated s) (clauses s ! i))"
  let ?t = "?n > 0 \<or> i \<notin> set tc" and ?s = "count_clause tc i s"
  have len: "length (clauses s) = length (clauses s0)" using M(1) map_eq_imp_length_eq by blast
  have lit: "literals (clauses s ! i) = literals (clauses s0 ! i)" using M(1) i len by (metis nth_map)
  have n: "Clause_propagate (propagated s) (clauses s ! i) = ?n" by (simp add: Clause_propagate_filter M(2) lit)
  have e: "?s = (let s = s\<lparr>clauses := (clauses s)[i := ?c], clauses_count_satisfied := (clauses_count_satisfied s)[i := of_nat ?n]\<rparr>
      in if ?t then s\<lparr>sat := (sat s)[i := True], satisfiedSum := satisfiedSum s + weights s ! i, satisfiedCount := satisfiedCount s + 1\<rparr>
         else s\<lparr>literal_to_unsat := bump 1 ?c (literal_to_unsat s)\<rparr>)"
    unfolding count_clause_def by (subst propagateSat_pair) (simp only: n Let_def prod.case)
  have lits: "map literals (clauses ?s) = map literals (clauses s0)"
  proof (rule nth_equalityI)
    show "length (map literals (clauses ?s)) = length (map literals (clauses s0))" using len by (simp add: e Let_def)
    fix x assume "x < length (map literals (clauses ?s))"
    then have x: "x < length (clauses s0)" using len by (simp add: e Let_def split: if_splits)
    have "literals (clauses s ! x) = literals (clauses s0 ! x)" using M(1) x len by (metis nth_map)
    then show "map literals (clauses ?s) ! x = map literals (clauses s0) ! x"
      using x len lit by (cases "x = i") (simp_all add: e Let_def)
  qed
  have sat: "sat ?s = (sat s)[i := ?t]" 
  proof (cases ?t)
    case False
    have "\<not> sat s ! i" using M(11) i by simp
    then have "(sat s)[i := False] = sat s" using list_update_same_conv [of i "sat s"] i M(7) by simp
    then show ?thesis using False by (simp add: e Let_def)
  qed (simp add: e Let_def)
  have sat_i: "sat ?s ! i = ?t" "\<And>c. c \<noteq> i \<Longrightarrow> sat ?s ! c = sat s ! c" using i M(7) by (simp_all add: sat)
  have cut: "(\<Sum>c<Suc i. if sat ?s ! c then g c else h c) = (\<Sum>c<i. if sat s ! c then g c else h c) + (if ?t then g i else h i)"
    for g h :: "nat \<Rightarrow> 32 word"
  proof -
    have "(\<Sum>c<i. if sat ?s ! c then g c else h c) = (\<Sum>c<i. if sat s ! c then g c else h c)"
      by (rule sum.cong) (simp_all add: sat_i(2))
    then show ?thesis by (simp add: sat_i(1))
  qed
  have counts: "clauses_count_satisfied ?s = (clauses_count_satisfied s)[i := of_nat ?n]" by (simp add: e Let_def)
  have "satisfiedSum ?s = (\<Sum>c<Suc i. if sat ?s ! c then weights s0 ! c else 0)"
    unfolding cut by (simp add: e Let_def M(3,12))
  moreover have "satisfiedCount ?s = (\<Sum>c<Suc i. if sat ?s ! c then 1 else 0)"
    unfolding cut by (simp add: e Let_def M(13))
  moreover have "literal_to_unsat ?s ! v = (\<Sum>c<Suc i. if sat ?s ! c then 0 else of_nat (occurs v (clauses s0 ! c)))"
    if v: "v < length (literal_to_unsat s0)" for v
  proof -
    have "occurs v ?c = occurs v (clauses s0 ! i)" by (rule occurs_literals) (simp add: lit)
    then show ?thesis unfolding cut using v M(9,14) by (simp add: e Let_def bump_nth)
  qed
  moreover have "clauses_count_satisfied ?s ! c = of_nat (Clause_propagate (propagated s0) (clauses s0 ! c)) \<and>
        sat ?s ! c = (Clause_propagate (propagated s0) (clauses s0 ! c) > 0 \<or> c \<notin> set tc)" if "c < Suc i" for c
    using that M(8,10) sat_i i by (cases "c = i") (simp_all add: counts)
  moreover have "propagated ?s = propagated s0" "weights ?s = weights s0" "solver_net ?s = solver_net s0" "lc_pos ?s = lc_pos s0"
    "lc_neg ?s = lc_neg s0" "length (literal_to_unsat ?s) = length (literal_to_unsat s0)"
    using M(2-6,9) by (simp_all add: e Let_def)
  moreover have "length (sat ?s) = length (clauses s0)" "length (clauses_count_satisfied ?s) = length (clauses s0)"
    using M(7,8) by (simp_all add: sat counts)
  moreover have "\<forall>c. Suc i \<le> c \<and> c < length (clauses s0) \<longrightarrow> \<not> sat ?s ! c" using M(11) sat_i(2) by simp
  ultimately show ?thesis using lits unfolding counted_def by blast
qed

lemma count_clauses:
  "counted tc s0 0 s \<Longrightarrow> n \<le> length (clauses s0) \<Longrightarrow> counted tc s0 n (fold (count_clause tc) [0..<n] s)"
  by (induction n) (simp_all add: count_clause_step)

lemma counted_totals:
  assumes "counted tc s0 (length (clauses s0)) s" "set tc \<subseteq> {..<length (clauses s0)}"
  shows "totals_ok (set tc) s"
proof -
  have l: "map literals (clauses s) = map literals (clauses s0)" "propagated s = propagated s0" "weights s = weights s0"
    "length (literal_to_unsat s) = length (literal_to_unsat s0)"
    using assms(1) by (simp_all add: counted_def)
  have len: "length (clauses s) = length (clauses s0)" using l(1) map_eq_imp_length_eq by blast
  have lit: "literals (clauses s ! c) = literals (clauses s0 ! c)" if "c < length (clauses s0)" for c
    using l(1) that len by (metis nth_map)
  have occ: "occurs v (clauses s ! c) = occurs v (clauses s0 ! c)" if "c < length (clauses s0)" for v c
    by (rule occurs_literals) (rule lit [OF that])
  have same: "Clause_propagate u (clauses s ! c) = Clause_propagate u (clauses s0 ! c)" if "c < length (clauses s0)" for u c
    using lit [OF that] by (simp add: Clause_propagate_filter)
  show ?thesis unfolding totals_ok_def l(2-4) len
  proof (intro conjI ballI allI impI)
    fix c assume c: "c \<in> set tc"
    then have "c < length (clauses s0)" using assms(2) by blast
    then show "clauses_count_satisfied s ! c = of_nat (Clause_propagate (propagated s0) (clauses s ! c))"
      "sat s ! c = (0 < Clause_propagate (propagated s0) (clauses s ! c))"
      using assms(1) c same by (simp_all add: counted_def)
  next
    show "satisfiedSum s = (\<Sum>c<length (clauses s0). if sat s ! c then weights s0 ! c else 0)"
      "satisfiedCount s = (\<Sum>c<length (clauses s0). if sat s ! c then 1 else 0)"
      using assms(1) by (simp_all add: counted_def)
    fix v assume "v < length (literal_to_unsat s0)"
    then have "literal_to_unsat s ! v = (\<Sum>c<length (clauses s0). if sat s ! c then 0 else of_nat (occurs v (clauses s0 ! c)))"
      using assms(1) by (simp add: counted_def)
    also have "\<dots> = (\<Sum>c<length (clauses s0). if sat s ! c then 0 else of_nat (occurs v (clauses s ! c)))"
      using occ by (intro sum.cong) auto
    finally show "literal_to_unsat s ! v = (\<Sum>c<length (clauses s0). if sat s ! c then 0 else of_nat (occurs v (clauses s ! c)))" .
  qed
qed

section \<open>The constructor\<close>

text \<open>
  formula_ok: the numbers are in range, the clauses that count are sorted, the net is finalized,
  and no gate is a core variable, a value of a metavariable or assigned by a unit clause.
\<close>

definition formula_ok :: "CNF \<Rightarrow> bool" where
  "formula_ok cnf \<longleftrightarrow> set (toCompute cnf) \<subseteq> {..<length (cnf_clauses cnf)} \<and>
     (\<forall>c<length (cnf_clauses cnf). sorted_wrt lit_le (literals (cnf_clauses cnf ! c)) \<and>
        length (literals (cnf_clauses cnf ! c)) < 2 ^ 32 \<and>
        (\<forall>l\<in>set (literals (cnf_clauses cnf ! c)). number l \<le> literalCount cnf)) \<and>
     net_ok (literalCount cnf + 1) (cnf_net cnf) \<and>
     (\<forall>node\<in>set (finalized (cnf_net cnf)). length (coreVariables cnf) < variable node \<and>
        variable node \<notin> meta_numbers (load cnf) \<and> variable node \<notin> unit_vars (load cnf))"

text \<open>The variables that may be flipped: those with a value that no unit clause has assigned.\<close>

definition live_vars :: "CNF \<Rightarrow> Solver \<Rightarrow> nat set" where
  "live_vars cnf s = {v. v \<le> literalCount cnf \<and> v \<notin> unit_vars (load cnf) \<and> propagated s ! v \<le> 1}"

lemma enumerate_sets: "(i, x) \<in> set (List.enumerate k xs) \<Longrightarrow> x \<in> set xs"
  by (metis in_set_conv_nth length_enumerate nth_enumerate_eq snd_conv)

text \<open>The constructor after reduce and the choice of values.\<close>

definition evaluate :: "CNF \<Rightarrow> nat list \<Rightarrow> Solver \<Rightarrow> Solver" where
  "evaluate cnf first s =
     (let s = (if first \<noteq> [] then fold (take_first first) [1..<coreSize s + 1] s else s);
          s = s\<lparr>propagated := Net_compute (finalized (solver_net s)) (propagated s)\<rparr>
      in fold (count_clause (toCompute cnf)) [0..<length (clauses s)] s)"

lemma HillClimbingSolver_eq:
  "HillClimbingSolver rnd cnf first = (case reduce (load cnf) of None \<Rightarrow> None
     | Some s \<Rightarrow>
         let s = s\<lparr>metaValues := fold first_row [0..<length (metaValues s)] (metaValues s)\<rparr>
         in map_option (evaluate cnf first) (choose_metas rnd (List.enumerate 0 (metaVariables s)) s))"
  by (simp add: HillClimbingSolver_def evaluate_def Let_def split: option.splits)

lemma evaluate_ok:
  assumes f: "formula_ok cnf" and s1: "lists_ok (set (toCompute cnf)) ({..<literalCount cnf + 1} - unit_vars (load cnf)) s1"
    "same_frame (load cnf) s1" "shrunk (load cnf) s1"
    and s2: "same_search s1 s2" "\<forall>node\<in>set (finalized (cnf_net cnf)). propagated s2 ! variable node = 2"
  shows "solver_ok (set (toCompute cnf)) (live_vars cnf (evaluate cnf first s2)) (evaluate cnf first s2)"
proof -
  let ?tc = "toCompute cnf" and ?n = "literalCount cnf + 1" and ?net = "cnf_net cnf"
  have F: "set ?tc \<subseteq> {..<length (cnf_clauses cnf)}" "net_ok ?n ?net"
    "\<forall>node\<in>set (finalized ?net). length (coreVariables cnf) < variable node"
    "\<forall>node\<in>set (finalized ?net). variable node \<notin> unit_vars (load cnf)"
    "\<And>c. c < length (cnf_clauses cnf) \<Longrightarrow> sorted_wrt lit_le (literals (cnf_clauses cnf ! c)) \<and>
        length (literals (cnf_clauses cnf ! c)) < 2 ^ 32 \<and> (\<forall>l\<in>set (literals (cnf_clauses cnf ! c)). number l \<le> literalCount cnf)"
    using f by (simp_all add: formula_ok_def)
  have L: "loaded (Solver_init cnf) (load cnf)" by (rule load_props(1) [OF F(1)])
  have init: "length (propagated (load cnf)) = ?n" "clauses (load cnf) = cnf_clauses cnf" "solver_net s1 = ?net"
    "length (propagated s1) = ?n" "coreSize s1 = length (coreVariables cnf)" "length (clauses s1) = length (cnf_clauses cnf)"
    "length (sat s1) = length (cnf_clauses cnf)" "length (clauses_count_satisfied s1) = length (cnf_clauses cnf)"
    "sat s1 = replicate (length (cnf_clauses cnf)) False" "satisfiedSum s1 = 0" "satisfiedCount s1 = 0"
    "literal_to_unsat s1 = replicate ?n 0"
    using L s1(2,3) by (simp_all add: loaded_def same_frame_def Solver_init_def Let_def shrunk_def del: replicate_Suc)
  let ?s3 = "if first \<noteq> [] then fold (take_first first) [1..<coreSize s2 + 1] s2 else s2"
  let ?pr = "Net_compute (finalized (solver_net ?s3)) (propagated ?s3)"
  let ?s4 = "?s3\<lparr>propagated := ?pr\<rparr>"
  let ?s = "evaluate cnf first s2"
  have 23: "same_search s2 ?s3 \<and> (\<forall>v. v \<notin> set [1..<coreSize s2 + 1] \<longrightarrow> propagated ?s3 ! v = propagated s2 ! v)"
    using take_firsts_search [of s2 first "[1..<coreSize s2 + 1]"] same_search_refl [of s2] by simp
  have S: "same_search s1 ?s3" using same_search_trans [OF s2(1)] 23 by blast
  have s3: "solver_net ?s3 = ?net" "length (propagated ?s3) = ?n" using S init by (auto simp: same_search_def)
  have core: "coreSize s2 = length (coreVariables cnf)" using s2(1) init by (auto simp: same_search_def)
  have "\<forall>node\<in>set (finalized ?net). propagated ?s3 ! variable node = 2"
    using s2(2) 23 F(3) core by (auto simp: atLeastLessThan_iff)
  then have N: "length ?pr = ?n" "consistent ?net ?pr"
    using Net_compute_spec [of "propagated ?s3" ?net] F(2) s3 by simp_all
  have same4: "clauses ?s4 = clauses s1" "lc_pos ?s4 = lc_pos s1" "lc_neg ?s4 = lc_neg s1" "sat ?s4 = sat s1"
    "clauses_count_satisfied ?s4 = clauses_count_satisfied s1" "literal_to_unsat ?s4 = literal_to_unsat s1"
    "satisfiedSum ?s4 = 0" "satisfiedCount ?s4 = 0" "solver_net ?s4 = ?net"
    using S init by (auto simp: same_search_def)
  have "counted ?tc ?s4 0 ?s4" using same4 init unfolding counted_def by (simp add: nth_Cons')
  then have C: "counted ?tc ?s4 (length (clauses ?s4)) ?s"
    using count_clauses [of ?tc ?s4 ?s4 "length (clauses ?s4)"] by (simp add: evaluate_def Let_def)
  have tot: "totals_ok (set ?tc) ?s" using counted_totals [OF C] F(1) same4(1) init(6) by simp
  have R: "map literals (clauses ?s) = map literals (clauses s1)" "propagated ?s = ?pr" "solver_net ?s = ?net"
    "lc_pos ?s = lc_pos s1" "lc_neg ?s = lc_neg s1" "length (sat ?s) = length (cnf_clauses cnf)"
    "length (clauses_count_satisfied ?s) = length (cnf_clauses cnf)"
    using C same4 init(6) by (simp_all add: counted_def)
  have len: "length (clauses ?s) = length (cnf_clauses cnf)" using R(1) init(6) map_eq_imp_length_eq by metis
  have lit: "literals (clauses ?s ! c) = literals (clauses s1 ! c)" if "c < length (cnf_clauses cnf)" for c
    using R(1) that len init(6) by (metis nth_map)
  have cl: "clauses_ok (set ?tc) ?s"
    unfolding clauses_ok_def R(2) N(1) len R(6,7)
  proof (intro conjI ballI)
    fix c assume "c \<in> set ?tc"
    then have c: "c < length (cnf_clauses cnf)" using F(1) by blast
    have sh: "set (literals (clauses s1 ! c)) \<subseteq> set (literals (cnf_clauses cnf ! c))"
      "length (literals (clauses s1 ! c)) \<le> length (literals (cnf_clauses cnf ! c))"
      "sorted_wrt lit_le (literals (cnf_clauses cnf ! c)) \<Longrightarrow> sorted_wrt lit_le (literals (clauses s1 ! c))"
      using s1(3) c init(2) by (simp_all add: shrunk_def)
    show "sorted_wrt lit_le (literals (clauses ?s ! c))" "length (literals (clauses ?s ! c)) < 2 ^ 32"
      using lit [OF c] sh F(5) [OF c] by simp_all
    fix l assume "l \<in> set (literals (clauses ?s ! c))"
    then show "number l < ?n" using lit [OF c] sh(1) F(5) [OF c] by fastforce
  qed (use F(1) in simp_all)
  have "index_ok (set ?tc) (live_vars cnf ?s) ?s" unfolding index_ok_def
  proof
    fix v assume v: "v \<in> live_vars cnf ?s"
    then have w: "v \<in> {..<?n} - unit_vars (load cnf)" "propagated ?s ! v \<le> 1" by (auto simp: live_vars_def)
    have "count_list (lc_pos s1 ! v) c = (if c \<in> set ?tc then occ v True (clauses s1 ! c) else 0) \<and>
        count_list (lc_neg s1 ! v) c = (if c \<in> set ?tc then occ v False (clauses s1 ! c) else 0)" for c
      using s1(1) w(1) unfolding lists_ok_def by blast
    moreover have "occ v b (clauses ?s ! c) = occ v b (clauses s1 ! c)" if "c \<in> set ?tc" for b c
      using lit [of c] that F(1) by (auto simp: occ_def)
    ultimately show "v < length (propagated ?s) \<and> propagated ?s ! v \<le> 1 \<and>
      (\<forall>c. count_list (lc_pos ?s ! v) c = (if c \<in> set ?tc then occ v True (clauses ?s ! c) else 0) \<and>
        count_list (lc_neg ?s ! v) c = (if c \<in> set ?tc then occ v False (clauses ?s ! c) else 0))"
      using w R N(1) by simp
  qed
  moreover have "variable ` set (finalized ?net) \<subseteq> live_vars cnf ?s"
  proof
    fix v assume "v \<in> variable ` set (finalized ?net)"
    then obtain node where node: "node \<in> set (finalized ?net)" "v = variable node" by blast
    then have "v < ?n" using F(2) by (auto simp: net_ok_def Let_def)
    moreover have "?pr ! v \<le> 1" using N(2) node by (simp add: consistent_def)
    ultimately show "v \<in> live_vars cnf ?s" using node F(4) R(2) by (simp add: live_vars_def)
  qed
  ultimately show ?thesis using cl tot R(2,3) N F(2) by (simp add: solver_ok_def)
qed

text \<open>Unit propagation on the loaded formula.\<close>

lemma reduce_load:
  assumes f: "formula_ok cnf"
  obtains s1 where "reduce (load cnf) = Some s1"
    "lists_ok (set (toCompute cnf)) ({..<literalCount cnf + 1} - unit_vars (load cnf)) s1"
    "same_frame (load cnf) s1" "shrunk (load cnf) s1" "\<And>v. v \<notin> unit_vars (load cnf) \<Longrightarrow> propagated s1 ! v = propagated (load cnf) ! v"
proof -
  have tc: "set (toCompute cnf) \<subseteq> {..<length (cnf_clauses cnf)}" using f by (simp add: formula_ok_def)
  have L: "loaded (Solver_init cnf) (load cnf)" "lists_ok (set (toCompute cnf)) {..<literalCount cnf + 1} (load cnf)"
    "length (lc_pos (load cnf)) = literalCount cnf + 1" "length (lc_neg (load cnf)) = literalCount cnf + 1"
    using load_props(1,3) [OF tc] load_props(2) [OF tc, of True] load_props(2) [OF tc, of False] by (simp_all add: lc_def)
  have cl: "clauses (load cnf) = cnf_clauses cnf" using L(1) by (simp add: loaded_def Solver_init_def Let_def)
  have "numbers_of (load cnf) \<subseteq> {..<literalCount cnf + 1}"
    using f by (auto simp: formula_ok_def numbers_of_def cl less_Suc_eq_le)
  then show ?thesis
    using that reduce_spec [OF _ L(2)] tc L(3,4) unfolding cl(1) by (metis lessThan_subset_iff order_refl)
qed

text \<open>When every metavariable has a value left, the values are chosen and the rest evaluated.\<close>

lemma construct:
  assumes f: "formula_ok cnf" and s1: "reduce (load cnf) = Some s1" "list_all (\<lambda>mv. mv_variables mv \<noteq> []) (metaVariables s1)"
  obtains s2 where "choose_metas rnd (List.enumerate 0 (metaVariables s1))
      (s1\<lparr>metaValues := fold first_row [0..<length (metaValues s1)] (metaValues s1)\<rparr>) = Some s2"
    "same_search s1 s2" "HillClimbingSolver rnd cnf first = Some (evaluate cnf first s2)"
    "solver_ok (set (toCompute cnf)) (live_vars cnf (evaluate cnf first s2)) (evaluate cnf first s2)"
proof -
  have tc: "set (toCompute cnf) \<subseteq> {..<length (cnf_clauses cnf)}" using f by (simp add: formula_ok_def)
  have pr: "propagated (load cnf) = replicate (literalCount cnf + 1) 2"
    using load_props(1) [OF tc] by (simp add: loaded_def Solver_init_def Let_def)
  have r: "lists_ok (set (toCompute cnf)) ({..<literalCount cnf + 1} - unit_vars (load cnf)) s1"
    "same_frame (load cnf) s1" "shrunk (load cnf) s1" "\<And>v. v \<notin> unit_vars (load cnf) \<Longrightarrow> propagated s1 ! v = propagated (load cnf) ! v"
    using reduce_load [OF f] s1(1) by (metis option.inject)+
  let ?s1 = "s1\<lparr>metaValues := fold first_row [0..<length (metaValues s1)] (metaValues s1)\<rparr>"
  have H: "HillClimbingSolver rnd cnf first =
      map_option (evaluate cnf first) (choose_metas rnd (List.enumerate 0 (metaVariables s1)) ?s1)"
    by (simp add: HillClimbingSolver_eq s1(1) Let_def)
  have sub: "meta_numbers s1 \<subseteq> meta_numbers (load cnf)" by (rule reduce_metas [OF s1(1)])
  have "mv_variables mv \<noteq> [] \<and> (\<forall>ls\<in>set (mv_variables mv). number ` set ls \<subseteq> meta_numbers (load cnf))"
    if "(i, mv) \<in> set (List.enumerate 0 (metaVariables s1))" for i mv
  proof -
    have "mv \<in> set (metaVariables s1)" using that by (rule enumerate_sets)
    then show ?thesis using s1(2) sub unfolding meta_numbers_def list_all_iff by blast
  qed
  then obtain s2 where s2: "choose_metas rnd (List.enumerate 0 (metaVariables s1)) ?s1 = Some s2" "same_search ?s1 s2"
    "\<forall>v. v \<notin> meta_numbers (load cnf) \<longrightarrow> propagated s2 ! v = propagated ?s1 ! v"
    using choose_metas_spec [of "List.enumerate 0 (metaVariables s1)" "meta_numbers (load cnf)" rnd ?s1] by blast
  have "same_search s1 (s1\<lparr>metaValues := metaValues ?s1, structuredMetaVariables := structuredMetaVariables s1,
      propagated := propagated s1\<rparr>)" by (rule same_search_upd) simp
  then have "same_search s1 ?s1" by simp
  then have ss: "same_search s1 s2" using s2(2) same_search_trans by blast
  moreover have "propagated s2 ! variable node = 2" if node: "node \<in> set (finalized (cnf_net cnf))" for node
  proof -
    have "variable node < literalCount cnf + 1" "variable node \<notin> meta_numbers (load cnf)" "variable node \<notin> unit_vars (load cnf)"
      using f node by (auto simp: formula_ok_def net_ok_def Let_def)
    then show ?thesis using s2(3) r(4) pr by (simp add: nth_Cons')
  qed
  ultimately have "solver_ok (set (toCompute cnf)) (live_vars cnf (evaluate cnf first s2)) (evaluate cnf first s2)"
    using evaluate_ok [OF f r(1-3)] by blast
  then show ?thesis using that [OF s2(1) ss] H s2(1) by simp
qed


section \<open>Example\<close>

text \<open>Core variables 1 and 2, the gate 3 is their conjunction; the clause 1 or 3, and the unit 2.\<close>

definition ex_cnf :: CNF where
  "ex_cnf =
     \<lparr>cnf_clauses = map (\<lambda>ls. Clause_new (map Literal_dimacs ls)) [[1, 3], [2]], literalCount = 3,
      metaVars = [\<lparr>matrixIndex = 0, rowIndex = 1, columnIndex = 0,
        mv_variables = [[Literal_dimacs 1], [Literal_dimacs (-1)]], mv_values = [1, 2]\<rparr>],
      coreVariables = [Literal_dimacs 1, Literal_dimacs 2], cnf_net = \<lparr>nodes = [],
        finalized = [(AndIffNode 3 [Literal_dimacs 1, Literal_dimacs 2])\<lparr>depth := 1\<rparr>],
        literal_to_nodes = [[], [0], [0], []], variable_to_node = [None, None, None, Some 0]\<rparr>,
      cnf_weights = [1, 1], toCompute = [0, 1]\<rparr>"

lemma ex_cnf_units: "unit_vars (load ex_cnf) = {2}" "meta_numbers (load ex_cnf) = {1}"
proof -
  have tc: "set (toCompute ex_cnf) \<subseteq> {..<length (cnf_clauses ex_cnf)}" by (simp add: ex_cnf_def)
  have l: "loaded (Solver_init ex_cnf) (load ex_cnf)" by (rule load_props(1) [OF tc])
  then show "meta_numbers (load ex_cnf) = {1}"
    by (simp add: loaded_def meta_numbers_def Solver_init_def ex_cnf_def Literal_dimacs_def Let_def)
  show "unit_vars (load ex_cnf) = {2}"
    by (simp add: unit_vars_def reduce_loop.simps reduce_round_def reduce_clause_def reduce_unit_def load_def
        Solver_init_def ex_cnf_def Clause_new_def Literal_dimacs_def list_clause_def list_literal_def place_meta_def
        resize_def upd2_def restrict_meta_def cached_def Let_def upt_rec nth_Cons' list_update_code numeral_eq_Suc)
qed


end
