(* ===== verification/Ls_Climb.thy ===== *)
theory Ls_Climb
  imports Ls_Search
begin

text \<open>
  The hill climbing as a whole, HillClimbingSolver::solve of
  src/localsearch/solver/HillClimbingSolver.cpp, on problems without gates (with gates, solve
  applies the wrong flips: solve_flips_gates_twice).  A round either raises the weight of the
  satisfied clauses or finds that no candidate does, keeps the invariant, and the rounds end.
\<close>

section \<open>What the flips leave alone\<close>

definition same_shape :: "Update \<Rightarrow> Update \<Rightarrow> bool" where
  "same_shape u u' \<longleftrightarrow> map literals (u_clauses u') = map literals (u_clauses u) \<and> length (u_unsat u') = length (u_unsat u)"

lemma same_shape_refl [simp]: "same_shape u u"
  by (simp add: same_shape_def)

lemma same_shape_trans: "same_shape u v \<Longrightarrow> same_shape v w \<Longrightarrow> same_shape u w"
  by (simp add: same_shape_def)

lemma same_shape_refresh: "same_shape u (refresh units i u)"
  by (simp add: same_shape_def refresh_def map_update list_update_same_conv) (metis list_update_id literals_propagateSat map_update)

lemma same_shape_sub: "same_shape u (sub_clause s units i u)"
  using same_shape_refresh [of u units i] by (simp add: sub_clause_def Let_def same_shape_def)

lemma same_shape_add: "same_shape u (add_clause s units i u)"
  using same_shape_refresh [of u units i] by (simp add: add_clause_def Let_def same_shape_def)

lemma same_shape_fold: "(\<And>x u. same_shape u (f x u)) \<Longrightarrow> same_shape u (fold f xs u)"
proof (induction xs arbitrary: u)
  case (Cons x xs)
  then show ?case using same_shape_trans [of u "f x u" "fold f xs (f x u)"] by simp
qed simp

lemma same_shape_literal: "same_shape u (apply_literal s units i u)"
  unfolding apply_literal_def Let_def
  by (rule same_shape_trans [OF same_shape_fold [OF same_shape_sub] same_shape_fold [OF same_shape_add]])

definition same_problem :: "Solver \<Rightarrow> Solver \<Rightarrow> bool" where
  "same_problem s s' \<longleftrightarrow> map literals (clauses s') = map literals (clauses s) \<and>
     length (literal_to_unsat s') = length (literal_to_unsat s) \<and> metaVariables s' = metaVariables s \<and>
     literal_to_meta_variable s' = literal_to_meta_variable s \<and> solver_net s' = solver_net s"

lemma apply_flipped_same_problem:
  assumes "apply_flipped s fl = Some s'"
  shows "same_problem s s'"
proof -
  obtain fl' where fl': "Net_compute_flipped (solver_net s) (propagated s) fl = Some fl'"
    using assms by (auto simp: apply_flipped_def split: option.splits)
  let ?u0 = "\<lparr>u_clauses = clauses s, u_unsat = literal_to_unsat s, newSatisfied = [],
    newCounts = replicate (length (clauses_count_satisfied s)) 0, newCount = satisfiedCount s, newSum = satisfiedSum s\<rparr>"
  have "same_shape ?u0 (fold (apply_literal s (toggle_units fl' (propagated s))) fl' ?u0)"
    by (rule same_shape_fold [OF same_shape_literal])
  then show ?thesis using assms fl' by (auto simp: apply_flipped_def Let_def same_problem_def same_shape_def)
qed

section \<open>The problem\<close>

text \<open>
  The variables of the metavariables: a literal of a value is live or has its value already, the
  literals of a value are sorted, and the variables of a metavariable come before those of the
  next, so that the flips of a bag are sorted as check_flipped expects.
\<close>

definition meta_vars :: "MetaVariable \<Rightarrow> nat set" where
  "meta_vars mv = (\<Union>ls\<in>set (mv_variables mv). number ` set ls)"

definition metas_order :: "MetaVariable list \<Rightarrow> bool" where
  "metas_order mvs \<longleftrightarrow>
     (\<forall>mv\<in>set mvs. \<forall>ls\<in>set (mv_variables mv). sorted_wrt (<) (map number ls)) \<and>
     (\<forall>i j. i < j \<longrightarrow> j < length mvs \<longrightarrow> (\<forall>x\<in>meta_vars (mvs ! i). \<forall>y\<in>meta_vars (mvs ! j). x < y))"

definition metas_ok :: "nat set \<Rightarrow> Solver \<Rightarrow> bool" where
  "metas_ok live s \<longleftrightarrow> metas_order (metaVariables s) \<and>
     (\<forall>mv\<in>set (metaVariables s). \<forall>ls\<in>set (mv_variables mv). \<forall>l\<in>set ls. number l \<in> live \<or> propagated s ! number l = of_bool (valu l))"

abbreviation choices :: "Solver \<Rightarrow> nat list \<Rightarrow> Literal list list list" where
  "choices s bag \<equiv> map (\<lambda>i. mv_variables (metaVariables s ! i)) bag"

lemma bag_flips_Cons:
  "bag_flips s (i # bag) (p # perm) =
     map number (filter (\<lambda>l. propagated s ! number l \<noteq> of_bool (valu l)) (mv_variables (metaVariables s ! i) ! p)) @ bag_flips s bag perm"
  by (simp add: bag_flips_def)

lemma bag_flips_sorted:
  assumes m: "metas_ok live s"
  shows "in_radix perm (choices s bag) \<Longrightarrow> sorted_wrt (<) bag \<Longrightarrow> \<forall>i\<in>set bag. i < length (metaVariables s) \<Longrightarrow>
    sorted_wrt (<) (bag_flips s bag perm) \<and> set (bag_flips s bag perm) \<subseteq> live \<inter> (\<Union>i\<in>set bag. meta_vars (metaVariables s ! i))"
proof (induction bag arbitrary: perm)
  case Nil
  then show ?case by (simp add: bag_flips_def)
next
  case (Cons i bag)
  let ?mv = "metaVariables s ! i"
  obtain p perm' where p: "perm = p # perm'" "p < length (mv_variables ?mv)" "in_radix perm' (choices s bag)"
    using Cons.prems(1) by (auto simp: in_radix_def list_all2_Cons2)
  let ?ls = "mv_variables ?mv ! p"
  let ?fl = "filter (\<lambda>l. propagated s ! number l \<noteq> of_bool (valu l)) ?ls"
  have mv: "?mv \<in> set (metaVariables s)" "?ls \<in> set (mv_variables ?mv)" using Cons.prems(3) p(2) by simp_all
  then have ls: "sorted_wrt (<) (map number ?ls)" "\<forall>l\<in>set ?ls. number l \<in> live \<or> propagated s ! number l = of_bool (valu l)"
    using m mv by (simp_all add: metas_ok_def metas_order_def)
  have fs: "sorted_wrt (<) (map number ?fl)" using ls(1) by (simp only: sorted_wrt_map sorted_wrt_filter)
  have fl: "set (map number ?fl) \<subseteq> live \<inter> meta_vars ?mv"
  proof
    fix x assume "x \<in> set (map number ?fl)"
    then obtain l where l: "x = number l" "l \<in> set ?ls" "propagated s ! number l \<noteq> of_bool (valu l)" by auto
    then have "x \<in> live" using ls(2) by blast
    moreover have "x \<in> meta_vars ?mv" unfolding meta_vars_def using l(1,2) mv(2) by blast
    ultimately show "x \<in> live \<inter> meta_vars ?mv" by blast
  qed
  have "\<forall>i\<in>set bag. i < length (metaVariables s)" "sorted_wrt (<) bag" using Cons.prems(2,3) by simp_all
  note IH = Cons.IH [OF p(3) this(2) this(1)]
  have lt: "x < y" if x: "x \<in> set (map number ?fl)" and y: "y \<in> set (bag_flips s bag perm')" for x y
  proof -
    obtain j where j: "j \<in> set bag" "y \<in> meta_vars (metaVariables s ! j)" using IH y by blast
    then have "i < j" "j < length (metaVariables s)" using Cons.prems(2,3) by simp_all
    moreover have "x \<in> meta_vars ?mv" using fl x by blast
    ultimately show ?thesis using m j(2) unfolding metas_ok_def metas_order_def by blast
  qed
  have "sorted_wrt (<) (map number ?fl @ bag_flips s bag perm')"
    unfolding sorted_wrt_append using fs IH lt by blast
  moreover have "set (map number ?fl @ bag_flips s bag perm') \<subseteq> live \<inter> (\<Union>i\<in>set (i # bag). meta_vars (metaVariables s ! i))"
    unfolding set_append using fl IH by (simp only: list.set) blast
  ultimately show ?case unfolding p(1) bag_flips_Cons by blast
qed

section \<open>Trying the values of a bag\<close>

definition improves :: "Solver \<Rightarrow> nat list \<Rightarrow> nat list \<Rightarrow> bool" where
  "improves s bag perm \<longleftrightarrow>
     satisfyPredicateForDomain s bag perm (rowsDistinct (metaValues s)) (columnsDistinct (metaValues s)) (pairsIndex (metaValues s)) \<and>
     (\<exists>s'. apply_flipped s (bag_flips s bag perm) = Some s' \<and> satisfiedSum s < satisfiedSum s')"

definition climb_ok :: "nat set \<Rightarrow> nat set \<Rightarrow> Solver \<Rightarrow> bool" where
  "climb_ok act live s \<longleftrightarrow> solver_ok act live s \<and> finalized (solver_net s) = [] \<and> metas_ok live s"

definition bag_ok :: "Solver \<Rightarrow> nat list \<Rightarrow> bool" where
  "bag_ok s bag \<longleftrightarrow> sorted_wrt (<) bag \<and> (\<forall>i\<in>set bag. i < length (metaVariables s) \<and> mv_variables (metaVariables s ! i) \<noteq> [])"

lemma check_flipped_flips:
  "check_flipped s fl = Some (fl', b) \<Longrightarrow> Net_compute_flipped (solver_net s) (propagated s) fl = Some fl'"
  by (simp add: check_flipped_def split: option.splits prod.splits)

lemma flips_no_gates:
  assumes ok: "climb_ok act live s" and b: "bag_ok s bag" and p: "in_radix perm (choices s bag)"
  obtains s' where "apply_flipped s (bag_flips s bag perm) = Some s'" "solver_ok act live s'"
    "check_flipped s (bag_flips s bag perm) = Some (bag_flips s bag perm, satisfiedSum s < satisfiedSum s')"
    "propagated s' = flipped (propagated s) (bag_flips s bag perm)" "set (bag_flips s bag perm) \<subseteq> live"
proof -
  let ?fl = "bag_flips s bag perm"
  have "metas_ok live s" "sorted_wrt (<) bag" "\<forall>i\<in>set bag. i < length (metaVariables s)"
    using ok b by (simp_all add: climb_ok_def bag_ok_def)
  then have fl: "sorted_wrt (<) ?fl" "set ?fl \<subseteq> live" using bag_flips_sorted [OF _ p] by blast+
  have net: "finalized (solver_net s) = []" "solver_ok act live s" using ok by (simp_all add: climb_ok_def)
  then have n: "Net_compute_flipped (solver_net s) (propagated s) ?fl = Some ?fl" by (simp only: Net_compute_flipped_def compute_loop.simps)
  have so: "sorted ?fl" "distinct ?fl" "set ?fl \<subseteq> live - variable ` set (finalized (solver_net s))"
    using fl net(1) by (simp_all add: strict_sorted_iff)
  obtain fl' s' where f: "apply_flipped s ?fl = Some s'" "solver_ok act live s'" "propagated s' = flipped (propagated s) fl'"
    "set ?fl \<subseteq> set fl'" "set fl' - set ?fl \<subseteq> variable ` set (finalized (solver_net s))"
    "check_flipped s ?fl = Some (fl', satisfiedSum s < satisfiedSum s')" "solver_net s' = solver_net s"
    by (rule flips_spec [OF net(2) so])
  have e: "fl' = ?fl" using check_flipped_flips [OF f(6)] n by simp
  show ?thesis by (rule that [OF f(1,2) _ _ fl(2)]) (use f(3,6) in \<open>simp_all only: e\<close>)
qed

lemma try_values_spec:
  assumes "climb_ok act live s" "bag_ok s bag" "in_radix perm (choices s bag)"
  shows "try_values s bag perm = Some (if improves s bag perm then Some (bag_flips s bag perm, bag_values s bag perm) else None)"
proof -
  obtain s' where "apply_flipped s (bag_flips s bag perm) = Some s'"
    "check_flipped s (bag_flips s bag perm) = Some (bag_flips s bag perm, satisfiedSum s < satisfiedSum s')"
    using flips_no_gates [OF assms] by blast
  then show ?thesis by (simp add: try_values_def improves_def Let_def)
qed

text \<open>A hit: the flips and the values of a choice that improves.\<close>

definition is_hit :: "Solver \<Rightarrow> nat list \<Rightarrow> hit \<Rightarrow> bool" where
  "is_hit s bag h \<longleftrightarrow> (\<exists>perm. in_radix perm (choices s bag) \<and> improves s bag perm \<and>
     h = (bag_flips s bag perm, bag_values s bag perm))"

definition no_hit :: "Solver \<Rightarrow> nat list \<Rightarrow> bool" where
  "no_hit s bag \<longleftrightarrow> (\<forall>perm. in_radix perm (choices s bag) \<longrightarrow> \<not> improves s bag perm)"

lemma search_bag_from:
  assumes ok: "climb_ok act live s" "bag_ok s bag"
  shows "in_radix perm (choices s bag) \<Longrightarrow>
    \<exists>r. search_bag s bag perm = Some r \<and>
      (case r of
         Some h \<Rightarrow> is_hit s bag h
       | None \<Rightarrow> \<forall>q. in_radix q (choices s bag) \<longrightarrow> radix perm (choices s bag) \<le> radix q (choices s bag) \<longrightarrow> \<not> improves s bag q)"
proof (induction "radices (choices s bag) - radix perm (choices s bag)" arbitrary: perm rule: less_induct)
  case less
  let ?ch = "choices s bag"
  note tr = try_values_spec [OF ok less.prems]
  show ?case
  proof (cases "improves s bag perm")
    case True
    then have "search_bag s bag perm = Some (Some (bag_flips s bag perm, bag_values s bag perm))"
      using tr by (subst search_bag.simps) simp
    then show ?thesis using True less.prems by (auto simp: is_hit_def)
  next
    case False
    obtain perm' r where n: "nextArray perm ?ch = (perm', r)" by fastforce
    note sp = nextArray_spec [OF less.prems n]
    have same: "\<not> improves s bag q" if "in_radix q ?ch" "radix q ?ch = radix perm ?ch" for q
      using radix_inj [OF that(1) less.prems that(2)] False by simp
    show ?thesis
    proof (cases r)
      case True
      then have lt: "radices ?ch - radix perm' ?ch < radices ?ch - radix perm ?ch"
        using sp radix_less [OF less.prems] by simp
      obtain r' where r': "search_bag s bag perm' = Some r'"
        "case r' of Some h \<Rightarrow> is_hit s bag h
          | None \<Rightarrow> \<forall>q. in_radix q ?ch \<longrightarrow> radix perm' ?ch \<le> radix q ?ch \<longrightarrow> \<not> improves s bag q"
        using less.hyps [OF lt] sp by blast
      have e: "search_bag s bag perm = Some r'" using tr False n True r'(1) by (subst search_bag.simps) simp
      have "\<not> improves s bag q" if q: "r' = None" "in_radix q ?ch" "radix perm ?ch \<le> radix q ?ch" for q
      proof (cases "radix q ?ch = radix perm ?ch")
        case True
        then show ?thesis using same q(2) by blast
      next
        case False
        then have "radix perm' ?ch \<le> radix q ?ch" using sp \<open>r\<close> q(3) by simp
        then show ?thesis using r'(2) q(1,2) by simp
      qed
      then show ?thesis using e r'(2) by (cases r') auto
    next
      case False
      have e: "search_bag s bag perm = Some None" using tr \<open>\<not> improves s bag perm\<close> n False by (subst search_bag.simps) simp
      have "\<not> improves s bag q" if q: "in_radix q ?ch" "radix perm ?ch \<le> radix q ?ch" for q
        using same [OF q(1)] q(2) radix_less [OF q(1)] sp False by simp
      then show ?thesis using e by auto
    qed
  qed
qed

lemma radix_zeros: "radix (replicate (length ixs) 0) ixs = 0"
  by (induction ixs) simp_all

lemma search_bag_spec:
  assumes ok: "climb_ok act live s" "bag_ok s bag"
  shows "\<exists>r. search_bag s bag (replicate (length bag) 0) = Some r \<and> (case r of Some h \<Rightarrow> is_hit s bag h | None \<Rightarrow> no_hit s bag)"
proof -
  have z: "in_radix (replicate (length bag) 0) (choices s bag)"
    using ok(2) by (auto simp: in_radix_def list_all2_conv_all_nth bag_ok_def)
  have "radix (replicate (length bag) 0) (choices s bag) = 0" using radix_zeros [of "choices s bag"] by simp
  then show ?thesis using search_bag_from [OF ok z] by (auto simp: no_hit_def split: option.splits)
qed

lemma search_bags_spec:
  assumes ok: "climb_ok act live s"
  shows "\<forall>bag\<in>set bags. bag_ok s bag \<Longrightarrow>
    \<exists>r. search_bags s bags = Some r \<and>
      (case r of Some h \<Rightarrow> \<exists>bag\<in>set bags. is_hit s bag h | None \<Rightarrow> \<forall>bag\<in>set bags. no_hit s bag)"
proof (induction bags)
  case (Cons bag bags)
  obtain r where r: "search_bag s bag (replicate (length bag) 0) = Some r"
    "case r of Some h \<Rightarrow> is_hit s bag h | None \<Rightarrow> no_hit s bag"
    using search_bag_spec [OF ok, of bag] Cons.prems by auto
  obtain r' where r': "search_bags s bags = Some r'"
    "case r' of Some h \<Rightarrow> \<exists>bag\<in>set bags. is_hit s bag h | None \<Rightarrow> \<forall>bag\<in>set bags. no_hit s bag"
    using Cons by auto
  show ?case using r r' by (cases r; cases r') auto
qed simp

section \<open>The candidates\<close>

definition candidate :: "Solver \<Rightarrow> nat \<Rightarrow> nat list \<Rightarrow> bool" where
  "candidate s k bag \<longleftrightarrow> is_comb (length (metaVariables s)) k bag \<and> satisfyPredicateForMetavars s bag"

lemma candidate_ok: "candidate s k bag \<Longrightarrow> bag_ok s bag"
  by (fastforce simp: candidate_def bag_ok_def is_comb_def satisfyPredicateForMetavars_def list_ex_iff split: if_splits)

lemma draw_in_range:
  "draw rnd t n combination v = Some y \<Longrightarrow> v < n \<longrightarrow> fst y < n \<and> fst y \<notin> set combination"
proof (induction rule: draw.raw_induct [rotated, consumes 1, case_names 1])
  case (1 f rnd t n combination v y)
  show ?case
  proof (cases "v \<in> set combination")
    case True
    then have "f rnd (t + 1) n combination (rnd t mod n) = Some y" using 1(2) by simp
    then have "rnd t mod n < n \<longrightarrow> fst y < n \<and> fst y \<notin> set combination" by (rule 1(1))
    then show ?thesis by (cases n) simp_all
  next
    case False
    then have "y = (v, t)" using 1(2) by simp
    then show ?thesis using False by simp
  qed
qed

lemma draw_spec: "draw rnd t n combination v = Some (val, t') \<Longrightarrow> v < n \<Longrightarrow> val < n \<and> val \<notin> set combination"
  using draw_in_range by fastforce

lemma draw_rest_spec:
  "draw_rest rnd t n combination k = Some (c, t') \<Longrightarrow> combination \<noteq> [] \<Longrightarrow> distinct combination \<Longrightarrow> \<forall>x\<in>set combination. x < n \<Longrightarrow>
     distinct c \<and> (\<forall>x\<in>set c. x < n) \<and> length c = length combination + k"
proof (induction k arbitrary: t combination)
  case (Suc k)
  obtain val t1 where d: "draw rnd t n combination (hd combination) = Some (val, t1)"
    "draw_rest rnd t1 n (combination @ [val]) k = Some (c, t')" using Suc.prems(1) by (auto split: option.splits)
  have "val < n \<and> val \<notin> set combination" using draw_spec [OF d(1)] Suc.prems(2,4) by simp
  then have "distinct c \<and> (\<forall>x\<in>set c. x < n) \<and> length c = length (combination @ [val]) + k"
    using Suc.prems(3,4) by (intro Suc.IH [OF d(2)]) auto
  then show ?case by simp
qed simp

lemma random_bag_spec:
  assumes r: "random_bag s rnd t n k inc = Some (c, t')" and i: "sorted inc" "\<forall>i\<in>set inc. i < n" and k: "0 < k"
  shows "is_comb n k c"
proof -
  have ne: "inc \<noteq> []" using r by (auto simp: random_bag_def)
  obtain c0 t0 where c0: "draw_rest rnd (t + 1) n [inc ! (rnd t mod length inc)] (k - 1) = Some (c0, t0)"
    using r ne by (cases "draw_rest rnd (t + 1) n [inc ! (rnd t mod length inc)] (k - 1)") (auto simp: random_bag_def)
  have nx: "c = sort c0 \<or> (\<exists>r. next_combination_including (sort c0) n inc = Some (c, r))"
  proof (cases "satisfyPredicateForMetavars s (sort c0)")
    case True
    then show ?thesis using r ne c0 by (simp add: random_bag_def Let_def)
  next
    case False
    then show ?thesis using r ne c0 by (auto simp: random_bag_def Let_def)
  qed
  have "rnd t mod length inc < length inc" using ne by simp
  then have "inc ! (rnd t mod length inc) < n" using i(2) nth_mem by blast
  then have "\<forall>x\<in>set [inc ! (rnd t mod length inc)]. x < n" by simp
  then have d: "distinct c0 \<and> (\<forall>x\<in>set c0. x < n) \<and> length c0 = length [inc ! (rnd t mod length inc)] + (k - 1)"
    by (intro draw_rest_spec [OF c0]) simp_all
  have e: "length [inc ! (rnd t mod length inc)] + (k - 1) = k" using k by simp
  have "distinct c0 \<and> (\<forall>x\<in>set c0. x < n) \<and> length c0 = k" using d unfolding e .
  then have cs: "is_comb n k (sort c0)" by (simp add: is_comb_def strict_sorted_iff)
  obtain c1 r1 where "next_combination_including (sort c0) n inc = Some (c1, r1)" "is_comb n k c1"
    using next_including_spec [OF i(1) k cs] by blast
  then have "c = sort c0 \<or> c = c1" using nx by auto
  then show ?thesis using cs \<open>is_comb n k c1\<close> by blast
qed

lemma random_bags_spec:
  "random_bags s rnd t n k inc tries acc = Some bags \<Longrightarrow> n = length (metaVariables s) \<Longrightarrow> sorted inc \<Longrightarrow> \<forall>i\<in>set inc. i < n \<Longrightarrow> 0 < k \<Longrightarrow>
     \<forall>b\<in>set acc. candidate s k b \<Longrightarrow> \<forall>b\<in>set bags. candidate s k b"
proof (induction tries arbitrary: t acc)
  case (Suc tries)
  obtain c t' where c: "random_bag s rnd t n k inc = Some (c, t')"
    "random_bags s rnd t' n k inc tries (if satisfyPredicateForMetavars s c then acc @ [c] else acc) = Some bags"
    using Suc.prems(1) by (auto split: option.splits)
  have "is_comb n k c" by (rule random_bag_spec [OF c(1) Suc.prems(3-5)])
  then have "\<forall>b\<in>set (if satisfyPredicateForMetavars s c then acc @ [c] else acc). candidate s k b"
    using Suc.prems(2,6) by (auto simp: candidate_def)
  then show ?case by (rule Suc.IH [OF c(2) Suc.prems(2-5)])
qed simp

lemma dedup_subset: "set (dedup xs) \<subseteq> set xs"
  by (induction xs rule: dedup.induct) auto

lemma all_bags_spec:
  assumes i: "sorted inc" and k: "0 < k" and n: "n = length (metaVariables s)"
  shows "is_comb n k bag \<Longrightarrow> \<forall>b\<in>set acc. candidate s k b \<Longrightarrow>
    \<exists>bags. all_bags s bag n inc acc = Some bags \<and> (\<forall>b\<in>set bags. candidate s k b)"
proof (induction "(n choose k) - rank bag" arbitrary: bag acc rule: less_induct)
  case less
  let ?acc = "if satisfyPredicateForMetavars s bag then acc @ [bag] else acc"
  have acc: "\<forall>b\<in>set ?acc. candidate s k b" using less.prems n by (auto simp: candidate_def)
  obtain bag' r where b: "next_combination_including bag n inc = Some (bag', r)" "is_comb n k bag'" "r \<longrightarrow> rank bag < rank bag'"
    using next_including_spec [OF i k less.prems(1)] by blast
  show ?case
  proof (cases r)
    case True
    then have "(n choose k) - rank bag' < (n choose k) - rank bag" using b(3) rank_less [OF b(2) k] by simp
    then obtain bags where "all_bags s bag' n inc ?acc = Some bags" "\<forall>b\<in>set bags. candidate s k b"
      using less.hyps [OF _ b(2) acc] by blast
    then show ?thesis using b(1) True by (subst all_bags.simps) (simp add: Let_def)
  next
    case False
    then show ?thesis using b(1) acc by (subst all_bags.simps) (simp add: Let_def)
  qed
qed

text \<open>Every metavariable that a variable belongs to exists.\<close>

definition meta_index_ok :: "Solver \<Rightarrow> bool" where
  "meta_index_ok s \<longleftrightarrow> (\<forall>i<length (literal_to_unsat s). \<forall>m. literal_to_meta_variable s ! i = Some m \<longrightarrow> m < length (metaVariables s))"

lemma vars_vec_spec:
  assumes "meta_index_ok s"
  shows "sorted (vars_vec s)" "\<forall>i\<in>set (vars_vec s). i < length (metaVariables s)"
proof -
  let ?V = "\<Union>i\<in>set [0..<length (literal_to_unsat s)].
       if literal_to_unsat s ! i > 0
       then (case literal_to_meta_variable s ! i of None \<Rightarrow> {0..<length (metaVariables s)} | Some m \<Rightarrow> {m})
       else {}"
  have "finite ?V" by (auto split: option.splits)
  moreover have "\<forall>i\<in>?V. i < length (metaVariables s)"
    using assms by (auto simp: meta_index_ok_def split: if_splits option.splits)
  ultimately show "sorted (vars_vec s)" "\<forall>i\<in>set (vars_vec s). i < length (metaVariables s)"
    unfolding vars_vec_def by (simp_all only: sorted_sorted_list_of_set set_sorted_list_of_set)
qed

lemma first_bag_comb:
  assumes "vars ! 0 < n" "0 < k" "k \<le> n"
  shows "is_comb n k (first_bag vars k)"
  using assms by (auto simp: is_comb_def first_bag_def sorted_wrt_append)

lemma candidates_spec:
  assumes m: "meta_index_ok s" and k: "0 < k" "k \<le> length (metaVariables s)" and c: "candidates s rnd k = Some bags"
  shows "\<forall>bag\<in>set bags. bag_ok s bag"
proof -
  let ?n = "length (metaVariables s)"
  note v = vars_vec_spec [OF m]
  have ne: "vars_vec s \<noteq> []" using c by (auto simp: candidates_def Let_def)
  then have v0: "vars_vec s ! 0 < ?n" using v(2) by simp
  obtain combs where n: "get_number_of_combinations ?n k = Some combs"
    using c ne by (auto simp: candidates_def Let_def split: option.splits)
  show ?thesis
  proof (cases "combs > LIMIT")
    case True
    then obtain bs where b: "random_bags s rnd 0 ?n k (vars_vec s) LIMIT [] = Some bs" "bags = dedup (sort bs)"
      using c ne n by (auto simp: candidates_def Let_def split: option.splits list.splits)
    have "\<forall>b\<in>set bs. candidate s k b" by (rule random_bags_spec [OF b(1) refl v k(1)]) simp
    then show ?thesis using dedup_subset [of "sort bs"] b(2) candidate_ok by (metis set_sort subsetD)
  next
    case False
    then have "all_bags s (first_bag (vars_vec s) k) ?n (vars_vec s) [] = Some bags"
      using c ne n by (simp add: candidates_def Let_def)
    then have "\<forall>b\<in>set bags. candidate s k b"
      using all_bags_spec [OF v(1) k(1) refl first_bag_comb [OF v0 k], of "[]"] by auto
    then show ?thesis using candidate_ok by blast
  qed
qed

section \<open>A round\<close>

text \<open>What std::shuffle and the choice among the threads are relied on to do.\<close>

definition shuffles :: "(nat list list \<Rightarrow> nat list list) \<Rightarrow> bool" where
  "shuffles f \<longleftrightarrow> (\<forall>xs. set (f xs) = set xs)"

definition picks :: "(hit option list \<Rightarrow> hit) \<Rightarrow> bool" where
  "picks f \<longleftrightarrow> (\<forall>hs. list_ex (\<lambda>h. h \<noteq> None) hs \<longrightarrow> Some (f hs) \<in> set hs)"

lemma solver_ok_values: "climb_ok act live (s\<lparr>metaValues := v\<rparr>) = climb_ok act live s"
  by (simp add: climb_ok_def solver_ok_def index_ok_def clauses_ok_def totals_ok_def metas_ok_def cong del: if_weak_cong)

lemma hit_climbs:
  assumes ok: "climb_ok act live s" and r: "\<forall>mv\<in>set (metaVariables s). \<forall>x\<in>meta_vars mv. x < length (propagated s)"
    and b: "bag_ok s bag" and h: "is_hit s bag h"
  shows "\<exists>s'. apply_flipped s (fst h) = Some s' \<and> climb_ok act live s' \<and> satisfiedSum s < satisfiedSum s' \<and> same_problem s s' \<and>
    length (propagated s') = length (propagated s)"
proof -
  obtain perm where p: "in_radix perm (choices s bag)" "improves s bag perm" "fst h = bag_flips s bag perm" using h by (auto simp: is_hit_def)
  obtain s' where s': "apply_flipped s (bag_flips s bag perm) = Some s'" "solver_ok act live s'"
    "propagated s' = flipped (propagated s) (bag_flips s bag perm)" "set (bag_flips s bag perm) \<subseteq> live"
    by (rule flips_no_gates [OF ok b p(1)])
  have sp: "same_problem s s'" by (rule apply_flipped_same_problem [OF s'(1)])
  have m: "metas_ok live s" and n: "finalized (solver_net s) = []" using ok by (simp_all add: climb_ok_def)
  have fixed: "number l \<in> live \<or> propagated s' ! number l = of_bool (valu l)"
    if l: "mv \<in> set (metaVariables s)" "ls \<in> set (mv_variables mv)" "l \<in> set ls" for mv ls l
  proof (cases "number l \<in> live")
    case False
    have "number l \<in> meta_vars mv" unfolding meta_vars_def using l(2,3) by blast
    then have "number l < length (propagated s)" using r l(1) by blast
    moreover have "propagated s ! number l = of_bool (valu l)" using m l False unfolding metas_ok_def by blast
    moreover have "number l \<notin> set (bag_flips s bag perm)" using s'(4) False by blast
    ultimately show ?thesis by (simp add: s'(3) flipped_nth)
  qed blast
  have mvs: "metaVariables s' = metaVariables s" using sp by (simp add: same_problem_def)
  have "metas_ok live s'" using m fixed unfolding metas_ok_def mvs by blast
  then have "climb_ok act live s'" using s'(2) sp n by (simp add: climb_ok_def same_problem_def)
  moreover have "satisfiedSum s < satisfiedSum s'" using p(2) s'(1) by (auto simp: improves_def)
  moreover have "length (propagated s') = length (propagated s)" by (simp add: s'(3))
  moreover have "apply_flipped s (fst h) = Some s'" using s'(1) p(3) by simp
  ultimately show ?thesis using sp by blast
qed

abbreviation batch_lists :: "nat list list \<Rightarrow> nat \<Rightarrow> nat list list list" where
  "batch_lists bags c \<equiv> map (batch bags) (batches c 0 (length bags div c) (length bags mod c))"

lemma solve_round_hits:
  assumes c: "candidates s rnd k = Some bags"
    and r: "map (search_bags s) (batch_lists (shuffle bags) thread_count) = map Some res"
  shows "solve_round shuffle pick rnd thread_count k s =
      (if list_all (\<lambda>h. h = None) res then Some (s, False)
       else map_option (\<lambda>s'. (s'\<lparr>metaValues := fold (\<lambda>(m, r, c, v). upd3 m r c (\<lambda>_. v)) (snd (pick res)) (metaValues s')\<rparr>, True))
              (apply_flipped s (fst (pick res))))"
proof -
  have r': "map (\<lambda>b. search_bags s (batch (shuffle bags) b))
      (batches thread_count 0 (length (shuffle bags) div thread_count) (length (shuffle bags) mod thread_count)) = map Some res"
    using r by (simp only: map_map comp_def)
  have none: "(None \<in> set (map Some res)) = False" by auto
  have the: "map the (map Some res) = res" by (simp add: comp_def)
  show ?thesis
    unfolding solve_round_def c option.case Let_def r' none the if_False by (simp only: split_beta)
qed

lemma climb_batches:
  assumes ok: "climb_ok act live s" and b: "\<forall>b\<in>set bs. \<forall>bag\<in>set b. bag_ok s bag"
  shows "\<exists>res. map (search_bags s) bs = map Some res \<and>
    list_all2 (\<lambda>b r. case r of Some h \<Rightarrow> \<exists>bag\<in>set b. is_hit s bag h | None \<Rightarrow> \<forall>bag\<in>set b. no_hit s bag) bs res"
  using b
proof (induction bs)
  case (Cons b bs)
  obtain r where r: "search_bags s b = Some r" "case r of Some h \<Rightarrow> \<exists>bag\<in>set b. is_hit s bag h | None \<Rightarrow> \<forall>bag\<in>set b. no_hit s bag"
    using search_bags_spec [OF ok, of b] Cons.prems by auto
  obtain res where h: "map (search_bags s) bs = map Some res"
    "list_all2 (\<lambda>b r. case r of Some h \<Rightarrow> \<exists>bag\<in>set b. is_hit s bag h | None \<Rightarrow> \<forall>bag\<in>set b. no_hit s bag) bs res"
    using Cons.IH Cons.prems by auto
  show ?case by (intro exI [of _ "r # res"] conjI) (simp_all only: list.map r(1) h(1) list_all2_Cons r(2) h(2) simp_thms)
qed simp

lemma climb_choice:
  assumes ok: "climb_ok act live s" and r: "\<forall>mv\<in>set (metaVariables s). \<forall>x\<in>meta_vars mv. x < length (propagated s)"
    and l: "list_all2 (\<lambda>b r. case r of Some h \<Rightarrow> \<exists>bag\<in>set b. is_hit s bag h | None \<Rightarrow> \<forall>bag\<in>set b. no_hit s bag) bs res"
    and b: "\<forall>b\<in>set bs. \<forall>bag\<in>set b. bag_ok s bag" and p: "picks pick"
    and h: "\<not> list_all (\<lambda>h. h = None) res"
  shows "\<exists>s'. apply_flipped s (fst (pick res)) = Some s' \<and> climb_ok act live s' \<and> satisfiedSum s < satisfiedSum s' \<and> same_problem s s' \<and>
    length (propagated s') = length (propagated s)"
proof -
  have "list_ex (\<lambda>h. h \<noteq> None) res" using h by (simp only: list_all_iff list_ex_iff) blast
  then have "Some (pick res) \<in> set res" using p unfolding picks_def by blast
  then obtain i where i: "i < length res" "res ! i = Some (pick res)" by (metis in_set_conv_nth)
  have "\<exists>bag\<in>set (bs ! i). is_hit s bag (pick res)" using list_all2_nthD2 [OF l i(1)] i(2) by simp
  then obtain bag where bag: "bag \<in> set (bs ! i)" "is_hit s bag (pick res)" ..
  have "bs ! i \<in> set bs" using i(1) list_all2_lengthD [OF l] by simp
  then have "bag_ok s bag" using b bag(1) by blast
  then show ?thesis by (rule hit_climbs [OF ok r _ bag(2)])
qed

lemma batch_lists_set:
  assumes "0 < c"
  shows "(\<Union>b\<in>set (batch_lists bags c). set b) = set bags"
proof -
  have "concat (batch_lists bags c) = bags" by (rule batches_partition [OF assms])
  then show ?thesis by (metis set_concat)
qed

lemma solve_round_spec:
  assumes ok: "climb_ok act live s" and r: "\<forall>mv\<in>set (metaVariables s). \<forall>x\<in>meta_vars mv. x < length (propagated s)"
    and c: "candidates s rnd k = Some bags" "\<forall>bag\<in>set bags. bag_ok s bag"
    and p: "shuffles shuffle" "picks pick" "0 < thread_count"
  shows "\<exists>s' changed. solve_round shuffle pick rnd thread_count k s = Some (s', changed) \<and>
    (if changed
     then climb_ok act live s' \<and> satisfiedSum s < satisfiedSum s' \<and> same_problem s s' \<and> length (propagated s') = length (propagated s)
     else s' = s \<and> (\<forall>bag\<in>set bags. no_hit s bag))"
proof -
  define bs where "bs = batch_lists (shuffle bags) thread_count"
  have set: "(\<Union>b\<in>set bs. set b) = set bags"
    unfolding bs_def batch_lists_set [OF p(3)] using p(1) by (simp add: shuffles_def)
  then have b: "\<forall>b\<in>set bs. \<forall>bag\<in>set b. bag_ok s bag" using c(2) by blast
  obtain res where h: "map (search_bags s) bs = map Some res"
    "list_all2 (\<lambda>b r. case r of Some h \<Rightarrow> \<exists>bag\<in>set b. is_hit s bag h | None \<Rightarrow> \<forall>bag\<in>set b. no_hit s bag) bs res"
    using climb_batches [OF ok b] by blast
  note e = solve_round_hits [OF c(1), of shuffle thread_count res pick, OF h(1) [unfolded bs_def]]
  show ?thesis
  proof (cases "list_all (\<lambda>h. h = None) res")
    case True
    have "no_hit s bag" if bag: "bag \<in> set bags" for bag
    proof -
      obtain b where b: "b \<in> set bs" "bag \<in> set b" using bag set by blast
      then obtain i where i: "i < length bs" "bs ! i = b" by (metis in_set_conv_nth)
      then have "res ! i = None" using True list_all2_lengthD [OF h(2)] by (simp add: list_all_length)
      then show ?thesis using list_all2_nthD [OF h(2) i(1)] i(2) b(2) by simp
    qed
    then show ?thesis using e True by (intro exI [of _ s] exI [of _ False]) simp
  next
    case False
    obtain s' where s': "apply_flipped s (fst (pick res)) = Some s'" "climb_ok act live s'" "satisfiedSum s < satisfiedSum s'"
      "same_problem s s'" "length (propagated s') = length (propagated s)" using climb_choice [OF ok r h(2) b p(2) False] by blast
    let ?s = "s'\<lparr>metaValues := fold (\<lambda>(m, r, c, v). upd3 m r c (\<lambda>_. v)) (snd (pick res)) (metaValues s')\<rparr>"
    have "solve_round shuffle pick rnd thread_count k s = Some (?s, True)"
      unfolding e using False s'(1) by (simp only: if_False option.map)
    moreover have "climb_ok act live ?s" using s'(2) by (simp only: solver_ok_values)
    moreover have "same_problem s ?s" using s'(4) by (simp add: same_problem_def)
    moreover have "satisfiedSum s < satisfiedSum ?s \<and> length (propagated ?s) = length (propagated s)" using s'(3,5) by simp
    ultimately show ?thesis by (intro exI [of _ ?s] exI [of _ True]) simp
  qed
qed

section \<open>The whole climb\<close>

text \<open>
  The parts of a problem that no round changes: no clause is empty, their literals are fewer than
  2^32, and there are metavariables, whose indices and variables are in range.
\<close>

definition searchable :: "Solver \<Rightarrow> bool" where
  "searchable s \<longleftrightarrow>
     list_all (\<lambda>ls. ls \<noteq> [] \<and> list_all (\<lambda>l. number l < length (literal_to_unsat s)) ls) (map literals (clauses s)) \<and>
     sum_list (map length (map literals (clauses s))) < 2 ^ 32 \<and> metaVariables s \<noteq> [] \<and> meta_index_ok s \<and>
     (\<forall>mv\<in>set (metaVariables s). \<forall>x\<in>meta_vars mv. x < length (propagated s))"

lemma searchable_same:
  "searchable s \<Longrightarrow> same_problem s s' \<Longrightarrow> length (propagated s') = length (propagated s) \<Longrightarrow> searchable s'"
  by (simp add: searchable_def same_problem_def meta_index_ok_def)

definition open_clauses :: "Solver \<Rightarrow> bool" where
  "open_clauses s \<longleftrightarrow> of_nat (length (clauses s)) - satisfiedCount s > 0"

lemma open_unsat:
  assumes t: "totals_ok act s" and n: "open_clauses s"
  obtains c where "c < length (clauses s)" "\<not> sat s ! c"
proof (cases "\<exists>c<length (clauses s). \<not> sat s ! c")
  case False
  then have "(\<Sum>c<length (clauses s). if sat s ! c then 1 else 0) = (\<Sum>c<length (clauses s). 1 :: 32 word)"
    by (intro sum.cong) auto
  then have "satisfiedCount s = of_nat (length (clauses s))" using t by (simp add: totals_ok_def)
  then show ?thesis using n by (simp add: open_clauses_def)
qed (use that in blast)

lemma occurs_le: "occurs v c \<le> length (literals c)"
  using count_le_length [of "map number (literals c)" v] by (simp add: occurs_def)

lemma of_nat_word_pos: "0 < n \<Longrightarrow> n < 2 ^ 32 \<Longrightarrow> (of_nat n :: 32 word) > 0"
  by (simp add: word_less_nat_alt unsigned_of_nat take_bit_nat_eq_self)

lemma vars_vec_open:
  assumes ok: "climb_ok act live s" and se: "searchable s" and n: "open_clauses s"
  shows "vars_vec s \<noteq> []"
proof -
  have t: "totals_ok act s" using ok by (simp add: climb_ok_def solver_ok_def)
  obtain c where c: "c < length (clauses s)" "\<not> sat s ! c" by (rule open_unsat [OF t n])
  have "clauses s ! c \<in> set (clauses s)" using c(1) by simp
  then have ls: "literals (clauses s ! c) \<noteq> []" "\<forall>l\<in>set (literals (clauses s ! c)). number l < length (literal_to_unsat s)"
    using se by (simp_all add: searchable_def list_all_iff)
  define v where "v = number (hd (literals (clauses s ! c)))"
  have v: "v < length (literal_to_unsat s)" using ls by (simp add: v_def)
  define f where "f = (\<lambda>c. if sat s ! c then 0 else occurs v (clauses s ! c))"
  have "literal_to_unsat s ! v = (\<Sum>c<length (clauses s). if sat s ! c then 0 else of_nat (occurs v (clauses s ! c)))"
    using t v by (simp add: totals_ok_def)
  also have "\<dots> = (\<Sum>c<length (clauses s). of_nat (f c))" by (intro sum.cong) (simp_all add: f_def)
  finally have u: "literal_to_unsat s ! v = of_nat (sum f {..<length (clauses s)})" by simp
  have "sum f {..<length (clauses s)} \<le> (\<Sum>c<length (clauses s). length (literals (clauses s ! c)))"
    by (intro sum_mono) (simp add: f_def occurs_le)
  also have "\<dots> = sum_list (map length (map literals (clauses s)))"
    by (simp add: sum_list_sum_nth atLeast0LessThan)
  finally have less: "sum f {..<length (clauses s)} < 2 ^ 32" using se by (simp add: searchable_def)
  have "v \<in> set (map number (literals (clauses s ! c)))" using ls(1) by (simp add: v_def)
  then have "count_list (map number (literals (clauses s ! c))) v \<noteq> 0" by (simp only: count_list_0_iff not_not)
  then have "0 < f c" using c(2) by (simp add: f_def occurs_def)
  then have "0 < sum f {..<length (clauses s)}" using member_le_sum [of c "{..<length (clauses s)}" f] c(1) by simp
  then have pos: "literal_to_unsat s ! v > 0" unfolding u using less by (rule of_nat_word_pos)
  let ?V = "\<Union>i\<in>set [0..<length (literal_to_unsat s)].
       if literal_to_unsat s ! i > 0
       then (case literal_to_meta_variable s ! i of None \<Rightarrow> {0..<length (metaVariables s)} | Some m \<Rightarrow> {m})
       else {}"
  have "finite ?V" by (auto split: option.splits)
  moreover have "?V \<noteq> {}"
  proof -
    have "(case literal_to_meta_variable s ! v of None \<Rightarrow> {0..<length (metaVariables s)} | Some m \<Rightarrow> {m}) \<noteq> {}"
      using se by (auto simp: searchable_def split: option.splits)
    then show ?thesis using v pos by auto
  qed
  ultimately show ?thesis unfolding vars_vec_def by (simp only: sorted_list_of_set_eq_Nil_iff) simp
qed

definition few_bags :: "nat \<Rightarrow> nat \<Rightarrow> bool" where
  "few_bags n k \<longleftrightarrow> (case get_number_of_combinations n k of None \<Rightarrow> False | Some c \<Rightarrow> c \<le> LIMIT)"

lemma candidates_return:
  assumes m: "meta_index_ok s" and v: "vars_vec s \<noteq> []" and k: "0 < k" "k \<le> length (metaVariables s)" and f: "few_bags (length (metaVariables s)) k"
  shows "\<exists>bags. candidates s rnd k = Some bags"
proof -
  note vs = vars_vec_spec [OF m]
  have v0: "vars_vec s ! 0 < length (metaVariables s)" using vs(2) v by simp
  obtain bags where "all_bags s (first_bag (vars_vec s) k) (length (metaVariables s)) (vars_vec s) [] = Some bags"
    using all_bags_spec [OF vs(1) k(1) refl first_bag_comb [OF v0 k], of "[]"] by auto
  then show ?thesis using v f by (auto simp: candidates_def few_bags_def Let_def split: option.splits)
qed

lemma solve_stopped: "solve shuffle pick rnd stopped c k E q False s = Some (propagated s)"
  by (subst solve.simps) simp

lemma climb_measure:
  assumes "a' < (a :: nat)" "b' \<le> E"
  shows "a' * (E + 1) + b' < a * (E + 1) + b"
proof -
  have "(a' + 1) * (E + 1) \<le> a * (E + 1)" using assms(1) by (intro mult_right_mono) simp_all
  then show ?thesis using assms(2) by simp
qed

definition climbed :: "(nat \<Rightarrow> nat \<Rightarrow> nat) \<Rightarrow> (nat \<Rightarrow> bool) \<Rightarrow> nat \<Rightarrow> Solver \<Rightarrow> bool" where
  "climbed rnd stopped E s \<longleftrightarrow>
     \<not> open_clauses s \<or> (\<exists>q. stopped q) \<or> (\<exists>q bags. candidates s (rnd q) E = Some bags \<and> (\<forall>bag\<in>set bags. no_hit s bag))"


text \<open>Variable 1 is in the only clause and in the first of two metavariables.\<close>

definition ex_climb :: Solver where
  "ex_climb =
     (let mv = (\<lambda>c v. \<lparr>matrixIndex = 0, rowIndex = 0, columnIndex = c,
            mv_variables = [[Literal_dimacs v], [Literal_dimacs (- v)]], mv_values = [1, 2]\<rparr>)
      in \<lparr>clauses = [\<lparr>literals = [Literal_dimacs 1], satisfied = [False]\<rparr>], propagated = [2, 0, 0], sat = [False],
      metaVariables = [mv 0 1, mv 1 2], structuredMetaVariables = [], metaValues = [[[0, 0], [0, 0]]],
      literal_to_meta_variable = [None, Some 0, Some 1], literal_to_unsat = [0, 1, 0], weights = [1],
      solver_net = \<lparr>nodes = [], finalized = [], literal_to_nodes = [[], [], []], variable_to_node = [None, None, None]\<rparr>,
      clauses_count_satisfied = [0], literal_to_clause_with_positive_value = [[], [0], []],
      literal_to_clause_with_negative_value = [[], [], []], sum_weights = 1, satisfiedSum = 0,
      satisfiedCount = 0, coreSize = 0\<rparr>)"

fun first_hit :: "hit option list \<Rightarrow> hit" where
  "first_hit (Some h # hs) = h"
| "first_hit (None # hs) = first_hit hs"
| "first_hit [] = ([], [])"

lemma first_hit_picks: "picks first_hit"
proof -
  have "list_ex (\<lambda>h. h \<noteq> None) hs \<Longrightarrow> Some (first_hit hs) \<in> set hs" for hs
    by (induction hs rule: first_hit.induct) auto
  then show ?thesis by (simp add: picks_def)
qed

lemma ex_climb_ok: "climb_ok {0} {1, 2} ex_climb"
proof -
  have "index_ok {0} {1, 2} ex_climb" by (auto simp: index_ok_def ex_climb_def occ_def Literal_dimacs_def)
  moreover have "clauses_ok {0} ex_climb" by (simp add: clauses_ok_def ex_climb_def Literal_dimacs_def)
  moreover have "totals_ok {0} ex_climb"
    by (auto simp: totals_ok_def ex_climb_def Clause_propagate_def Literal_dimacs_def occurs_def nth_Cons' less_Suc_eq)
  moreover have "net_ok (length (propagated ex_climb)) (solver_net ex_climb)" by (auto simp: net_ok_def ex_climb_def nth_Cons' less_Suc_eq)
  moreover have "consistent (solver_net ex_climb) (propagated ex_climb)" by (simp add: consistent_def ex_climb_def)
  ultimately have "solver_ok {0} {1, 2} ex_climb" by (simp only: solver_ok_def) (simp add: ex_climb_def)
  moreover have "metas_ok {1, 2} ex_climb"
    by (auto simp: metas_ok_def metas_order_def meta_vars_def ex_climb_def Literal_dimacs_def Let_def nth_Cons' less_Suc_eq split: if_splits)
  ultimately show ?thesis by (simp add: climb_ok_def) (simp add: ex_climb_def)
qed

lemma ex_climb_searchable: "searchable ex_climb"
proof -
  have "meta_index_ok ex_climb"
  proof -
    have "list_all (\<lambda>i. case literal_to_meta_variable ex_climb ! i of None \<Rightarrow> True | Some m \<Rightarrow> m < length (metaVariables ex_climb))
      [0..<length (literal_to_unsat ex_climb)]"
      by (simp add: ex_climb_def Let_def numeral_eq_Suc)
    then show ?thesis unfolding meta_index_ok_def list_all_iff by (simp add: split: option.splits)
  qed
  moreover have "\<forall>mv\<in>set (metaVariables ex_climb). \<forall>x\<in>meta_vars mv. x < length (propagated ex_climb)"
    by (simp add: ex_climb_def Let_def meta_vars_def Literal_dimacs_def)
  moreover have "metaVariables ex_climb \<noteq> []" by (simp add: ex_climb_def Let_def)
  ultimately show ?thesis by (simp only: searchable_def) (simp add: ex_climb_def Literal_dimacs_def)
qed


end
