(* ===== verification/Lsq_Text.thy ===== *)
theory Lsq_Text
  imports Main
begin

text \<open>
  Characters, and numbers in decimal, as the operators of C++ streams and the functions of ctype.h
  read and write them; integers are not bounded.
\<close>

section \<open>Streams\<close>

definition is_space :: "char \<Rightarrow> bool" where
  "is_space c \<longleftrightarrow> c \<in> {CHR '' '', CHR 0x09, CHR 0x0A, CHR 0x0B, CHR 0x0C, CHR 0x0D}"

definition digit :: "char \<Rightarrow> nat option" where
  "digit c = (let n = of_char c :: nat in if 48 \<le> n \<and> n \<le> 57 then Some (n - 48) else None)"

fun digits :: "string \<Rightarrow> nat \<Rightarrow> nat \<times> string" where
  "digits [] n = (n, [])"
| "digits (c # cs) n = (case digit c of None \<Rightarrow> (n, c # cs) | Some d \<Rightarrow> digits cs (10 * n + d))"

text \<open>The operator for integers: spaces, an optional sign, at least one digit.\<close>

fun sign :: "string \<Rightarrow> bool \<times> string" where
  "sign [] = (False, [])"
| "sign (c # cs) = (if c = CHR ''-'' then (True, cs) else if c = CHR ''+'' then (False, cs) else (False, c # cs))"

definition read_int :: "string \<Rightarrow> (int \<times> string) option" where
  "read_int s =
     (let (neg, s) = sign (dropWhile is_space s)
      in if s = [] \<or> digit (hd s) = None then None
         else (let (n, rest) = digits s 0 in Some (if neg then - int n else int n, rest)))"

definition read_word :: "string \<Rightarrow> string \<times> string" where
  "read_word s = (let s = dropWhile is_space s in (takeWhile (\<lambda>c. \<not> is_space c) s, dropWhile (\<lambda>c. \<not> is_space c) s))"

lemma digits_length: "length (snd (digits s n)) \<le> length s"
  by (induction s n rule: digits.induct) (auto split: option.splits)

lemma sign_length: "length (snd (sign s)) \<le> length s"
  by (cases s) auto

lemma read_int_length: "read_int s = Some (v, rest) \<Longrightarrow> length rest < length s"
proof -
  assume r: "read_int s = Some (v, rest)"
  obtain neg t where t: "sign (dropWhile is_space s) = (neg, t)" by (metis surj_pair)
  have l: "length t \<le> length s"
    using sign_length [of "dropWhile is_space s"] length_dropWhile_le [of is_space s] t by simp
  have ne: "t \<noteq> [] \<and> digit (hd t) \<noteq> None" using r t by (simp add: read_int_def split: if_splits)
  then obtain c cs d where c: "t = c # cs" "digit c = Some d" by (cases t) auto
  have "rest = snd (digits t 0)" using r t ne by (simp add: read_int_def split: prod.splits)
  then have "rest = snd (digits cs d)" using c by simp
  then have "length rest < length t" using digits_length [of cs d] c(1) by simp
  then show ?thesis using l by simp
qed

text \<open>The loop that reads integers while there are any.\<close>

function ints :: "string \<Rightarrow> int list" where
  "ints s = (case read_int s of None \<Rightarrow> [] | Some (v, rest) \<Rightarrow> v # ints rest)"
  by pat_completeness auto
termination by (relation "measure length") (auto dest: read_int_length)

declare ints.simps [simp del]

section \<open>Writing numbers\<close>

definition newline :: char where "newline = CHR 0x0A"

fun show_nat :: "nat \<Rightarrow> string" where
  "show_nat n = (if n < 10 then [char_of (48 + n)] else show_nat (n div 10) @ [char_of (48 + n mod 10)])"

declare show_nat.simps [simp del]

lemma digit_char: "d < 10 \<Longrightarrow> digit (char_of (48 + d)) = Some d"
  by (simp add: digit_def)

lemma space_no_digit: "is_space c \<Longrightarrow> digit c = None"
  by (auto simp: is_space_def digit_def)

lemma digit_no_sign: "digit c \<noteq> None \<Longrightarrow> \<not> is_space c \<and> c \<noteq> CHR ''-'' \<and> c \<noteq> CHR ''+''"
  by (auto simp: is_space_def digit_def)

lemma digits_show: "\<exists>p. \<forall>k s. digits (show_nat n @ s) k = digits s (k * p + n)"
proof (induction n rule: less_induct)
  case (less n)
  show ?case
  proof (cases "n < 10")
    case True
    then have "digits (show_nat n @ s) k = digits s (k * 10 + n)" for k s
      using digit_char [of n] by (simp add: show_nat.simps mult.commute)
    then show ?thesis by blast
  next
    case False
    then obtain p where p: "digits (show_nat (n div 10) @ s) k = digits s (k * p + n div 10)" for k s
      using less [of "n div 10"] by auto
    have "digits (show_nat n @ s) k = digits s (k * (10 * p) + n)" for k s
    proof -
      have "show_nat n @ s = show_nat (n div 10) @ char_of (48 + n mod 10) # s"
        using False by (simp add: show_nat.simps [of n])
      moreover have "10 * (k * p + n div 10) + n mod 10 = k * (10 * p) + n" by (simp add: algebra_simps)
      moreover have "digits (char_of (48 + n mod 10) # s) (k * p + n div 10) = digits s (10 * (k * p + n div 10) + n mod 10)"
        using digit_char [of "n mod 10"] by simp
      ultimately show ?thesis using p by metis
    qed
    then show ?thesis by blast
  qed
qed

lemma show_nat_hd: "show_nat n \<noteq> [] \<and> digit (hd (show_nat n)) \<noteq> None"
proof (induction n rule: less_induct)
  case (less n)
  show ?case
  proof (cases "n < 10")
    case True
    then show ?thesis using digit_char [of n] by (simp add: show_nat.simps)
  next
    case False
    then show ?thesis using less [of "n div 10"] by (simp add: show_nat.simps [of n])
  qed
qed

lemma ints_space: "is_space c \<Longrightarrow> ints (c # s) = ints s"
proof -
  assume "is_space c"
  then have "read_int (c # s) = read_int s" by (simp add: read_int_def)
  then show ?thesis by (simp add: ints.simps [of "c # s"] ints.simps [of s])
qed

end
