(* ===== verification/Ls_Main.thy ===== *)
theory Ls_Main
  imports Ls_Search Lsq_Text
begin

text \<open>
  The program of the local search, src/localsearch/main.cpp: the extended DIMACS reader, the
  initial assignment, the command line and the solution that is written; and the two readers of
  src/incremental/incremental.cpp.  A file is the list of its lines; a stream of characters is
  read by the operators of C++ for words and integers, without a bound on the size of integers.
\<close>

section \<open>The initial assignment\<close>

definition text_of :: "string list \<Rightarrow> string" where
  "text_of ls = concat (map (\<lambda>l. l @ [newline]) ls)"

definition readFirst :: "string list \<Rightarrow> nat list" where
  "readFirst file =
     (let (temp, rest) = read_word (text_of file)
      in 2 # map (\<lambda>k. of_bool (valu (Literal_in k))) (ints rest))"

section \<open>The formula\<close>

datatype parameter = CORE_VARIABLES | NET | META_VARIABLES | WEIGHTS | TO_COMPUTE | NOTHING

record Header =
  param :: parameter
  h_core :: "Literal list"
  h_metas :: "MetaVariable list"
  h_weights :: "32 word list"
  h_compute :: "nat list"
  h_net :: Net

definition Header_init :: Header where
  "Header_init = \<lparr>param = NOTHING, h_core = [], h_metas = [], h_weights = [], h_compute = [],
     h_net = \<lparr>nodes = [], finalized = [], literal_to_nodes = [], variable_to_node = []\<rparr>\<rparr>"

definition drop_word :: "string \<Rightarrow> string" where
  "drop_word s = snd (read_word s)"

text \<open>An integer of a line; 0 when there is none.\<close>

definition int_or_0 :: "string \<Rightarrow> int \<times> string" where
  "int_or_0 s = (case read_int s of None \<Rightarrow> (0, []) | Some r \<Rightarrow> r)"

definition parse_line :: "string \<Rightarrow> Net \<Rightarrow> Net" where
  "parse_line line net =
     (let (tag, s) = read_word (drop_word line);
          (v, s) = int_or_0 s
      in parse_node tag (nat v) (ints s) (fst (read_word s)) net)"

definition add_value :: "string \<Rightarrow> MetaVariable \<Rightarrow> MetaVariable" where
  "add_value line mv =
     (let (val, s) = int_or_0 (drop_word line)
      in mv\<lparr>mv_variables := mv_variables mv @ [map Literal_in (ints s)], mv_values := mv_values mv @ [nat (val mod 256)]\<rparr>)"

definition new_var :: "string \<Rightarrow> MetaVariable" where
  "new_var line =
     (let (m, s) = int_or_0 (drop_word (drop_word line)); (r, s) = int_or_0 s; (c, s) = int_or_0 s
      in \<lparr>matrixIndex = nat (m mod 256), rowIndex = nat (r mod 256), columnIndex = nat (c mod 256),
          mv_variables = [], mv_values = []\<rparr>)"

definition set_back :: "'a \<Rightarrow> 'a list \<Rightarrow> 'a list" where
  "set_back x xs = butlast xs @ [x]"

text \<open>One line of the header; None when a value comes before any metavariable.\<close>

definition header_line :: "string \<Rightarrow> Header \<Rightarrow> Header option" where
  "header_line line h =
     (if line = ''c core variables:'' then Some (h\<lparr>param := CORE_VARIABLES\<rparr>)
      else if line = ''c computationalNet:'' then Some (h\<lparr>param := NET\<rparr>)
      else if line = ''c metaVariables:'' then Some (h\<lparr>param := META_VARIABLES\<rparr>)
      else if line = ''c incrementalVariables:'' then Some (h\<lparr>param := NOTHING\<rparr>)
      else if line = ''c weights:'' then Some (h\<lparr>param := WEIGHTS\<rparr>)
      else if line = ''c toCompute:'' then Some (h\<lparr>param := TO_COMPUTE\<rparr>)
      else
        (case param h of
           CORE_VARIABLES \<Rightarrow> Some (h\<lparr>h_core := h_core h @ map Literal_dimacs (ints (drop_word line)), param := NOTHING\<rparr>)
         | NET \<Rightarrow> Some (h\<lparr>h_net := parse_line line (h_net h)\<rparr>)
         | META_VARIABLES \<Rightarrow>
             if take 8 line = ''c newVar'' then Some (h\<lparr>h_metas := h_metas h @ [new_var line]\<rparr>)
             else if h_metas h = [] then None
             else Some (h\<lparr>h_metas := set_back (add_value line (last (h_metas h))) (h_metas h)\<rparr>)
         | WEIGHTS \<Rightarrow> Some (h\<lparr>h_weights := h_weights h @ map of_int (ints (drop_word line)), param := NOTHING\<rparr>)
         | TO_COMPUTE \<Rightarrow>
             Some (h\<lparr>h_compute := h_compute h @ map (\<lambda>i. nat (i mod 2 ^ 32)) (ints (drop_word line)), param := NOTHING\<rparr>)
         | NOTHING \<Rightarrow> Some h))"

text \<open>The loop over the lines of the header; it handles the first line after it as well.\<close>

fun read_header :: "string list \<Rightarrow> Header \<Rightarrow> (Header \<times> string \<times> string list) option" where
  "read_header [] h = map_option (\<lambda>h. (h, [], [])) (header_line [] h)"
| "read_header (line # ls) h =
     (case header_line line h of
        None \<Rightarrow> None
      | Some h \<Rightarrow> if take 1 line = ''c'' then read_header ls h else Some (h, line, ls))"

fun read_clauses :: "nat \<Rightarrow> int list \<Rightarrow> Clause list option" where
  "read_clauses 0 vs = Some []"
| "read_clauses (Suc n) vs =
     (case Clause_in vs of
        None \<Rightarrow> None
      | Some (ls, vs) \<Rightarrow> map_option ((#) \<lparr>literals = ls, satisfied = []\<rparr>) (read_clauses n vs))"

definition readDimacs :: "string list \<Rightarrow> CNF option" where
  "readDimacs file =
     (case read_header file Header_init of
        None \<Rightarrow> None
      | Some (h, line, ls) \<Rightarrow>
          let (literalCount, s) = int_or_0 (drop 5 line); (clausesNumber, s) = int_or_0 s
          in case read_clauses (nat clausesNumber) (ints (text_of ls)) of
               None \<Rightarrow> None
             | Some cs \<Rightarrow> CNF_new cs (nat literalCount) (h_core h) (h_metas h) (h_net h) (h_weights h) (h_compute h))"

section \<open>The command line\<close>

record Args =
  input :: string
  outputfile :: "string option"
  thread_count :: nat
  bag_start :: nat
  bag_end :: nat
  first_file :: "string option"
  logging :: bool

definition atoi :: "string \<Rightarrow> nat" where
  "atoi s = nat (fst (int_or_0 s) mod 2 ^ 32)"

definition parse_args :: "string list \<Rightarrow> Args" where
  "parse_args argv =
     (let argc = length argv; l = ''-l''
      in \<lparr>input = argv ! 1,
          outputfile = (if argc > 2 then Some (argv ! 2) else None),
          thread_count = (if argc > 3 then atoi (argv ! 3) else 1),
          bag_start = (if argc > 4 \<and> argv ! 4 \<noteq> l then atoi (argv ! 4) else 1),
          bag_end = (if argc > 5 \<and> argv ! 5 \<noteq> l then atoi (argv ! 5) else 1),
          first_file = (if argc > 6 \<and> argv ! 6 \<noteq> l then Some (argv ! 6) else None),
          logging = l \<in> set (tl argv)\<rparr>)"

section \<open>The solution\<close>

definition show_unit :: "nat \<times> nat \<Rightarrow> string" where
  "show_unit = (\<lambda>(i, v). (if v = 0 then ''-'' else if v = 2 then ''?'' else []) @ show_nat i @ '' '')"

definition write_solution :: "nat list \<Rightarrow> string list" where
  "write_solution solved = [''SAT'', concat (map show_unit (List.enumerate 1 (tl solved)))]"

definition main_files :: "(nat list list \<Rightarrow> nat list list) \<Rightarrow> (hit option list \<Rightarrow> hit) \<Rightarrow> (nat \<Rightarrow> nat \<Rightarrow> nat) \<Rightarrow> (nat \<Rightarrow> bool) \<Rightarrow>
    (string \<Rightarrow> string list) \<Rightarrow> string list \<Rightarrow> string list option" where
  "main_files shuffle pick rnd stopped files argv =
     (let a = parse_args argv;
          first = (case first_file a of None \<Rightarrow> [] | Some f \<Rightarrow> readFirst (files f))
      in case readDimacs (files (input a)) of
           None \<Rightarrow> None
         | Some cnf \<Rightarrow>
             (case HillClimbingSolver (rnd 0) cnf first of
                None \<Rightarrow> None
              | Some s \<Rightarrow>
                  map_option write_solution
                    (solve shuffle pick (\<lambda>q. rnd (q + 1)) stopped (thread_count a) (bag_start a) (bag_end a) 0 True s)))"

section \<open>Reading what was written\<close>

lemma read_int_show:
  assumes "v \<le> 1"
  shows "read_int (show_unit (i, v) @ rest) = Some (if v = 0 then - int i else int i, CHR '' '' # rest)"
proof -
  obtain c cs where c: "show_nat i = c # cs" "digit c \<noteq> None" using show_nat_hd [of i] by (cases "show_nat i") auto
  note n = digit_no_sign [OF c(2)]
  obtain p where p: "digits (show_nat i @ s) k = digits s (k * p + i)" for k s using digits_show [of i] by blast
  have d: "digits (show_nat i @ CHR '' '' # rest) 0 = (i, CHR '' '' # rest)"
    using p [of "CHR '' '' # rest" 0] space_no_digit [of "CHR '' ''"] by (simp add: is_space_def)
  have sp: "\<not> is_space CHR ''-''" by (simp add: is_space_def)
  have "v = 0 \<or> v = 1" using assms by auto
  then show ?thesis using d n c sp by (auto simp: read_int_def show_unit_def)
qed

lemma ints_show:
  "list_all (\<lambda>(i, v). v \<le> 1) us \<Longrightarrow>
     ints (concat (map show_unit us) @ s) = map (\<lambda>(i, v). if v = 0 then - int i else int i) us @ ints s"
proof (induction us)
  case (Cons u us)
  obtain i v where u: "u = (i, v)" by (cases u)
  let ?rest = "concat (map show_unit us) @ s"
  have "read_int (show_unit (i, v) @ ?rest) = Some (if v = 0 then - int i else int i, CHR '' '' # ?rest)"
    using Cons.prems u by (intro read_int_show) simp
  then have "ints (show_unit (i, v) @ ?rest) = (if v = 0 then - int i else int i) # ints (CHR '' '' # ?rest)"
    by (subst ints.simps) simp
  also have "ints (CHR '' '' # ?rest) = ints ?rest" by (rule ints_space) (simp add: is_space_def)
  finally show ?case using Cons u by simp
qed simp

text \<open>
  C38: The solution that the program writes can be read back as an initial assignment: for every
  complete assignment readFirst of the written file gives the assignment again, with the unused
  entry 2 in front.
\<close>

theorem readFirst_write_solution:
  assumes "list_all (\<lambda>v. v \<le> 1) us"
  shows "readFirst (write_solution (2 # us)) = 2 # us"
proof -
  let ?us = "List.enumerate 1 us"
  have "v \<le> 1" if "(i, v) \<in> set ?us" for i v
  proof -
    have "v \<in> set us" using that by (metis in_set_conv_nth length_enumerate nth_enumerate_eq snd_conv)
    then show ?thesis using assms by (simp add: list_all_iff)
  qed
  then have le: "list_all (\<lambda>(i, v). v \<le> 1) ?us" by (auto simp: list_all_iff)
  have nl: "is_space newline" by (simp add: is_space_def newline_def)
  have S: "\<not> is_space (CHR ''S'')" "\<not> is_space (CHR ''A'')" "\<not> is_space (CHR ''T'')" by (simp_all add: is_space_def)
  have e: "ints [newline] = []"
    by (subst ints_space [OF nl]) (subst ints.simps, simp add: read_int_def)
  have "text_of (write_solution (2 # us)) = ''SAT'' @ newline # (concat (map show_unit ?us) @ [newline])"
    by (simp add: text_of_def write_solution_def)
  then have "snd (read_word (text_of (write_solution (2 # us)))) = newline # (concat (map show_unit ?us) @ [newline])"
    using S nl by (simp add: read_word_def)
  then have "readFirst (write_solution (2 # us)) =
      2 # map (\<lambda>k. of_bool (valu (Literal_in k))) (map (\<lambda>(i, v). if v = 0 then - int i else int i) ?us)"
    using ints_show [OF le, of "[newline]"] ints_space [OF nl] e by (simp add: readFirst_def case_prod_beta)
  moreover have "map (\<lambda>k. of_bool (valu (Literal_in k))) (map (\<lambda>(i, v). if v = 0 then - int i else int i) ?us) = us"
  proof (rule nth_equalityI)
    fix j assume "j < length (map (\<lambda>k. of_bool (valu (Literal_in k))) (map (\<lambda>(i, v). if v = 0 then - int i else int i) ?us))"
    then have j: "j < length us" by simp
    then have "us ! j = 0 \<or> us ! j = 1" using assms by (auto simp: list_all_length)
    then show "map (\<lambda>k. of_bool (valu (Literal_in k))) (map (\<lambda>(i, v). if v = 0 then - int i else int i) ?us) ! j = us ! j"
      using j by (auto simp: nth_enumerate_eq Literal_in_def)
  qed simp
  ultimately show ?thesis by simp
qed

theorem readFirst_write_solution_witness: "readFirst (write_solution [2, 1, 0, 0, 1]) = [2, 1, 0, 0, 1]"
  by (rule readFirst_write_solution) simp

section \<open>Lines that are not what they seem\<close>

text \<open>
  The first line after the header is still handled as a line of the last section: after
  metavariables it adds a value without literals to the last one, and after the net it enters a
  node that does not exist for the last variable.
\<close>

lemma problem_line_as_value:
  "param h = META_VARIABLES \<Longrightarrow> h_metas h = mvs @ [mv] \<Longrightarrow>
     header_line ''p cnf 3 2'' h = Some (h\<lparr>h_metas := mvs @ [mv\<lparr>mv_variables := mv_variables mv @ [[]], mv_values := mv_values mv @ [0]\<rparr>]\<rparr>)"
  by (simp add: header_line_def set_back_def add_value_def drop_word_def read_word_def is_space_def int_or_0_def
      read_int_def digit_def ints.simps)

lemma problem_line_as_node:
  "param h = NET \<Longrightarrow> header_line ''p cnf 3 2'' h =
     Some (h\<lparr>h_net := (h_net h)\<lparr>variable_to_node := (grow None 3 (variable_to_node (h_net h)))[3 := Some (length (nodes (h_net h)))]\<rparr>\<rparr>)"
  by (simp add: header_line_def parse_line_def drop_word_def read_word_def is_space_def int_or_0_def
      read_int_def digit_def parse_node_def)

text \<open>The generator writes c incrementalExprs:, which is not the name the reader knows.\<close>

lemma incrementalExprs_as_value:
  "param h = META_VARIABLES \<Longrightarrow> h_metas h = mvs @ [mv] \<Longrightarrow>
     header_line ''c incrementalExprs:'' h = Some (h\<lparr>h_metas := mvs @ [mv\<lparr>mv_variables := mv_variables mv @ [[]], mv_values := mv_values mv @ [0]\<rparr>]\<rparr>)"
  by (simp add: header_line_def set_back_def add_value_def drop_word_def read_word_def is_space_def int_or_0_def
      read_int_def digit_def ints.simps)

end
