(* ===== verification/Inc_Main.thy ===== *)
theory Inc_Main
  imports Ls_Main
begin

text \<open>
  The incremental driver, src/incremental/incremental.cpp: the main clauses of a DIMACS file, the
  groups of clauses in its comments, and the loop that adds one group after the other until the
  formula is unsatisfiable.  The SAT solver cryptominisat is a parameter: from the clauses added so
  far to a model, or none.
\<close>

record Lit =
  var :: nat
  inverted :: bool

definition isPositive :: "int \<Rightarrow> bool" where
  "isPositive n \<longleftrightarrow> n > 0"

definition lit_of :: "int \<Rightarrow> Lit" where
  "lit_of l = \<lparr>var = nat (\<bar>l\<bar> - 1), inverted = \<not> isPositive l\<rparr>"

section \<open>The main clauses\<close>

fun skip_comments :: "string list \<Rightarrow> string \<times> string list" where
  "skip_comments [] = ([], [])"
| "skip_comments (line # ls) = (if take 1 line = ''c'' then skip_comments ls else (line, ls))"

fun clause_lits :: "int list \<Rightarrow> (Lit list \<times> int list) option" where
  "clause_lits [] = None"
| "clause_lits (l # ls) = (if l = 0 then Some ([], ls) else map_option (\<lambda>(c, rest). (lit_of l # c, rest)) (clause_lits ls))"

fun clauses_lits :: "nat \<Rightarrow> int list \<Rightarrow> Lit list list option" where
  "clauses_lits 0 vs = Some []"
| "clauses_lits (Suc n) vs =
     (case clause_lits vs of None \<Rightarrow> None | Some (c, vs) \<Rightarrow> map_option ((#) c) (clauses_lits n vs))"

text \<open>With the number of variables, a global of the program.\<close>

definition parseClauses :: "string list \<Rightarrow> (nat \<times> Lit list list) option" where
  "parseClauses file =
     (let (line, ls) = skip_comments file;
          (literalCount, s) = int_or_0 (drop_word (drop_word line)); (clauseCount, s) = int_or_0 s
      in map_option (Pair (nat literalCount)) (clauses_lits (nat clauseCount) (ints (text_of ls))))"

section \<open>The groups of clauses\<close>

definition literal_line :: "string \<Rightarrow> bool" where
  "literal_line line = (case drop 2 line of [] \<Rightarrow> False | c # _ \<Rightarrow> digit c \<noteq> None \<or> c = CHR ''-'')"

definition line_lits :: "string \<Rightarrow> Lit list" where
  "line_lits line = map lit_of (ints (drop_word line))"

text \<open>The clauses from the current line on; the line that ends them and the lines after it.\<close>

fun group_lines :: "string \<Rightarrow> string list \<Rightarrow> Lit list list \<times> string \<times> string list" where
  "group_lines line [] = (if literal_line line then ([line_lits line], [], []) else ([], line, []))"
| "group_lines line (l # ls) =
     (if literal_line line
      then (let (cs, rest) = group_lines l ls in (line_lits line # cs, rest))
      else ([], line, l # ls))"

lemma group_lines_length: "group_lines line ls = (cs, line', rest) \<Longrightarrow> length rest \<le> length ls"
  by (induction line ls arbitrary: cs rule: group_lines.induct) (fastforce split: if_splits prod.splits)+

function groups :: "string \<Rightarrow> string list \<Rightarrow> Lit list list list" where
  "groups line ls =
     (if line \<noteq> ''c expr:'' then []
      else
        (case ls of
           [] \<Rightarrow> [[]]
         | l # ls \<Rightarrow> (case group_lines l ls of (cs, line, ls) \<Rightarrow> cs # groups line ls)))"
  by pat_completeness auto
termination
proof (relation "measure (\<lambda>(line, ls). length ls)")
  fix line l line' :: string and ls ls' rest :: "string list" and cs y
  assume a: "ls = l # ls'" "(cs, y) = group_lines l ls'" "(line', rest) = y"
  then have "length rest \<le> length ls'" using group_lines_length [of l ls' cs line' rest] by simp
  then show "((line', rest), (line, ls)) \<in> measure (\<lambda>(line, ls). length ls)" using a(1) by simp
qed simp

declare groups.simps [simp del]

fun parseLiterals :: "string list \<Rightarrow> Lit list list list" where
  "parseLiterals [] = []"
| "parseLiterals (line # ls) =
     (if take 1 line \<noteq> ''c'' then []
      else if line = ''c incrementalExprs:'' then (case ls of [] \<Rightarrow> [] | l # ls \<Rightarrow> groups l ls)
      else parseLiterals ls)"

section \<open>The loop\<close>

definition buildString :: "string \<Rightarrow> string \<Rightarrow> nat \<Rightarrow> string" where
  "buildString prefix name index = prefix @ name @ show_nat index"

definition model_literals :: "bool list \<Rightarrow> int list" where
  "model_literals model = map (\<lambda>(i, b). (int i + 1) * (if b then 1 else - 1)) (List.enumerate 0 model)"

text \<open>The files written, by name, with the literals of the model.\<close>

fun add_groups :: "(nat \<Rightarrow> Lit list list \<Rightarrow> bool list option) \<Rightarrow> nat \<Rightarrow> string \<Rightarrow> nat \<Rightarrow> Lit list list \<Rightarrow> Lit list list list \<Rightarrow> (string \<times> int list) list" where
  "add_groups sat_solver n out i added [] = []"
| "add_groups sat_solver n out i added (g # gs) =
     (case sat_solver n (added @ g) of
        None \<Rightarrow> []
      | Some model \<Rightarrow> (buildString out ''_'' i, model_literals model) # add_groups sat_solver n out (i + 1) (added @ g) gs)"

definition incremental_main :: "(nat \<Rightarrow> Lit list list \<Rightarrow> bool list option) \<Rightarrow> (string \<Rightarrow> string list) \<Rightarrow> string list \<Rightarrow> nat \<times> (string \<times> int list) list option" where
  "incremental_main sat_solver files argv =
     (if length argv < 3 \<or> length argv > 4 then (1, None)
      else
        (0, map_option (\<lambda>(n, mainClauses). add_groups sat_solver n (argv ! 2) 0 mainClauses (parseLiterals (files (argv ! 1))))
              (parseClauses (files (argv ! 1)))))"

section \<open>Every written model satisfies what was added\<close>

definition lit_holds :: "bool list \<Rightarrow> Lit \<Rightarrow> bool" where
  "lit_holds model l \<longleftrightarrow> var l < length model \<and> model ! var l = (\<not> inverted l)"

definition sound_solver :: "(nat \<Rightarrow> Lit list list \<Rightarrow> bool list option) \<Rightarrow> bool" where
  "sound_solver sat_solver \<longleftrightarrow> (\<forall>n cs model. sat_solver n cs = Some model \<longrightarrow> list_all (list_ex (lit_holds model)) cs)"

text \<open>The assignment that a written list of literals stands for.\<close>

definition model_of :: "int list \<Rightarrow> bool list" where
  "model_of ls = map (\<lambda>l. l > 0) ls"

lemma model_of_literals: "model_of (model_literals model) = model"
  by (rule nth_equalityI) (auto simp: model_of_def model_literals_def nth_enumerate_eq zero_less_mult_iff)

lemma add_groups_spec:
  assumes "sound_solver sat_solver"
  shows "j < length (add_groups sat_solver n out i added gs) \<Longrightarrow>
    list_all (list_ex (lit_holds (model_of (snd (add_groups sat_solver n out i added gs ! j))))) (added @ concat (take (Suc j) gs))"
proof (induction gs arbitrary: i added j)
  case (Cons g gs)
  show ?case
  proof (cases "sat_solver n (added @ g)")
    case (Some model)
    have m: "list_all (list_ex (lit_holds model)) (added @ g)" using assms Some unfolding sound_solver_def by blast
    show ?thesis
    proof (cases j)
      case 0
      then show ?thesis using Some m by (simp add: model_of_literals)
    next
      case (Suc k)
      then show ?thesis using Cons.IH [of k "i + 1" "added @ g"] Cons.prems Some by simp
    qed
  qed (use Cons.prems in simp)
qed simp

text \<open>
  C13: Given a solver that only returns models of its clauses, the model that the incremental driver
  writes for group j satisfies the main clauses and the groups up to j.
\<close>

theorem incremental_sound:
  assumes "sound_solver sat_solver" "incremental_main sat_solver files argv = (0, Some written)"
    and "parseClauses (files (argv ! 1)) = Some (n, mainClauses)" "j < length written"
  shows "list_all (list_ex (lit_holds (model_of (snd (written ! j)))))
    (mainClauses @ concat (take (Suc j) (parseLiterals (files (argv ! 1)))))"
proof -
  have "written = add_groups sat_solver n (argv ! 2) 0 mainClauses (parseLiterals (files (argv ! 1)))"
    using assms(2,3) by (simp add: incremental_main_def split: if_splits)
  then show ?thesis using add_groups_spec [OF assms(1)] assms(4) by blast
qed

definition ex_file :: "string list" where
  "ex_file = [''c incrementalExprs:'', ''c expr:'', ''c -2 1'', ''c 2'', ''p cnf 2 1'', ''1 2 0'']"

definition ex_sat :: "nat \<Rightarrow> Lit list list \<Rightarrow> bool list option" where
  "ex_sat n cs = (if list_all (list_ex (lit_holds [True, True])) cs then Some [True, True] else None)"

lemma ex_file_parsed:
  "parseClauses ex_file = Some (2, [[lit_of 1, lit_of 2]])"
  "parseLiterals ex_file = [[[lit_of (-2), lit_of 1], [lit_of 2]]]"
proof -
  note stream = read_int_def read_word_def is_space_def digit_def
  have 1: "read_int ''1 2 0 '' = Some (1, '' 2 0 '')" by (simp add: stream)
  have 2: "read_int '' 2 0 '' = Some (2, '' 0 '')" by (simp add: stream)
  have 3: "read_int '' 0 '' = Some (0, '' '')" by (simp add: stream)
  have "text_of [''1 2 0''] = ''1 2 0'' @ [newline]" by (simp add: text_of_def)
  have 4: "ints (''1 2 0'' @ [newline]) = [1, 2, 0]"
    by (simp add: ints.simps stream newline_def)
  show "parseClauses ex_file = Some (2, [[lit_of 1, lit_of 2]])" using 4
    by (simp add: parseClauses_def ex_file_def drop_word_def stream int_or_0_def text_of_def numeral_eq_Suc)
  show "parseLiterals ex_file = [[[lit_of (-2), lit_of 1], [lit_of 2]]]"
    by (simp add: ex_file_def groups.simps literal_line_def line_lits_def drop_word_def ints.simps stream)
qed

theorem incremental_sound_witness:
  "list_all (list_ex (lit_holds (model_of (snd ([(''out_0'', [1, 2])] ! 0)))))
    ([[lit_of 1, lit_of 2]] @ concat (take (Suc 0) (parseLiterals ex_file)))"
proof -
  have zero: "show_nat 0 = ''0''" by code_simp
  have "sound_solver ex_sat" by (simp add: sound_solver_def ex_sat_def)
  moreover have "incremental_main ex_sat (\<lambda>_. ex_file) [''incremental'', ''in'', ''out''] = (0, Some [(''out_0'', [1, 2])])"
    by (simp add: incremental_main_def ex_file_parsed ex_sat_def lit_holds_def lit_of_def isPositive_def buildString_def
        zero model_literals_def)
  ultimately show ?thesis
    using incremental_sound [of ex_sat "\<lambda>_. ex_file" "[''incremental'', ''in'', ''out'']" "[(''out_0'', [1, 2])]" 2 "[[lit_of 1, lit_of 2]]" 0]
      ex_file_parsed(1) by simp
qed

end
