(* ===== verification/Pl_Buffer.thy ===== *)
theory Pl_Buffer
  imports Main
begin

text \<open>
  The lock free queue of painless, src/painless-v2/painless-src/clauses/ClauseBuffer.cpp, one
  access to the shared memory after another.  A node is an index into the nodes ever allocated,
  where a deleted one is None: memory is not used again.  A step that reads a deleted node, or
  through a null pointer, fails.  The value of a local variable is an argument of the position in
  the code; a failed compare_exchange also writes its expected value to the local variable, which
  every path reads again before it uses it.
\<close>

section \<open>The shared memory\<close>

record ListElement =
  clause :: "nat option"
  nxt :: "nat option"

record ListRoot =
  nodes :: "ListElement option list"
  bhead :: nat
  btail :: nat
  bsize :: int

definition new_ClauseBuffer :: ListRoot where
  "new_ClauseBuffer = \<lparr>nodes = [Some \<lparr>clause = None, nxt = None\<rparr>], bhead = 0, btail = 0, bsize = 0\<rparr>"

definition node_at :: "ListRoot \<Rightarrow> nat \<Rightarrow> ListElement option" where
  "node_at b p = (if p < length (nodes b) then nodes b ! p else None)"

definition new_node :: "nat \<Rightarrow> ListRoot \<Rightarrow> nat \<times> ListRoot" where
  "new_node c b = (length (nodes b), b\<lparr>nodes := nodes b @ [Some \<lparr>clause = Some c, nxt = None\<rparr>]\<rparr>)"

section \<open>The two operations\<close>

datatype pc =
    Idle
  | Add_tail nat
  | Add_next nat nat
  | Add_check nat nat "nat option"
  | Add_link nat nat
  | Add_help nat nat nat
  | Add_swing nat nat
  | Add_size
  | Get_head
  | Get_tail nat
  | Get_next nat nat
  | Get_check nat nat "nat option"
  | Get_help nat nat
  | Get_clause nat "nat option"
  | Get_move nat nat "nat option"
  | Get_delete nat "nat option"
  | Get_size "nat option"
  | Got "nat option"
  | Missed

fun addClause_step :: "pc \<Rightarrow> ListRoot \<Rightarrow> (pc \<times> ListRoot) option" where
  "addClause_step (Add_tail node) b = Some (Add_next node (btail b), b)"
| "addClause_step (Add_next node t) b =
     (case node_at b t of None \<Rightarrow> None | Some e \<Rightarrow> Some (Add_check node t (nxt e), b))"
| "addClause_step (Add_check node t n) b =
     Some (if t = btail b
           then (case n of None \<Rightarrow> Add_link node t | Some n \<Rightarrow> Add_help node t n) else Add_tail node, b)"
| "addClause_step (Add_link node t) b =
     (case node_at b t of
        None \<Rightarrow> None
      | Some e \<Rightarrow> Some (if nxt e = None
                        then (Add_swing node t, b\<lparr>nodes := (nodes b)[t := Some (e\<lparr>nxt := Some node\<rparr>)]\<rparr>)
                        else (Add_tail node, b)))"
| "addClause_step (Add_help node t n) b =
     Some (Add_tail node, if btail b = t then b\<lparr>btail := n\<rparr> else b)"
| "addClause_step (Add_swing node t) b = Some (Add_size, if btail b = t then b\<lparr>btail := node\<rparr> else b)"
| "addClause_step Add_size b = Some (Idle, b\<lparr>bsize := bsize b + 1\<rparr>)"
| "addClause_step _ b = None"

fun getClause_step :: "pc \<Rightarrow> ListRoot \<Rightarrow> (pc \<times> ListRoot) option" where
  "getClause_step Get_head b = Some (Get_tail (bhead b), b)"
| "getClause_step (Get_tail h) b = Some (Get_next h (btail b), b)"
| "getClause_step (Get_next h t) b =
     (case node_at b h of None \<Rightarrow> None | Some e \<Rightarrow> Some (Get_check h t (nxt e), b))"
| "getClause_step (Get_check h t n) b =
     Some (if h = bhead b
           then (if h = t then (case n of None \<Rightarrow> Missed | Some n \<Rightarrow> Get_help t n) else Get_clause h n)
           else Get_head, b)"
| "getClause_step (Get_help t n) b = Some (Get_head, if btail b = t then b\<lparr>btail := n\<rparr> else b)"
| "getClause_step (Get_clause h n) b =
     (case n of
        None \<Rightarrow> None
      | Some n \<Rightarrow> (case node_at b n of None \<Rightarrow> None | Some e \<Rightarrow> Some (Get_move h n (clause e), b)))"
| "getClause_step (Get_move h n c) b =
     Some (if bhead b = h then (Get_delete h c, b\<lparr>bhead := n\<rparr>) else (Get_head, b))"
| "getClause_step (Get_delete h c) b =
     (if node_at b h = None then None else Some (Get_size c, b\<lparr>nodes := (nodes b)[h := None]\<rparr>))"
| "getClause_step (Get_size c) b = Some (Got c, b\<lparr>bsize := bsize b - 1\<rparr>)"
| "getClause_step _ b = None"

section \<open>The threads\<close>

text \<open>
  A producer calls addClauses with the clauses todo.  A getter calls getClause again and again, as
  a solver does to import, a drainer getClauses, as a sharer does; both collect what they got.
\<close>

datatype role = Producer | Getter | Drainer

record thread =
  role :: role
  pc :: pc
  todo :: "nat list"
  got :: "nat option list"
  nClauses :: int
  nClausesGet :: int

definition producer :: "nat list \<Rightarrow> thread" where
  "producer cs = \<lparr>role = Producer, pc = Idle, todo = cs, got = [], nClauses = 0, nClausesGet = 0\<rparr>"

definition consumer :: "role \<Rightarrow> thread" where
  "consumer ro = \<lparr>role = ro, pc = Idle, todo = [], got = [], nClauses = 0, nClausesGet = 0\<rparr>"

definition addClauses_step :: "thread \<Rightarrow> ListRoot \<Rightarrow> (thread \<times> ListRoot) option" where
  "addClauses_step t b =
     (case pc t of
        Idle \<Rightarrow>
          (case todo t of
             [] \<Rightarrow> Some (t, b)
           | c # cs \<Rightarrow> (let (node, b) = new_node c b in Some (t\<lparr>pc := Add_tail node, todo := cs\<rparr>, b)))
      | p \<Rightarrow> map_option (\<lambda>(p, b). (t\<lparr>pc := p\<rparr>, b)) (addClause_step p b))"

definition getClause_loop_step :: "thread \<Rightarrow> ListRoot \<Rightarrow> (thread \<times> ListRoot) option" where
  "getClause_loop_step t b =
     (case pc t of
        Idle \<Rightarrow> Some (t\<lparr>pc := Get_head\<rparr>, b)
      | Got c \<Rightarrow> Some (t\<lparr>pc := Idle, got := got t @ [c]\<rparr>, b)
      | Missed \<Rightarrow> Some (t\<lparr>pc := Idle\<rparr>, b)
      | p \<Rightarrow> map_option (\<lambda>(p, b). (t\<lparr>pc := p\<rparr>, b)) (getClause_step p b))"

definition getClauses_step :: "thread \<Rightarrow> ListRoot \<Rightarrow> (thread \<times> ListRoot) option" where
  "getClauses_step t b =
     (case pc t of
        Idle \<Rightarrow> Some (t\<lparr>pc := Get_head, nClauses := bsize b, nClausesGet := 0\<rparr>, b)
      | Got c \<Rightarrow>
          Some (if nClausesGet t < nClauses t
                then t\<lparr>pc := Get_head, got := got t @ [c], nClausesGet := nClausesGet t + 1\<rparr>
                else t\<lparr>pc := Idle\<rparr>, b)
      | Missed \<Rightarrow> Some (t\<lparr>pc := Idle\<rparr>, b)
      | p \<Rightarrow> map_option (\<lambda>(p, b). (t\<lparr>pc := p\<rparr>, b)) (getClause_step p b))"

definition thread_step :: "thread \<Rightarrow> ListRoot \<Rightarrow> (thread \<times> ListRoot) option" where
  "thread_step t b =
     (case role t of
        Producer \<Rightarrow> addClauses_step t b
      | Getter \<Rightarrow> getClause_loop_step t b
      | Drainer \<Rightarrow> getClauses_step t b)"

text \<open>A schedule says which thread takes the next step.\<close>

fun run :: "nat list \<Rightarrow> thread list \<times> ListRoot \<Rightarrow> (thread list \<times> ListRoot) option" where
  "run [] st = Some st"
| "run (i # is) (ts, b) =
     (case thread_step (ts ! i) b of None \<Rightarrow> None | Some (t, b) \<Rightarrow> run is (ts[i := t], b))"

section \<open>The queue that the memory stands for\<close>

fun walk :: "nat \<Rightarrow> ListRoot \<Rightarrow> nat \<Rightarrow> nat option list" where
  "walk 0 b p = []"
| "walk (Suc n) b p =
     (case node_at b p of
        None \<Rightarrow> []
      | Some e \<Rightarrow> (case nxt e of
            None \<Rightarrow> []
          | Some q \<Rightarrow> (case node_at b q of None \<Rightarrow> [] | Some e \<Rightarrow> clause e # walk n b q)))"

definition contents :: "ListRoot \<Rightarrow> nat option list" where
  "contents b = walk (length (nodes b)) b (bhead b)"

text \<open>The clause of the thread that is not in the queue yet, or not any more.\<close>

fun unlinked :: "pc \<Rightarrow> nat option" where
  "unlinked (Add_tail n) = Some n"
| "unlinked (Add_next n t) = Some n"
| "unlinked (Add_check n t x) = Some n"
| "unlinked (Add_link n t) = Some n"
| "unlinked (Add_help n t x) = Some n"
| "unlinked _ = None"

fun in_hand :: "pc \<Rightarrow> nat option list" where
  "in_hand (Get_delete h c) = [c]"
| "in_hand (Get_size c) = [c]"
| "in_hand (Got c) = [c]"
| "in_hand _ = []"

definition in_flight :: "ListRoot \<Rightarrow> pc \<Rightarrow> nat option list" where
  "in_flight b p = (case unlinked p of None \<Rightarrow> [] | Some n \<Rightarrow> (case node_at b n of None \<Rightarrow> [] | Some e \<Rightarrow> [clause e]))"

section \<open>One producer and one consumer\<close>

text \<open>The producer links its clauses cs in their order: node k + 1 holds the clause k, node 0 none.\<close>

definition val :: "nat list \<Rightarrow> nat \<Rightarrow> nat option" where
  "val cs k = (if k = 0 then None else Some (cs ! (k - 1)))"

text \<open>The nodes from F on, of the L linked ones, are those of the list.\<close>

definition chain :: "nat list \<Rightarrow> nat \<Rightarrow> nat \<Rightarrow> ListRoot \<Rightarrow> bool" where
  "chain cs F L b \<longleftrightarrow> L \<le> length (nodes b) \<and>
     (\<forall>k. F \<le> k \<longrightarrow> k < L \<longrightarrow> nodes b ! k = Some \<lparr>clause = val cs k, nxt = (if k + 1 < L then Some (k + 1) else None)\<rparr>)"

definition holds_node :: "nat list \<Rightarrow> nat \<Rightarrow> ListRoot \<Rightarrow> nat list \<Rightarrow> nat \<Rightarrow> bool" where
  "holds_node cs L b td n \<longleftrightarrow> n = L \<and> L \<le> length cs \<and> length (nodes b) = L + 1 \<and>
     nodes b ! L = Some \<lparr>clause = Some (cs ! (L - 1)), nxt = None\<rparr> \<and> td = drop L cs \<and> btail b = L - 1"

definition holds_none :: "nat list \<Rightarrow> nat \<Rightarrow> ListRoot \<Rightarrow> nat list \<Rightarrow> bool" where
  "holds_none cs L b td \<longleftrightarrow> length (nodes b) = L \<and> td = drop (L - 1) cs"

fun add_ok :: "nat list \<Rightarrow> nat \<Rightarrow> ListRoot \<Rightarrow> nat list \<Rightarrow> pc \<Rightarrow> bool" where
  "add_ok cs L b td Idle \<longleftrightarrow> holds_none cs L b td \<and> btail b = L - 1"
| "add_ok cs L b td (Add_tail n) \<longleftrightarrow> holds_node cs L b td n"
| "add_ok cs L b td (Add_next n t) \<longleftrightarrow> holds_node cs L b td n \<and> t = L - 1"
| "add_ok cs L b td (Add_check n t x) \<longleftrightarrow> holds_node cs L b td n \<and> t = L - 1 \<and> x = None"
| "add_ok cs L b td (Add_link n t) \<longleftrightarrow> holds_node cs L b td n \<and> t = L - 1"
| "add_ok cs L b td (Add_swing n t) \<longleftrightarrow> holds_none cs L b td \<and> n = L - 1 \<and> t + 2 = L \<and> (btail b = t \<or> btail b = n)"
| "add_ok cs L b td Add_size \<longleftrightarrow> holds_none cs L b td \<and> btail b = L - 1"
| "add_ok cs L b td _ \<longleftrightarrow> False"

fun get_ok :: "nat list \<Rightarrow> nat \<Rightarrow> ListRoot \<Rightarrow> pc \<Rightarrow> bool" where
  "get_ok cs L b Idle \<longleftrightarrow> True"
| "get_ok cs L b Get_head \<longleftrightarrow> True"
| "get_ok cs L b (Get_tail h) \<longleftrightarrow> h = bhead b"
| "get_ok cs L b (Get_next h t) \<longleftrightarrow> h = bhead b \<and> h \<le> t \<and> t \<le> btail b"
| "get_ok cs L b (Get_check h t x) \<longleftrightarrow> h = bhead b \<and> h \<le> t \<and> t \<le> btail b \<and>
     (case x of None \<Rightarrow> t = h | Some m \<Rightarrow> m = h + 1 \<and> m < L)"
| "get_ok cs L b (Get_help t m) \<longleftrightarrow> t = bhead b \<and> m = t + 1 \<and> m < L"
| "get_ok cs L b (Get_clause h x) \<longleftrightarrow> h = bhead b \<and> x = Some (h + 1) \<and> h + 1 \<le> btail b"
| "get_ok cs L b (Get_move h n c) \<longleftrightarrow> h = bhead b \<and> n = h + 1 \<and> n \<le> btail b \<and> c = val cs n"
| "get_ok cs L b (Get_delete h c) \<longleftrightarrow> bhead b = h + 1 \<and> c = val cs (h + 1)"
| "get_ok cs L b (Get_size c) \<longleftrightarrow> 0 < bhead b \<and> c = val cs (bhead b)"
| "get_ok cs L b (Got c) \<longleftrightarrow> 0 < bhead b \<and> c = val cs (bhead b)"
| "get_ok cs L b Missed \<longleftrightarrow> True"
| "get_ok cs L b _ \<longleftrightarrow> False"

text \<open>The first node that is not deleted, and what size does not count yet or counts still.\<close>

fun first_node :: "ListRoot \<Rightarrow> pc \<Rightarrow> nat" where
  "first_node b (Get_delete h c) = h"
| "first_node b _ = bhead b"

fun uncounted :: "pc \<Rightarrow> int" where
  "uncounted (Add_swing n t) = 1"
| "uncounted Add_size = 1"
| "uncounted _ = 0"

fun overcounted :: "pc \<Rightarrow> int" where
  "overcounted (Get_delete h c) = 1"
| "overcounted (Get_size c) = 1"
| "overcounted _ = 0"

definition buffer_ok :: "nat list \<Rightarrow> nat \<Rightarrow> ListRoot \<Rightarrow> nat list \<Rightarrow> pc \<Rightarrow> pc \<Rightarrow> bool" where
  "buffer_ok cs L b td p g \<longleftrightarrow> 0 < L \<and> L \<le> Suc (length cs) \<and> bhead b \<le> btail b \<and> btail b < L \<and> chain cs (first_node b g) L b \<and>
     add_ok cs L b td p \<and> get_ok cs L b g \<and> bsize b = int L - 1 - int (bhead b) - uncounted p + overcounted g"

lemmas ok_defs = buffer_ok_def holds_node_def holds_none_def

lemma node_at_chain:
  "chain cs F L b \<Longrightarrow> F \<le> k \<Longrightarrow> k < L \<Longrightarrow>
    node_at b k = Some \<lparr>clause = val cs k, nxt = (if k + 1 < L then Some (k + 1) else None)\<rparr>"
  by (simp add: chain_def node_at_def)

lemma first_node_le: "get_ok cs L b g \<Longrightarrow> first_node b g \<le> bhead b"
  by (cases g) simp_all

text \<open>The consumer does not mind what the producer does.\<close>

lemma get_ok_mono:
  assumes "get_ok cs L b g" "L \<le> L'" "bhead b' = bhead b" "btail b \<le> btail b'"
  shows "get_ok cs L' b' g \<and> first_node b' g = first_node b g"
  using assms by (cases g) (auto split: option.splits)

lemma chain_link:
  assumes c: "chain cs F L b" and h: "holds_node cs L b td n" and L: "0 < L" "F < L"
    and e: "nodes b ! (L - 1) = Some e"
  shows "chain cs F (L + 1) (b\<lparr>nodes := (nodes b)[L - 1 := Some (e\<lparr>nxt := Some n\<rparr>)]\<rparr>)"
proof -
  have e': "e = \<lparr>clause = val cs (L - 1), nxt = None\<rparr>" using c L e by (auto simp: chain_def)
  have "(nodes b)[L - 1 := Some (e\<lparr>nxt := Some n\<rparr>)] ! k = Some \<lparr>clause = val cs k, nxt = (if k + 1 < L + 1 then Some (k + 1) else None)\<rparr>"
    if k: "F \<le> k" "k < L + 1" for k
  proof -
    consider "k < L - 1" | "k = L - 1" | "k = L" using k by linarith
    then show ?thesis
    proof cases
      case 1
      then have "k < L" "k + 1 < L" "k \<noteq> L - 1" by linarith+
      then show ?thesis using c k by (simp add: chain_def)
    next
      case 2
      then show ?thesis using h L by (simp add: e' holds_node_def)
    next
      case 3
      then show ?thesis using h L by (simp add: holds_node_def val_def)
    qed
  qed
  moreover have "L + 1 \<le> length (nodes b)" using h by (simp add: holds_node_def)
  ultimately show ?thesis by (simp add: chain_def)
qed

lemma buffer_ok_get:
  assumes "buffer_ok cs L b td p g" "L \<le> L'" "L' \<le> Suc (length cs)" "bhead b' = bhead b" "btail b \<le> btail b'" "btail b' < L'"
    "chain cs (first_node b g) L' b'" "add_ok cs L' b' td' p'"
    "bsize b' - int L' + uncounted p' = bsize b - int L + uncounted p"
  shows "buffer_ok cs L' b' td' p' g"
  using assms get_ok_mono [of cs L b g L' b'] by (auto simp: buffer_ok_def)

lemma addClause_step_ok:
  assumes ok: "buffer_ok cs L b td p g" and p: "p \<noteq> Idle"
  shows "\<exists>p' b' L'. addClause_step p b = Some (p', b') \<and> buffer_ok cs L' b' td p' g \<and> bhead b' = bhead b"
proof -
  have add: "add_ok cs L b td p" and c: "chain cs (first_node b g) L b" and L: "0 < L" "bhead b \<le> btail b" "btail b < L"
    and g: "get_ok cs L b g" and l: "L \<le> Suc (length cs)" using ok by (simp_all add: buffer_ok_def)
  have F: "first_node b g < L" using first_node_le [OF g] L by linarith
  note buffer_ok_get [OF ok, where b' = b and L' = L, simplified]
  note same = this [OF l L(3) c]
  show ?thesis
  proof (cases p)
    case (Add_tail n)
    have "buffer_ok cs L b td (Add_next n (btail b)) g" using add by (intro same) (auto simp: Add_tail holds_node_def)
    then show ?thesis by (auto simp: Add_tail)
  next
    case (Add_next n t)
    have "node_at b t = Some \<lparr>clause = val cs t, nxt = None\<rparr>"
      using node_at_chain [OF c, of t] F L add by (simp add: Add_next)
    moreover have "buffer_ok cs L b td (Add_check n t None) g" using add by (intro same) (auto simp: Add_next)
    ultimately show ?thesis by (auto simp: Add_next)
  next
    case (Add_check n t x)
    have "buffer_ok cs L b td (Add_link n t) g" using add by (intro same) (auto simp: Add_check)
    then show ?thesis using add by (auto simp: Add_check holds_node_def)
  next
    case (Add_link n t)
    have t: "t = L - 1" and h: "holds_node cs L b td n" using add by (simp_all add: Add_link)
    let ?e = "\<lparr>clause = val cs t, nxt = None\<rparr>" and ?b = "b\<lparr>nodes := (nodes b)[L - 1 := Some (\<lparr>clause = val cs t, nxt = None\<rparr>\<lparr>nxt := Some n\<rparr>)]\<rparr>"
    have e: "node_at b t = Some ?e" using node_at_chain [OF c, of t] F L t by simp
    then have "nodes b ! (L - 1) = Some ?e" by (simp add: node_at_def t split: if_splits)
    then have ch: "chain cs (first_node b g) (L + 1) ?b" by (rule chain_link [OF c h L(1) F])
    have ad: "add_ok cs (L + 1) ?b td (Add_swing n t)" using h L t by (auto simp: holds_node_def holds_none_def)
    have "buffer_ok cs (L + 1) ?b td (Add_swing n t) g"
      by (rule buffer_ok_get [OF ok _ _ _ _ _ ch ad]) (use L h in \<open>simp_all add: Add_link holds_node_def\<close>)
    moreover have "addClause_step p b = Some (Add_swing n t, ?b)" using e t by (simp add: Add_link)
    ultimately show ?thesis by fastforce
  next
    case (Add_swing n t)
    let ?b = "if btail b = t then b\<lparr>btail := n\<rparr> else b"
    have "buffer_ok cs L ?b td Add_size g"
      using add c L l by (intro buffer_ok_get [OF ok]) (auto simp: Add_swing holds_none_def chain_def)
    then show ?thesis by (auto simp: Add_swing)
  next
    case Add_size
    have "buffer_ok cs L (b\<lparr>bsize := bsize b + 1\<rparr>) td Idle g"
      using add c L l by (intro buffer_ok_get [OF ok]) (auto simp: Add_size holds_none_def chain_def)
    then show ?thesis by (auto simp: Add_size)
  qed (use add p in simp_all)
qed

text \<open>The producer does not mind what the consumer does to the nodes before the last one.\<close>

lemma add_ok_same:
  assumes "add_ok cs L b td p" "length (nodes b') = length (nodes b)" "nodes b' ! L = nodes b ! L" "btail b' = btail b"
  shows "add_ok cs L b' td p"
  using assms by (cases p) (auto simp: holds_node_def holds_none_def)

lemma getClause_step_ok:
  assumes ok: "buffer_ok cs L b td p g" and r: "g \<noteq> Idle" "g \<noteq> Missed" "\<nexists>c. g = Got c"
  shows "\<exists>g' b'. getClause_step g b = Some (g', b') \<and> buffer_ok cs L b' td p g' \<and>
    bhead b' - length (in_hand g') = bhead b - length (in_hand g) \<and> length (in_hand g') \<le> bhead b'"
proof -
  have add: "add_ok cs L b td p" and c: "chain cs (first_node b g) L b" and L: "0 < L" "bhead b \<le> btail b" "btail b < L"
    and g: "get_ok cs L b g" and l: "L \<le> Suc (length cs)" and sz: "bsize b = int L - 1 - int (bhead b) - uncounted p + overcounted g"
    using ok by (simp_all add: buffer_ok_def)
  have same: "buffer_ok cs L b td p g'" if "get_ok cs L b g'" "first_node b g' = first_node b g" "overcounted g' = overcounted g" for g'
    using that ok by (simp add: buffer_ok_def)
  show ?thesis
  proof (cases g)
    case Get_head
    have "buffer_ok cs L b td p (Get_tail (bhead b))" by (rule same) (simp_all add: Get_head)
    then show ?thesis by (auto simp: Get_head)
  next
    case (Get_tail h)
    have "buffer_ok cs L b td p (Get_next h (btail b))" by (rule same) (use g L in \<open>simp_all add: Get_tail\<close>)
    then show ?thesis by (auto simp: Get_tail)
  next
    case (Get_next h t)
    let ?n = "if h + 1 < L then Some (h + 1) else None"
    have "node_at b h = Some \<lparr>clause = val cs h, nxt = ?n\<rparr>"
      using g L by (intro node_at_chain [OF c]) (simp_all add: Get_next)
    moreover have "buffer_ok cs L b td p (Get_check h t ?n)" by (rule same) (use g L in \<open>simp_all add: Get_next\<close>)
    ultimately show ?thesis by (simp add: Get_next)
  next
    case (Get_check h t x)
    have e: "h = bhead b" using g by (simp add: Get_check)
    have missed: "buffer_ok cs L b td p Missed" by (rule same) (simp_all add: Get_check)
    show ?thesis
    proof (cases x)
      case None
      then show ?thesis using missed g e by (simp add: Get_check)
    next
      case (Some m)
      have "buffer_ok cs L b td p (Get_help t m)" if "h = t" by (rule same) (use g that Some in \<open>simp_all add: Get_check\<close>)
      moreover have "buffer_ok cs L b td p (Get_clause h x)" if "h \<noteq> t" by (rule same) (use g that Some in \<open>simp_all add: Get_check\<close>)
      ultimately show ?thesis using e Some by (simp add: Get_check)
    qed
  next
    case (Get_help t m)
    have head: "buffer_ok cs L b td p Get_head" by (rule same) (simp_all add: Get_help)
    have "buffer_ok cs L (b\<lparr>btail := m\<rparr>) td p Get_head" if t: "btail b = t"
    proof -
      have m: "t = bhead b" "m = t + 1" "m < L" using g by (simp_all add: Get_help)
      have "add_ok cs L (b\<lparr>btail := m\<rparr>) td p" using add t m by (cases p) (auto simp: holds_node_def holds_none_def)
      then show ?thesis using head m by (auto simp: buffer_ok_def chain_def)
    qed
    then show ?thesis using head by (simp add: Get_help)
  next
    case (Get_clause h x)
    have "node_at b (h + 1) = Some \<lparr>clause = val cs (h + 1), nxt = (if h + 1 + 1 < L then Some (h + 1 + 1) else None)\<rparr>"
      using g L by (intro node_at_chain [OF c]) (simp_all add: Get_clause)
    moreover have "buffer_ok cs L b td p (Get_move h (h + 1) (val cs (h + 1)))" by (rule same) (use g in \<open>simp_all add: Get_clause\<close>)
    ultimately show ?thesis using g by (simp add: Get_clause)
  next
    case (Get_move h n x)
    let ?b = "b\<lparr>bhead := n\<rparr>"
    have "add_ok cs L ?b td p" by (rule add_ok_same [OF add]) simp_all
    then have "buffer_ok cs L ?b td p (Get_delete h x)"
      using g c L l sz by (auto simp: Get_move buffer_ok_def chain_def)
    then show ?thesis using g by (simp add: Get_move)
  next
    case (Get_delete h x)
    let ?b = "b\<lparr>nodes := (nodes b)[h := None]\<rparr>"
    have h: "bhead b = h + 1" "x = val cs (h + 1)" using g by (simp_all add: Get_delete)
    have "node_at b h \<noteq> None" using node_at_chain [OF c, of h] L h by (simp add: Get_delete)
    moreover have "add_ok cs L ?b td p" by (rule add_ok_same [OF add]) (use L h in simp_all)
    then have "buffer_ok cs L ?b td p (Get_size x)"
      using c L l sz h by (auto simp: Get_delete buffer_ok_def chain_def)
    ultimately show ?thesis using h by (simp add: Get_delete)
  next
    case (Get_size x)
    let ?b = "b\<lparr>bsize := bsize b - 1\<rparr>"
    have "add_ok cs L ?b td p" by (rule add_ok_same [OF add]) simp_all
    then have "buffer_ok cs L ?b td p (Got x)" using g c L l sz by (simp add: Get_size buffer_ok_def chain_def)
    then show ?thesis using g by (simp add: Get_size)
  qed (use r g in simp_all)
qed

text \<open>What a getter has got: the clauses of the nodes 1 to the head, but for the one in hand.\<close>

definition got_ok :: "nat list \<Rightarrow> ListRoot \<Rightarrow> thread \<Rightarrow> bool" where
  "got_ok cs b t \<longleftrightarrow> length (in_hand (pc t)) \<le> bhead b \<and> got t = map (val cs) [1..<Suc (bhead b - length (in_hand (pc t)))]"

definition system_inv :: "nat list \<Rightarrow> role \<Rightarrow> thread list \<times> ListRoot \<Rightarrow> bool" where
  "system_inv cs ro = (\<lambda>(ts, b). \<exists>t0 t1 L. ts = [t0, t1] \<and> role t0 = Producer \<and> role t1 = ro \<and>
     buffer_ok cs L b (todo t0) (pc t0) (pc t1) \<and> (ro = Getter \<longrightarrow> got_ok cs b t1))"

lemma producer_step_ok:
  assumes ok: "buffer_ok cs L b (todo t) (pc t) g" and r: "role t = Producer"
  shows "\<exists>t' b' L'. thread_step t b = Some (t', b') \<and> role t' = Producer \<and> buffer_ok cs L' b' (todo t') (pc t') g \<and> bhead b' = bhead b"
proof (cases "pc t = Idle")
  case False
  obtain p' b' L' where 1: "addClause_step (pc t) b = Some (p', b')" "buffer_ok cs L' b' (todo t) p' g" "bhead b' = bhead b"
    using addClause_step_ok [OF ok False] by blast
  have "thread_step t b = Some (t\<lparr>pc := p'\<rparr>, b')"
    using 1(1) r False by (cases "pc t") (auto simp: thread_step_def addClauses_step_def)
  then show ?thesis using 1(2,3) r by auto
next
  case idle: True
  show ?thesis
  proof (cases "todo t")
    case Nil
    then show ?thesis using idle ok r by (simp add: thread_step_def addClauses_step_def) (metis idle)
  next
    case (Cons c cs')
    have add: "length (nodes b) = L" "drop (L - 1) cs = c # cs'" "btail b = L - 1" and c: "chain cs (first_node b g) L b"
      and L: "0 < L" "btail b < L" "L \<le> Suc (length cs)" using ok idle Cons by (auto simp: buffer_ok_def holds_none_def)
    have "L - 1 < length cs" using add(2) by (metis drop_all linorder_not_less list.distinct(1))
    then have d: "L \<le> length cs" "cs ! (L - 1) = c" "drop L cs = cs'"
      using add(2) L(1) by (auto simp: Cons_nth_drop_Suc [symmetric])
    let ?b = "snd (new_node c b)"
    have "buffer_ok cs L ?b cs' (Add_tail L) g"
      by (rule buffer_ok_get [OF ok])
        (use add d c L idle in \<open>auto simp: new_node_def holds_node_def chain_def nth_append\<close>)
    moreover have "thread_step t b = Some (t\<lparr>pc := Add_tail L, todo := cs'\<rparr>, ?b)" "bhead ?b = bhead b"
      using r idle Cons add(1) by (simp_all add: thread_step_def addClauses_step_def new_node_def)
    ultimately show ?thesis using r by auto
  qed
qed

lemma buffer_ok_pc: "buffer_ok cs L b td p g \<Longrightarrow> get_ok cs L b g' \<Longrightarrow> first_node b g' = first_node b g \<Longrightarrow>
    overcounted g' = overcounted g \<Longrightarrow> buffer_ok cs L b td p g'"
  by (simp add: buffer_ok_def)

lemma consumer_step_ok:
  assumes ok: "buffer_ok cs L b td p (pc t)" and r: "role t = Getter \<or> role t = Drainer"
    and g: "role t = Getter \<longrightarrow> got_ok cs b t"
  shows "\<exists>t' b'. thread_step t b = Some (t', b') \<and> role t' = role t \<and> buffer_ok cs L b' td p (pc t') \<and> (role t = Getter \<longrightarrow> got_ok cs b' t')"
proof -
  consider "pc t = Idle" | "pc t = Missed" | c where "pc t = Got c" | "pc t \<noteq> Idle" "pc t \<noteq> Missed" "\<nexists>c. pc t = Got c" by blast
  then show ?thesis
  proof cases
    case 1
    have "buffer_ok cs L b td p Get_head" using ok 1 by (intro buffer_ok_pc [OF ok]) simp_all
    then show ?thesis using r g 1 by (auto simp: thread_step_def getClause_loop_step_def getClauses_step_def got_ok_def simp del: upt_Suc)
  next
    case 2
    have "buffer_ok cs L b td p Idle" using ok 2 by (intro buffer_ok_pc [OF ok]) simp_all
    then show ?thesis using r g 2 by (auto simp: thread_step_def getClause_loop_step_def getClauses_step_def got_ok_def simp del: upt_Suc)
  next
    case (3 c)
    have i: "buffer_ok cs L b td p Idle" "buffer_ok cs L b td p Get_head" using ok 3 by (auto intro: buffer_ok_pc [OF ok])
    have h: "0 < bhead b" "c = val cs (bhead b)" using ok 3 by (simp_all add: buffer_ok_def)
    have "got_ok cs b (t\<lparr>pc := Idle, got := got t @ [c]\<rparr>)" if "role t = Getter"
      using g h 3 that by (simp add: got_ok_def upt_Suc_append)
    then show ?thesis using r i 3 by (auto simp: thread_step_def getClause_loop_step_def getClauses_step_def)
  next
    case 4
    obtain g' b' where 1: "getClause_step (pc t) b = Some (g', b')" "buffer_ok cs L b' td p g'"
      "bhead b' - length (in_hand g') = bhead b - length (in_hand (pc t))" "length (in_hand g') \<le> bhead b'"
      using getClause_step_ok [OF ok 4] by blast
    have "thread_step t b = Some (t\<lparr>pc := g'\<rparr>, b')"
      using 1(1) r 4 by (cases "pc t") (auto simp: thread_step_def getClause_loop_step_def getClauses_step_def)
    then show ?thesis using 1(2,3,4) g by (auto simp: got_ok_def)
  qed
qed

lemma run_inv:
  "system_inv cs ro (ts, b) \<Longrightarrow> ro \<noteq> Producer \<Longrightarrow> list_all (\<lambda>i. i < 2) is \<Longrightarrow> \<exists>ts' b'. run is (ts, b) = Some (ts', b') \<and> system_inv cs ro (ts', b')"
proof (induction "is" arbitrary: ts b)
  case (Cons i "is")
  obtain t0 t1 L where s: "ts = [t0, t1]" "role t0 = Producer" "role t1 = ro" "buffer_ok cs L b (todo t0) (pc t0) (pc t1)"
    "ro = Getter \<longrightarrow> got_ok cs b t1" using Cons.prems(1) by (auto simp: system_inv_def)
  have "\<exists>t b'. thread_step (ts ! i) b = Some (t, b') \<and> system_inv cs ro (ts[i := t], b')"
  proof (cases "i = 0")
    case True
    obtain t' b' L' where "thread_step t0 b = Some (t', b')" "role t' = Producer" "buffer_ok cs L' b' (todo t') (pc t') (pc t1)"
      "bhead b' = bhead b" using producer_step_ok [OF s(4,2)] by blast
    then show ?thesis using s True by (auto simp: system_inv_def got_ok_def)
  next
    case False
    then have i: "i = 1" using Cons.prems(3) by simp
    have r: "role t1 = Getter \<or> role t1 = Drainer" using s(3) Cons.prems(2) by (cases ro) simp_all
    obtain t' b' where "thread_step t1 b = Some (t', b')" "role t' = ro" "buffer_ok cs L b' (todo t0) (pc t0) (pc t')"
      "ro = Getter \<longrightarrow> got_ok cs b' t'" using consumer_step_ok [OF s(4) r] s(3,5) by blast
    then show ?thesis using s i by (auto simp: system_inv_def)
  qed
  then obtain t b' where 1: "thread_step (ts ! i) b = Some (t, b')" "system_inv cs ro (ts[i := t], b')" by blast
  then show ?case using Cons.IH [OF 1(2) Cons.prems(2)] Cons.prems(3) by simp
qed simp

lemma system_inv_start: "ro \<noteq> Producer \<Longrightarrow> system_inv cs ro ([producer cs, consumer ro], new_ClauseBuffer)"
  by (auto simp: system_inv_def producer_def consumer_def new_ClauseBuffer_def buffer_ok_def chain_def val_def holds_none_def got_ok_def
      intro!: exI [of _ 1])

section \<open>The memory stands for a queue\<close>

lemma walk_chain:
  "chain cs F L b \<Longrightarrow> F \<le> p \<Longrightarrow> p < L \<Longrightarrow> L \<le> Suc (p + n) \<Longrightarrow> walk n b p = map (val cs) [Suc p..<L]"
proof (induction n arbitrary: p)
  case (Suc n)
  have p: "node_at b p = Some \<lparr>clause = val cs p, nxt = (if p + 1 < L then Some (p + 1) else None)\<rparr>"
    by (rule node_at_chain [OF Suc.prems(1-3)])
  show ?case
  proof (cases "p + 1 < L")
    case True
    have q: "node_at b (p + 1) = Some \<lparr>clause = val cs (p + 1), nxt = (if p + 1 + 1 < L then Some (p + 1 + 1) else None)\<rparr>"
      by (rule node_at_chain [OF Suc.prems(1)]) (use True Suc.prems(2) in simp_all)
    have "walk n b (p + 1) = map (val cs) [Suc (p + 1)..<L]" by (rule Suc.IH) (use True Suc.prems in simp_all)
    then show ?thesis using p q True by (simp add: upt_conv_Cons)
  next
    case False
    then show ?thesis using p by simp
  qed
qed simp

lemma map_val: "n \<le> length cs \<Longrightarrow> map (val cs) [Suc 0..<Suc n] = map Some (take n cs)"
  by (intro nth_equalityI) (simp_all add: val_def del: upt_Suc)

lemma contents_ok:
  assumes "buffer_ok cs L b td p g"
  shows "contents b = map (val cs) [Suc (bhead b)..<L]" "L \<le> Suc (length cs)"
    "in_flight b p @ map Some td = map Some (drop (L - 1) cs)"
proof -
  have add: "add_ok cs L b td p" and c: "chain cs (first_node b g) L b" and L: "0 < L" "bhead b \<le> btail b" "btail b < L"
    and g: "get_ok cs L b g" using assms by (simp_all add: buffer_ok_def)
  have l: "L \<le> length (nodes b)" using c by (simp add: chain_def)
  show "L \<le> Suc (length cs)" using assms by (simp add: buffer_ok_def)
  show "contents b = map (val cs) [Suc (bhead b)..<L]" unfolding contents_def
    using first_node_le [OF g] L l by (intro walk_chain [OF c]) simp_all
  show "in_flight b p @ map Some td = map Some (drop (L - 1) cs)"
  proof (cases "unlinked p")
    case None
    then show ?thesis using add by (cases p) (auto simp: in_flight_def holds_none_def)
  next
    case (Some n)
    then have h: "holds_node cs L b td n" using add by (cases p) auto
    then have "L - 1 < length cs" using L(1) by (auto simp: holds_node_def)
    then have "drop (L - 1) cs = cs ! (L - 1) # drop L cs" using L(1) Cons_nth_drop_Suc [of "L - 1" cs] by simp
    then show ?thesis using Some h L(1) by (simp add: in_flight_def holds_node_def node_at_def)
  qed
qed

lemma got_in_hand:
  assumes "got_ok cs b t" "get_ok cs L b (pc t)"
  shows "got t @ in_hand (pc t) = map (val cs) [Suc 0..<Suc (bhead b)]"
proof (cases "in_hand (pc t) = []")
  case True
  then show ?thesis using assms(1) by (simp add: got_ok_def del: upt_Suc)
next
  case False
  then have i: "in_hand (pc t) = [val cs (bhead b)]" using assms(2) by (cases "pc t") auto
  then obtain m where m: "bhead b = Suc m" using assms(1) by (cases "bhead b") (simp_all add: got_ok_def)
  have "got t = map (val cs) [Suc 0..<Suc m]" using assms(1) i m by (simp add: got_ok_def del: upt_Suc)
  moreover have "[Suc 0..<Suc (Suc m)] = [Suc 0..<Suc m] @ [Suc m]" by (rule upt_Suc_append) simp
  ultimately show ?thesis using i m by (simp del: upt_Suc)
qed

lemma fifo_ok:
  assumes ok: "buffer_ok cs L b td p (pc t)" and g: "got_ok cs b t"
  shows "got t @ in_hand (pc t) @ contents b @ in_flight b p @ map Some td = map Some cs"
proof -
  have get: "get_ok cs L b (pc t)" and h: "Suc (bhead b) \<le> L" using ok by (simp_all add: buffer_ok_def)
  have "(got t @ in_hand (pc t)) @ contents b = map (val cs) [Suc 0..<L]"
    unfolding got_in_hand [OF g get] contents_ok(1) [OF ok] map_append [symmetric]
    using h upt_add_eq_append [of "Suc 0" "Suc (bhead b)" "L - Suc (bhead b)"] by (simp del: upt_Suc)
  also have "\<dots> = map Some (take (L - 1) cs)" using map_val [of "L - 1" cs] contents_ok(2) [OF ok] h by simp
  finally show ?thesis using contents_ok(3) [OF ok] append_take_drop_id [of "L - 1" cs]
    by (metis append.assoc map_append)
qed

section \<open>The properties\<close>




text \<open>
  getClauses takes a clause off the queue before it finds that it has all it came for: a clause
  that is linked but not counted yet is lost.
\<close>

theorem getClauses_loses_clause:
  "map_option (\<lambda>(ts, b). (map pc ts, map todo ts, got (ts ! 1), contents b))
     (run (replicate 6 0 @ replicate 10 1 @ [0]) ([producer [7], consumer Drainer], new_ClauseBuffer)) =
   Some ([Idle, Idle], [[], []], [], [])"
  by code_simp

end
