(* ===== verification/Pl_Sharing.thy ===== *)
theory Pl_Sharing
  imports Main "HOL-Library.Multiset"
begin

text \<open>
  The exchange of learned clauses in painless, src/painless-v2/painless-src: shared clauses with
  their reference counts (clauses/ClauseManager.h), the buffers of a solver (solvers/MiniSat.cpp),
  the clause database (clauses/ClauseDatabase.cpp) and the two sharing strategies
  (sharing/SimpleSharing.cpp, sharing/HordeSatSharing.cpp) with their thread (sharing/Sharer.cpp).
  A pointer is an index into the store, where a freed clause is None; an operation that touches a
  freed clause fails.  A ClauseBuffer is the list of its clauses.
\<close>

section \<open>Shared clauses\<close>

record ClauseExchange =
  nbRefs :: int
  lbd :: int
  origin :: nat
  csize :: nat
  lits :: "int list"

type_synonym store = "ClauseExchange option list"

definition deref :: "nat \<Rightarrow> store \<Rightarrow> ClauseExchange option" where
  "deref p h = (if p < length h then h ! p else None)"

text \<open>The fields that malloc leaves open are 0.\<close>

definition allocClause :: "nat \<Rightarrow> store \<Rightarrow> nat \<times> store" where
  "allocClause n h = (length h, h @ [Some \<lparr>nbRefs = 1, lbd = 0, origin = 0, csize = n, lits = replicate n 0\<rparr>])"

definition increaseClause :: "nat \<Rightarrow> int \<Rightarrow> store \<Rightarrow> store option" where
  "increaseClause p refs h =
     (case deref p h of None \<Rightarrow> None | Some c \<Rightarrow> Some (h[p := Some (c\<lparr>nbRefs := nbRefs c + refs\<rparr>)]))"

definition releaseClause :: "nat \<Rightarrow> store \<Rightarrow> store option" where
  "releaseClause p h =
     (case deref p h of
        None \<Rightarrow> None
      | Some c \<Rightarrow>
          let oldValue = nbRefs c; h = h[p := Some (c\<lparr>nbRefs := nbRefs c - 1\<rparr>)]
          in Some (if oldValue - 1 \<le> 0 then h[p := None] else h))"

fun increase_all :: "nat list \<Rightarrow> store \<Rightarrow> store option" where
  "increase_all [] h = Some h"
| "increase_all (p # ps) h = (case increaseClause p 1 h of None \<Rightarrow> None | Some h \<Rightarrow> increase_all ps h)"

fun release_all :: "nat list \<Rightarrow> store \<Rightarrow> store option" where
  "release_all [] h = Some h"
| "release_all (p # ps) h = (case releaseClause p h of None \<Rightarrow> None | Some h \<Rightarrow> release_all ps h)"

section \<open>The buffers of a solver\<close>

record MiniSat =
  sid :: nat
  sizeLimit :: int
  clausesToExport :: "nat list"
  unitsToImport :: "nat list"
  clausesToImport :: "nat list"
  clausesToAdd :: "nat list"

definition minisatExportClause :: "int list \<Rightarrow> MiniSat \<Rightarrow> store \<Rightarrow> MiniSat \<times> store" where
  "minisatExportClause cls ms h =
     (if int (length cls) > sizeLimit ms then (ms, h)
      else
        let (ncls, h) = allocClause (length cls) h
        in (ms\<lparr>clausesToExport := clausesToExport ms @ [ncls]\<rparr>,
            h[ncls := map_option (\<lambda>c. c\<lparr>lbd := int (length cls), lits := cls, origin := sid ms\<rparr>) (h ! ncls)]))"

text \<open>The unit to import, or none.\<close>

definition minisatImportUnit :: "MiniSat \<Rightarrow> store \<Rightarrow> (int option \<times> MiniSat \<times> store) option" where
  "minisatImportUnit ms h =
     (case unitsToImport ms of
        [] \<Rightarrow> Some (None, ms, h)
      | p # ps \<Rightarrow>
          (case (deref p h, releaseClause p h) of
             (Some c, Some h) \<Rightarrow> Some (Some (lits c ! 0), ms\<lparr>unitsToImport := ps\<rparr>, h)
           | _ \<Rightarrow> None))"

definition minisatImportClause :: "MiniSat \<Rightarrow> store \<Rightarrow> (int list option \<times> MiniSat \<times> store) option" where
  "minisatImportClause ms h =
     (case clausesToImport ms of
        [] \<Rightarrow> Some (None, ms, h)
      | p # ps \<Rightarrow>
          (case (deref p h, releaseClause p h) of
             (Some c, Some h) \<Rightarrow> Some (Some (take (csize c) (lits c)), ms\<lparr>clausesToImport := ps\<rparr>, h)
           | _ \<Rightarrow> None))"

definition addLearnedClause :: "store \<Rightarrow> nat \<Rightarrow> MiniSat \<Rightarrow> MiniSat option" where
  "addLearnedClause h p ms =
     (case deref p h of
        None \<Rightarrow> None
      | Some c \<Rightarrow> Some (if csize c = 1 then ms\<lparr>unitsToImport := unitsToImport ms @ [p]\<rparr>
                       else ms\<lparr>clausesToImport := clausesToImport ms @ [p]\<rparr>))"

fun addLearnedClauses :: "store \<Rightarrow> nat list \<Rightarrow> MiniSat \<Rightarrow> MiniSat option" where
  "addLearnedClauses h [] ms = Some ms"
| "addLearnedClauses h (p # ps) ms =
     (case addLearnedClause h p ms of None \<Rightarrow> None | Some ms \<Rightarrow> addLearnedClauses h ps ms)"

definition getLearnedClauses :: "MiniSat \<Rightarrow> nat list \<times> MiniSat" where
  "getLearnedClauses ms = (clausesToExport ms, ms\<lparr>clausesToExport := []\<rparr>)"

definition increaseClauseProduction :: "MiniSat \<Rightarrow> MiniSat" where
  "increaseClauseProduction ms = ms\<lparr>sizeLimit := sizeLimit ms + 1\<rparr>"

definition decreaseClauseProduction :: "MiniSat \<Rightarrow> MiniSat" where
  "decreaseClauseProduction ms = (if sizeLimit ms > 2 then ms\<lparr>sizeLimit := sizeLimit ms - 1\<rparr> else ms)"

section \<open>The clause database\<close>

definition grow_to :: "nat \<Rightarrow> nat list list \<Rightarrow> nat list list" where
  "grow_to n db = db @ replicate (n - length db) []"

text \<open>A clause of size 0 would be stored before the first vector.\<close>

definition db_addClause :: "nat \<Rightarrow> nat list list \<times> store \<Rightarrow> (nat list list \<times> store) option" where
  "db_addClause p = (\<lambda>(db, h).
     case deref p h of
       None \<Rightarrow> None
     | Some c \<Rightarrow>
         let clsSize = csize c; db = grow_to clsSize db
         in if clsSize = 0 then None
            else if (length (db ! (clsSize - 1)) + 1) * clsSize < 1000
            then Some (db[clsSize - 1 := db ! (clsSize - 1) @ [p]], h)
            else map_option (Pair db) (releaseClause p h))"

fun db_addClauses :: "nat list \<Rightarrow> nat list list \<times> store \<Rightarrow> (nat list list \<times> store) option" where
  "db_addClauses [] st = Some st"
| "db_addClauses (p # ps) st = (case db_addClause p st of None \<Rightarrow> None | Some st \<Rightarrow> db_addClauses ps st)"

text \<open>The vectors from index i on: the selected clauses, what is left of the vectors, and used.\<close>

fun give_from :: "nat \<Rightarrow> nat \<Rightarrow> nat \<Rightarrow> nat list list \<Rightarrow> nat list \<times> nat list list \<times> nat" where
  "give_from i totalSize used [] = ([], [], used)"
| "give_from i totalSize used (b # bs) =
     (let clsSize = i + 1; left = totalSize - used
      in if left < clsSize then ([], b # bs, used)
         else if left \<ge> clsSize * length b
         then (let (sel, rest, used) = give_from (i + 1) totalSize (used + clsSize * length b) bs
               in (b @ sel, [] # rest, used))
         else
           (let nCls = left div clsSize;
                (sel, rest, used) = give_from (i + 1) totalSize (used + clsSize * nCls) bs
            in (take nCls (rev b) @ sel, take (length b - nCls) b # rest, used)))"

definition giveSelection :: "nat \<Rightarrow> nat list list \<Rightarrow> nat list \<times> nat list list \<times> nat" where
  "giveSelection totalSize db = give_from 0 totalSize 0 db"

section \<open>The sharing strategies\<close>

record Sharing =
  solvers :: "MiniSat list"
  heap :: store
  database :: "nat list list"
  receivedClauses :: nat
  sharedClauses :: nat

text \<open>One consumer j for the clauses tmp of producer i.\<close>

definition deliver :: "nat \<Rightarrow> nat list \<Rightarrow> nat \<Rightarrow> Sharing \<Rightarrow> Sharing option" where
  "deliver i tmp j s =
     (if sid (solvers s ! i) \<noteq> sid (solvers s ! j)
      then
        (case increase_all tmp (heap s) of
           None \<Rightarrow> None
         | Some h \<Rightarrow>
             (case addLearnedClauses h tmp (solvers s ! j) of
                None \<Rightarrow> None
              | Some ms \<Rightarrow> Some (s\<lparr>heap := h, solvers := (solvers s)[j := ms]\<rparr>)))
      else Some s)"

fun deliver_all :: "nat \<Rightarrow> nat list \<Rightarrow> nat list \<Rightarrow> Sharing \<Rightarrow> Sharing option" where
  "deliver_all i tmp [] s = Some s"
| "deliver_all i tmp (j # to) s = (case deliver i tmp j s of None \<Rightarrow> None | Some s \<Rightarrow> deliver_all i tmp to s)"

definition release_tmp :: "nat list \<Rightarrow> Sharing \<Rightarrow> Sharing option" where
  "release_tmp tmp s = map_option (\<lambda>h. s\<lparr>heap := h\<rparr>) (release_all tmp (heap s))"

definition simple_producer :: "nat list \<Rightarrow> nat \<Rightarrow> Sharing \<Rightarrow> Sharing option" where
  "simple_producer to i s =
     (let (tmp, ms) = getLearnedClauses (solvers s ! i);
          s = s\<lparr>solvers := (solvers s)[i := ms], receivedClauses := receivedClauses s + length tmp,
                sharedClauses := sharedClauses s + length tmp\<rparr>
      in case deliver_all i tmp to s of None \<Rightarrow> None | Some s \<Rightarrow> release_tmp tmp s)"

fun SimpleSharing :: "nat list \<Rightarrow> nat list \<Rightarrow> Sharing \<Rightarrow> Sharing option" where
  "SimpleSharing [] to s = Some s"
| "SimpleSharing (i # from) to s =
     (case simple_producer to i s of None \<Rightarrow> None | Some s \<Rightarrow> SimpleSharing from to s)"

definition horde_producer :: "nat \<Rightarrow> nat list \<Rightarrow> nat \<Rightarrow> Sharing \<Rightarrow> Sharing option" where
  "horde_producer literalPerRound to i s =
     (let (tmp, ms) = getLearnedClauses (solvers s ! i);
          s = s\<lparr>solvers := (solvers s)[i := ms], receivedClauses := receivedClauses s + length tmp\<rparr>
      in case db_addClauses tmp (database s, heap s) of
           None \<Rightarrow> None
         | Some (db, h) \<Rightarrow>
             let (tmp, db, used) = giveSelection literalPerRound db
             in if literalPerRound = 0 then None
                else
                  let usedPercent = (100 * used) div literalPerRound;
                      s = s\<lparr>heap := h, database := db, sharedClauses := sharedClauses s + length tmp\<rparr>;
                      s = (if usedPercent < 80
                           then s\<lparr>solvers := (solvers s)[i := increaseClauseProduction (solvers s ! i)]\<rparr> else s)
                  in case deliver_all i tmp to s of None \<Rightarrow> None | Some s \<Rightarrow> release_tmp tmp s)"

fun HordeSatSharing :: "nat \<Rightarrow> nat list \<Rightarrow> nat list \<Rightarrow> Sharing \<Rightarrow> Sharing option" where
  "HordeSatSharing literalPerRound [] to s = Some s"
| "HordeSatSharing literalPerRound (i # from) to s =
     (case horde_producer literalPerRound to i s of None \<Rightarrow> None | Some s \<Rightarrow> HordeSatSharing literalPerRound from to s)"

section \<open>The thread of a sharer\<close>

text \<open>The reference counts of the solvers, a field of SolverInterface, are part of this state.\<close>

record Sharer =
  producers :: "nat list"
  consumers :: "nat list"
  addProducers :: "nat list"
  addConsumers :: "nat list"
  removeProducers :: "nat list"
  removeConsumers :: "nat list"
  solver_refs :: "int list"

definition hold :: "nat \<Rightarrow> Sharer \<Rightarrow> Sharer" where
  "hold i r = r\<lparr>solver_refs := (solver_refs r)[i := solver_refs r ! i + 1]\<rparr>"

definition drop_ref :: "nat \<Rightarrow> Sharer \<Rightarrow> Sharer" where
  "drop_ref i r = r\<lparr>solver_refs := (solver_refs r)[i := solver_refs r ! i - 1]\<rparr>"

definition Sharer_new :: "nat list \<Rightarrow> nat list \<Rightarrow> int list \<Rightarrow> Sharer" where
  "Sharer_new ps cs refs =
     fold hold cs (fold hold ps
       \<lparr>producers = ps, consumers = cs, addProducers = [], addConsumers = [], removeProducers = [], removeConsumers = [],
        solver_refs = refs\<rparr>)"

definition addProducer :: "nat \<Rightarrow> Sharer \<Rightarrow> Sharer" where
  "addProducer i r = (let r = hold i r in r\<lparr>addProducers := addProducers r @ [i]\<rparr>)"

definition addConsumer :: "nat \<Rightarrow> Sharer \<Rightarrow> Sharer" where
  "addConsumer i r = (let r = hold i r in r\<lparr>addConsumers := addConsumers r @ [i]\<rparr>)"

definition removeProducer :: "nat \<Rightarrow> Sharer \<Rightarrow> Sharer" where
  "removeProducer i r = r\<lparr>removeProducers := removeProducers r @ [i]\<rparr>"

definition removeConsumer :: "nat \<Rightarrow> Sharer \<Rightarrow> Sharer" where
  "removeConsumer i r = r\<lparr>removeConsumers := removeConsumers r @ [i]\<rparr>"

definition sharer_round :: "(nat list \<Rightarrow> nat list \<Rightarrow> Sharing \<Rightarrow> Sharing option) \<Rightarrow> Sharer \<times> Sharing \<Rightarrow> (Sharer \<times> Sharing) option" where
  "sharer_round doSharing = (\<lambda>(r, s).
     let r = r\<lparr>producers := producers r @ addProducers r, addProducers := [],
               consumers := consumers r @ addConsumers r, addConsumers := []\<rparr>
     in case doSharing (producers r) (consumers r) s of
          None \<Rightarrow> None
        | Some s \<Rightarrow>
            let r = fold (\<lambda>i r. drop_ref i (r\<lparr>producers := removeAll i (producers r)\<rparr>)) (removeProducers r) r;
                r = r\<lparr>removeProducers := []\<rparr>;
                r = fold (\<lambda>i r. drop_ref i (r\<lparr>consumers := removeAll i (consumers r)\<rparr>)) (removeConsumers r) r
            in Some (r\<lparr>removeConsumers := []\<rparr>, s))"

section \<open>Counting references\<close>

text \<open>f says how many references each pointer should have; a clause without references is freed.\<close>

definition refs_ok :: "store \<Rightarrow> (nat \<Rightarrow> nat) \<Rightarrow> bool" where
  "refs_ok h f \<longleftrightarrow> (\<forall>p. case deref p h of None \<Rightarrow> f p = 0 | Some c \<Rightarrow> nbRefs c = int (f p) \<and> 0 < f p \<and> 0 < csize c)"

lemma refs_okD:
  assumes "refs_ok h f" "0 < f p"
  obtains c where "deref p h = Some c" "nbRefs c = int (f p)" "0 < csize c" "p < length h"
proof -
  have "case deref p h of None \<Rightarrow> f p = 0 | Some c \<Rightarrow> nbRefs c = int (f p) \<and> 0 < f p \<and> 0 < csize c"
    using assms(1) by (simp add: refs_ok_def)
  then show ?thesis using assms(2) that by (auto simp: deref_def split: option.splits if_splits)
qed

lemma deref_upd: "deref q (h[p := x]) = (if q = p \<and> p < length h then x else deref q h)"
  by (auto simp: deref_def)

lemma refs_ok_upd:
  assumes "refs_ok h f" "p < length h"
    and "case x of None \<Rightarrow> n = 0 | Some c \<Rightarrow> nbRefs c = int n \<and> 0 < n \<and> 0 < csize c"
  shows "refs_ok (h[p := x]) (f(p := n))"
  unfolding refs_ok_def
proof
  fix q
  show "case deref q (h[p := x]) of None \<Rightarrow> (f(p := n)) q = 0 | Some c \<Rightarrow> nbRefs c = int ((f(p := n)) q) \<and> 0 < (f(p := n)) q \<and> 0 < csize c"
  proof (cases "q = p")
    case True
    then show ?thesis using assms(2,3) by (cases x) (simp_all add: deref_upd)
  next
    case False
    then have "deref q (h[p := x]) = deref q h" by (simp add: deref_upd)
    moreover have "case deref q h of None \<Rightarrow> f q = 0 | Some c \<Rightarrow> nbRefs c = int (f q) \<and> 0 < f q \<and> 0 < csize c"
      using assms(1) by (simp add: refs_ok_def)
    ultimately show ?thesis using False by (cases "deref q h") simp_all
  qed
qed

lemma refs_ok_increase:
  assumes "refs_ok h f" "0 < f p"
  shows "\<exists>h'. increaseClause p 1 h = Some h' \<and> refs_ok h' (f(p := f p + 1))"
proof -
  obtain c where c: "deref p h = Some c" "nbRefs c = int (f p)" "0 < csize c" "p < length h"
    by (rule refs_okD [OF assms])
  have "refs_ok (h[p := Some (c\<lparr>nbRefs := nbRefs c + 1\<rparr>)]) (f(p := f p + 1))"
    using c by (intro refs_ok_upd [OF assms(1)]) simp_all
  then show ?thesis using c(1) by (simp add: increaseClause_def)
qed

lemma refs_ok_release:
  assumes "refs_ok h f" "0 < f p"
  shows "\<exists>h'. releaseClause p h = Some h' \<and> refs_ok h' (f(p := f p - 1))"
proof -
  obtain c where c: "deref p h = Some c" "nbRefs c = int (f p)" "0 < csize c" "p < length h"
    by (rule refs_okD [OF assms])
  have e: "releaseClause p h = Some (h[p := if f p = 1 then None else Some (c\<lparr>nbRefs := nbRefs c - 1\<rparr>)])"
    using c assms(2) by (auto simp: releaseClause_def Let_def)
  have "refs_ok (h[p := if f p = 1 then None else Some (c\<lparr>nbRefs := nbRefs c - 1\<rparr>)]) (f(p := f p - 1))"
    using c assms(2) by (intro refs_ok_upd [OF assms(1)]) auto
  then show ?thesis using e by simp
qed

lemma increase_all_refs:
  "refs_ok h f \<Longrightarrow> \<forall>p\<in>set ps. 0 < f p \<Longrightarrow>
     \<exists>h'. increase_all ps h = Some h' \<and> refs_ok h' (\<lambda>p. f p + count_list ps p)"
proof (induction ps arbitrary: h f)
  case (Cons p ps)
  obtain h1 where 1: "increaseClause p 1 h = Some h1" "refs_ok h1 (f(p := f p + 1))"
    using refs_ok_increase [OF Cons.prems(1)] Cons.prems(2) by auto
  have "\<forall>q\<in>set ps. 0 < (f(p := f p + 1)) q" using Cons.prems(2) by simp
  then obtain h2 where 2: "increase_all ps h1 = Some h2" "refs_ok h2 (\<lambda>q. (f(p := f p + 1)) q + count_list ps q)"
    using Cons.IH [OF 1(2)] by blast
  have "(\<lambda>q. (f(p := f p + 1)) q + count_list ps q) = (\<lambda>q. f q + count_list (p # ps) q)" by auto
  then show ?case using 1(1) 2 by (simp only: increase_all.simps option.simps) blast
qed simp

lemma release_all_refs:
  "refs_ok h f \<Longrightarrow> \<forall>p. count_list ps p \<le> f p \<Longrightarrow>
     \<exists>h'. release_all ps h = Some h' \<and> refs_ok h' (\<lambda>p. f p - count_list ps p)"
proof (induction ps arbitrary: h f)
  case (Cons p ps)
  have le: "count_list (p # ps) q \<le> f q" for q using Cons.prems(2) by blast
  have "0 < f p" using le [of p] by simp
  then obtain h1 where 1: "releaseClause p h = Some h1" "refs_ok h1 (f(p := f p - 1))"
    using refs_ok_release [OF Cons.prems(1)] by blast
  have "\<forall>q. count_list ps q \<le> (f(p := f p - 1)) q"
  proof
    fix q show "count_list ps q \<le> (f(p := f p - 1)) q" using le [of q] by (auto split: if_splits)
  qed
  then obtain h2 where 2: "release_all ps h1 = Some h2" "refs_ok h2 (\<lambda>q. (f(p := f p - 1)) q - count_list ps q)"
    using Cons.IH [OF 1(2)] by blast
  have "(\<lambda>q. (f(p := f p - 1)) q - count_list ps q) = (\<lambda>q. f q - count_list (p # ps) q)" by auto
  then show ?case using 1(1) 2 by (simp only: release_all.simps option.simps) blast
qed simp

text \<open>The references of a solver, and of the whole state but for the clauses in transit.\<close>

definition queued :: "MiniSat \<Rightarrow> nat list" where
  "queued ms = clausesToExport ms @ unitsToImport ms @ clausesToImport ms @ clausesToAdd ms"

definition held :: "Sharing \<Rightarrow> nat \<Rightarrow> nat" where
  "held s p = sum_list (map (\<lambda>ms. count_list (queued ms) p) (solvers s)) + count_list (concat (database s)) p"

definition sharing_ok :: "Sharing \<Rightarrow> bool" where
  "sharing_ok s \<longleftrightarrow> refs_ok (heap s) (held s)"

lemma addLearnedClauses_queued:
  "refs_ok h f \<Longrightarrow> \<forall>p\<in>set ps. 0 < f p \<Longrightarrow>
     \<exists>ms'. addLearnedClauses h ps ms = Some ms' \<and> sid ms' = sid ms \<and> (\<forall>p. count_list (queued ms') p = count_list (queued ms) p + count_list ps p)"
proof (induction ps arbitrary: ms)
  case (Cons p ps)
  obtain c where c: "deref p h = Some c" using refs_okD [OF Cons.prems(1), of p] Cons.prems(2) by auto
  obtain ms1 where 1: "addLearnedClause h p ms = Some ms1" "sid ms1 = sid ms"
    "\<forall>q. count_list (queued ms1) q = count_list (queued ms) q + count_list [p] q"
    using c by (auto simp: addLearnedClause_def queued_def)
  obtain ms2 where "addLearnedClauses h ps ms1 = Some ms2" "sid ms2 = sid ms1"
    "\<forall>q. count_list (queued ms2) q = count_list (queued ms1) q + count_list ps q" using Cons by fastforce
  then show ?case using 1 by auto
qed simp

lemma sum_solver_update:
  assumes "i < length ss" "count_list (queued ms) p = count_list (queued (ss ! i)) p + n"
  shows "sum_list (map (\<lambda>ms. count_list (queued ms) p) (ss[i := ms])) = sum_list (map (\<lambda>ms. count_list (queued ms) p) ss) + n"
proof -
  let ?g = "\<lambda>ms. count_list (queued ms) p"
  have "?g (ss ! i) \<le> sum_list (map ?g ss)" using assms(1) by (intro member_le_sum_list) simp_all
  then show ?thesis using assms by (simp add: map_update sum_list_update)
qed

text \<open>The clauses tmp are in transit: g p references beside the ones in the buffers.\<close>

lemma deliver_refs:
  assumes r: "refs_ok (heap s) (\<lambda>p. held s p + g p)" and g: "\<forall>p\<in>set tmp. 0 < g p" and j: "j < length (solvers s)"
  shows "\<exists>s'. deliver i tmp j s = Some s' \<and> refs_ok (heap s') (\<lambda>p. held s' p + g p) \<and>
    length (solvers s') = length (solvers s)"
proof (cases "sid (solvers s ! i) = sid (solvers s ! j)")
  case True
  then show ?thesis using r by (simp add: deliver_def)
next
  case False
  have pos: "\<forall>p\<in>set tmp. 0 < held s p + g p" using g by simp
  then obtain h where h: "increase_all tmp (heap s) = Some h" "refs_ok h (\<lambda>p. held s p + g p + count_list tmp p)"
    using increase_all_refs [OF r] by blast
  have "\<forall>p\<in>set tmp. 0 < held s p + g p + count_list tmp p" using g by simp
  then obtain ms where ms: "addLearnedClauses h tmp (solvers s ! j) = Some ms"
    "\<forall>p. count_list (queued ms) p = count_list (queued (solvers s ! j)) p + count_list tmp p"
    using addLearnedClauses_queued [OF h(2), of tmp "solvers s ! j"] by blast
  let ?s = "s\<lparr>heap := h, solvers := (solvers s)[j := ms]\<rparr>"
  have "held ?s p = held s p + count_list tmp p" for p
    using sum_solver_update [OF j, of ms p "count_list tmp p"] ms(2) by (simp add: held_def)
  then have "(\<lambda>p. held ?s p + g p) = (\<lambda>p. held s p + g p + count_list tmp p)" by (intro ext) (simp only: ac_simps)
  then have "refs_ok h (\<lambda>p. held ?s p + g p)" using h(2) by (simp only:)
  then show ?thesis using False h(1) ms(1) by (simp add: deliver_def)
qed

lemma deliver_all_refs:
  "refs_ok (heap s) (\<lambda>p. held s p + g p) \<Longrightarrow> \<forall>p\<in>set tmp. 0 < g p \<Longrightarrow> \<forall>j\<in>set to. j < length (solvers s) \<Longrightarrow>
    \<exists>s'. deliver_all i tmp to s = Some s' \<and> refs_ok (heap s') (\<lambda>p. held s' p + g p) \<and> length (solvers s') = length (solvers s)"
proof (induction to arbitrary: s)
  case (Cons j to)
  obtain s1 where 1: "deliver i tmp j s = Some s1" "refs_ok (heap s1) (\<lambda>p. held s1 p + g p)" "length (solvers s1) = length (solvers s)"
    using deliver_refs [OF Cons.prems(1,2), of j i] Cons.prems(3) by (meson list.set_intros(1))
  then show ?case using Cons.IH [OF 1(2) Cons.prems(2)] Cons.prems(3) by auto
qed simp

lemma share_refs:
  assumes "refs_ok (heap s) (\<lambda>p. held s p + count_list tmp p)" "\<forall>j\<in>set to. j < length (solvers s)"
  shows "\<exists>s'. (case deliver_all i tmp to s of None \<Rightarrow> None | Some s \<Rightarrow> release_tmp tmp s) = Some s' \<and> sharing_ok s' \<and>
    length (solvers s') = length (solvers s)"
proof -
  have "\<forall>p\<in>set tmp. 0 < count_list tmp p" by (metis count_list_0_iff gr0I)
  then obtain s1 where 1: "deliver_all i tmp to s = Some s1" "refs_ok (heap s1) (\<lambda>p. held s1 p + count_list tmp p)"
    "length (solvers s1) = length (solvers s)"
    using deliver_all_refs [OF assms(1) _ assms(2)] by blast
  obtain h where h: "release_all tmp (heap s1) = Some h" "refs_ok h (\<lambda>p. held s1 p + count_list tmp p - count_list tmp p)"
    using release_all_refs [OF 1(2), of tmp] by auto
  have "held (s1\<lparr>heap := h\<rparr>) = held s1" by (rule ext) (simp add: held_def)
  then have "sharing_ok (s1\<lparr>heap := h\<rparr>)" using h(2) by (simp add: sharing_ok_def)
  then show ?thesis using 1(1,3) h(1) by (simp add: release_tmp_def)
qed

text \<open>Taking the exported clauses of a solver.\<close>

lemma export_held:
  assumes "i < length (solvers s)" "ms = (solvers s ! i)\<lparr>clausesToExport := []\<rparr>"
  shows "held s p = held (s\<lparr>solvers := (solvers s)[i := ms]\<rparr>) p + count_list (clausesToExport (solvers s ! i)) p"
proof -
  let ?g = "\<lambda>ms. count_list (queued ms) p"
  have "?g (solvers s ! i) = ?g ms + count_list (clausesToExport (solvers s ! i)) p" by (simp add: queued_def assms(2))
  moreover have "?g (solvers s ! i) \<le> sum_list (map ?g (solvers s))" using assms(1) by (intro member_le_sum_list) simp_all
  ultimately show ?thesis using assms(1) by (simp add: held_def map_update sum_list_update)
qed

lemma simple_producer_refs:
  assumes "sharing_ok s" "i < length (solvers s)" "\<forall>j\<in>set to. j < length (solvers s)"
  shows "\<exists>s'. simple_producer to i s = Some s' \<and> sharing_ok s' \<and> length (solvers s') = length (solvers s)"
proof -
  let ?tmp = "clausesToExport (solvers s ! i)" and ?ms = "(solvers s ! i)\<lparr>clausesToExport := []\<rparr>"
  let ?s = "s\<lparr>solvers := (solvers s)[i := ?ms], receivedClauses := receivedClauses s + length ?tmp,
                sharedClauses := sharedClauses s + length ?tmp\<rparr>"
  have "held s p = held ?s p + count_list ?tmp p" for p using export_held [OF assms(2) refl, of p] by (simp add: held_def)
  then have e: "held s = (\<lambda>p. held ?s p + count_list ?tmp p)" by (intro ext)
  have "refs_ok (heap ?s) (held s)" using assms(1) by (simp add: sharing_ok_def)
  then have "refs_ok (heap ?s) (\<lambda>p. held ?s p + count_list ?tmp p)" by (simp only: e)
  then show ?thesis using share_refs [of ?s ?tmp to i] assms(3) by (simp add: simple_producer_def getLearnedClauses_def)
qed

section \<open>The database\<close>

lemma count_concat_update:
  "i < length db \<Longrightarrow> count_list (concat (db[i := db ! i @ [p]])) q = count_list (concat db) q + of_bool (p = q)"
proof (induction db arbitrary: i)
  case (Cons b db)
  then show ?case by (cases i) auto
qed simp

lemma concat_grow_to [simp]: "concat (grow_to n db) = concat db"
  by (simp add: grow_to_def)

lemma db_addClause_refs:
  assumes r: "refs_ok h (\<lambda>q. f q + count_list (concat db) q + count_list (p # ps) q)"
  shows "\<exists>db' h'. db_addClause p (db, h) = Some (db', h') \<and> refs_ok h' (\<lambda>q. f q + count_list (concat db') q + count_list ps q)"
proof -
  obtain c where c: "deref p h = Some c" "0 < csize c" by (rule refs_okD [OF r, of p]) auto
  let ?db = "grow_to (csize c) db" and ?i = "csize c - 1"
  have i: "?i < length ?db" using c(2) by (auto simp: grow_to_def)
  show ?thesis
  proof (cases "(length (?db ! ?i) + 1) * csize c < 1000")
    case True
    let ?db' = "?db[?i := ?db ! ?i @ [p]]"
    have "(\<lambda>q. f q + count_list (concat db) q + count_list (p # ps) q) = (\<lambda>q. f q + count_list (concat ?db') q + count_list ps q)"
      using count_concat_update [OF i, of p] by auto
    then have "refs_ok h (\<lambda>q. f q + count_list (concat ?db') q + count_list ps q)" using r by simp
    then show ?thesis using c True by (simp add: db_addClause_def Let_def)
  next
    case False
    let ?f = "\<lambda>q. f q + count_list (concat db) q + count_list (p # ps) q"
    obtain h' where h': "releaseClause p h = Some h'" "refs_ok h' (?f(p := ?f p - 1))"
      using refs_ok_release [OF r, of p] by auto
    have "?f(p := ?f p - 1) = (\<lambda>q. f q + count_list (concat ?db) q + count_list ps q)" by auto
    then show ?thesis using c False h' by (simp add: db_addClause_def Let_def)
  qed
qed

lemma db_addClauses_refs:
  "refs_ok h (\<lambda>q. f q + count_list (concat db) q + count_list ps q) \<Longrightarrow>
    \<exists>db' h'. db_addClauses ps (db, h) = Some (db', h') \<and> refs_ok h' (\<lambda>q. f q + count_list (concat db') q)"
proof (induction ps arbitrary: db h)
  case (Cons p ps)
  obtain db1 h1 where 1: "db_addClause p (db, h) = Some (db1, h1)" "refs_ok h1 (\<lambda>q. f q + count_list (concat db1) q + count_list ps q)"
    using db_addClause_refs [OF Cons.prems] by blast
  then show ?case using Cons.IH [OF 1(2)] by simp
qed simp

lemma give_from_mset:
  "give_from i totalSize used db = (sel, rest, used') \<Longrightarrow> mset sel + mset (concat rest) = mset (concat db) \<and> length rest = length db"
proof (induction i totalSize used db arbitrary: sel rest used' rule: give_from.induct)
  case (2 i totalSize used b bs)
  let ?left = "totalSize - used"
  consider "?left < i + 1" | "i + 1 \<le> ?left" "(i + 1) * length b \<le> ?left" | "i + 1 \<le> ?left" "?left < (i + 1) * length b" by linarith
  then show ?case
  proof cases
    case 1
    then show ?thesis using 2(3) by auto
  next
    case a: 2
    obtain sel1 rest1 where e: "give_from (i + 1) totalSize (used + (i + 1) * length b) bs = (sel1, rest1, used')"
      "sel = b @ sel1" "rest = [] # rest1"
      using 2(3) a by (auto simp: Let_def split: prod.splits)
    then show ?thesis using 2(1) [OF refl refl _ _ e(1)] a by simp
  next
    case a: 3
    let ?n = "?left div (i + 1)"
    obtain sel1 rest1 where e: "give_from (i + 1) totalSize (used + (i + 1) * ?n) bs = (sel1, rest1, used')"
      "sel = take ?n (rev b) @ sel1" "rest = take (length b - ?n) b # rest1"
      using 2(3) a by (auto simp: Let_def split: prod.splits)
    have "mset sel1 + mset (concat rest1) = mset (concat bs) \<and> length rest1 = length bs"
      using 2(2) [OF refl refl _ _ refl e(1)] a by simp
    moreover have "mset (take ?n (rev b)) + mset (take (length b - ?n) b) = mset b"
      by (metis append_take_drop_id mset_append mset_rev rev_drop take_rev add.commute drop_rev rev_rev_ident)
    ultimately show ?thesis using e by (simp add: add.assoc add.left_commute)
  qed
qed simp

lemma giveSelection_count:
  assumes "giveSelection n db = (sel, rest, used)"
  shows "count_list (concat db) p = count_list (concat rest) p + count_list sel p"
proof -
  have "mset (concat db) = mset (concat rest) + mset sel" using give_from_mset assms by (metis giveSelection_def add.commute)
  then have "count (mset (concat db)) p = count (mset (concat rest)) p + count (mset sel) p" by simp
  then show ?thesis by (simp only: count_mset)
qed

lemma held_production:
  "held (s\<lparr>solvers := (solvers s)[i := increaseClauseProduction (solvers s ! i)]\<rparr>) = held s"
proof
  fix p
  let ?g = "\<lambda>ms. count_list (queued ms) p"
  have "?g (increaseClauseProduction ms) = ?g ms" for ms by (simp add: increaseClauseProduction_def queued_def)
  then have "map ?g ((solvers s)[i := increaseClauseProduction (solvers s ! i)]) = (map ?g (solvers s))[i := ?g (solvers s ! i)]"
    by (simp only: map_update)
  also have "\<dots> = map ?g (solvers s)"
    by (cases "i < length (solvers s)") (simp_all add: list_update_same_conv list_update_beyond)
  finally show "held (s\<lparr>solvers := (solvers s)[i := increaseClauseProduction (solvers s ! i)]\<rparr>) p = held s p"
    by (simp add: held_def)
qed

lemma horde_producer_refs:
  assumes "sharing_ok s" "i < length (solvers s)" "\<forall>j\<in>set to. j < length (solvers s)" "0 < literalPerRound"
  shows "\<exists>s'. horde_producer literalPerRound to i s = Some s' \<and> sharing_ok s' \<and> length (solvers s') = length (solvers s)"
proof -
  let ?tmp = "clausesToExport (solvers s ! i)"
  define s1 where "s1 = s\<lparr>solvers := (solvers s)[i := (solvers s ! i)\<lparr>clausesToExport := []\<rparr>],
    receivedClauses := receivedClauses s + length ?tmp\<rparr>"
  define f where "f q = sum_list (map (\<lambda>ms. count_list (queued ms) q) (solvers s1))" for q
  have "held s q = f q + count_list (concat (database s)) q + count_list ?tmp q" for q
    using export_held [OF assms(2) refl, of q] by (simp add: held_def f_def s1_def)
  then have e: "held s = (\<lambda>q. f q + count_list (concat (database s)) q + count_list ?tmp q)" by (intro ext)
  have "refs_ok (heap s) (held s)" using assms(1) by (simp add: sharing_ok_def)
  then have "refs_ok (heap s) (\<lambda>q. f q + count_list (concat (database s)) q + count_list ?tmp q)" by (simp only: e)
  then obtain db h where db: "db_addClauses ?tmp (database s, heap s) = Some (db, h)"
    "refs_ok h (\<lambda>q. f q + count_list (concat db) q)"
    using db_addClauses_refs by blast
  obtain sel rest used where g: "giveSelection literalPerRound db = (sel, rest, used)" by (metis prod_cases3)
  define s2 where "s2 = s1\<lparr>heap := h, database := rest, sharedClauses := sharedClauses s1 + length sel\<rparr>"
  define s3 where "s3 = (if 100 * used div literalPerRound < 80
    then s2\<lparr>solvers := (solvers s2)[i := increaseClauseProduction (solvers s2 ! i)]\<rparr> else s2)"
  have "held s3 = held s2" unfolding s3_def using held_production by simp
  moreover have "held s2 q = f q + count_list (concat rest) q" for q by (simp add: held_def s2_def f_def)
  ultimately have "(\<lambda>q. f q + count_list (concat db) q) = (\<lambda>q. held s3 q + count_list sel q)"
    using giveSelection_count [OF g] by (intro ext) simp
  moreover have "heap s3 = h" by (simp add: s3_def s2_def)
  ultimately have "refs_ok (heap s3) (\<lambda>q. held s3 q + count_list sel q)" using db(2) by simp
  moreover have len: "length (solvers s3) = length (solvers s)" by (simp add: s3_def s2_def s1_def)
  ultimately obtain s' where s': "(case deliver_all i sel to s3 of None \<Rightarrow> None | Some s \<Rightarrow> release_tmp sel s) = Some s'" "sharing_ok s'"
    "length (solvers s') = length (solvers s3)"
    using share_refs [of s3 sel to i] assms(3) by auto
  have "horde_producer literalPerRound to i s = (case deliver_all i sel to s3 of None \<Rightarrow> None | Some s \<Rightarrow> release_tmp sel s)"
    using db(1) g assms(4) by (simp add: horde_producer_def getLearnedClauses_def s3_def s2_def s1_def)
  then show ?thesis using s' len by simp
qed

section \<open>The strategies keep the references\<close>

text \<open>The contract of a sharing strategy, and what a sharer relies on.\<close>

locale sharing_strategy =
  fixes doSharing :: "nat list \<Rightarrow> nat list \<Rightarrow> Sharing \<Rightarrow> Sharing option"
  assumes doSharing_refs: "sharing_ok s \<Longrightarrow> \<forall>i\<in>set from. i < length (solvers s) \<Longrightarrow> \<forall>j\<in>set to. j < length (solvers s) \<Longrightarrow>
    \<exists>s'. doSharing from to s = Some s' \<and> sharing_ok s' \<and> length (solvers s') = length (solvers s)"

definition members :: "Sharer \<Rightarrow> nat set" where
  "members r = set (producers r) \<union> set (consumers r) \<union> set (addProducers r) \<union> set (addConsumers r)"

definition system_ok :: "Sharer \<times> Sharing \<Rightarrow> bool" where
  "system_ok = (\<lambda>(r, s). sharing_ok s \<and> (\<forall>i\<in>members r. i < length (solvers s)))"

lemma members_drop [simp]: "members (drop_ref i r) = members r" "producers (drop_ref i r) = producers r"
  by (simp_all add: drop_ref_def members_def)

lemma members_hold [simp]: "members (hold i r) = members r"
  by (simp add: hold_def members_def)

lemma members_fold_producers:
  "members (fold (\<lambda>i r. drop_ref i (r\<lparr>producers := removeAll i (producers r)\<rparr>)) is r) \<subseteq> members r"
proof (induction "is" arbitrary: r)
  case (Cons i "is")
  have "members (r\<lparr>producers := removeAll i (producers r)\<rparr>) \<subseteq> members r" by (auto simp: members_def)
  then show ?case using Cons.IH [of "drop_ref i (r\<lparr>producers := removeAll i (producers r)\<rparr>)"] by simp
qed simp

lemma members_fold_consumers:
  "members (fold (\<lambda>i r. drop_ref i (r\<lparr>consumers := removeAll i (consumers r)\<rparr>)) is r) \<subseteq> members r"
proof (induction "is" arbitrary: r)
  case (Cons i "is")
  have "members (r\<lparr>consumers := removeAll i (consumers r)\<rparr>) \<subseteq> members r" by (auto simp: members_def)
  then show ?case using Cons.IH [of "drop_ref i (r\<lparr>consumers := removeAll i (consumers r)\<rparr>)"] by simp
qed simp

lemma members_removeProducers [simp]: "members (r\<lparr>removeProducers := xs\<rparr>) = members r" "members (r\<lparr>removeConsumers := xs\<rparr>) = members r"
  by (simp_all add: members_def)

context sharing_strategy
begin

lemma sharer_round_refs:
  assumes "system_ok (r, s)"
  shows "\<exists>r' s'. sharer_round doSharing (r, s) = Some (r', s') \<and> system_ok (r', s') \<and> length (solvers s') = length (solvers s)"
proof -
  let ?r = "r\<lparr>producers := producers r @ addProducers r, addProducers := [],
               consumers := consumers r @ addConsumers r, addConsumers := []\<rparr>"
  have m: "members ?r = members r" by (auto simp: members_def)
  have sub: "set (producers ?r) \<subseteq> members r" "set (consumers ?r) \<subseteq> members r" by (auto simp: members_def)
  have s: "sharing_ok s" "\<forall>i\<in>members r. i < length (solvers s)" using assms by (simp_all add: system_ok_def)
  have "\<forall>i\<in>set (producers ?r). i < length (solvers s)" "\<forall>i\<in>set (consumers ?r). i < length (solvers s)"
    using sub s(2) by blast+
  then obtain s' where s': "doSharing (producers ?r) (consumers ?r) s = Some s'" "sharing_ok s'" "length (solvers s') = length (solvers s)"
    using doSharing_refs [OF s(1)] by blast
  define r1 where "r1 = fold (\<lambda>i r. drop_ref i (r\<lparr>producers := removeAll i (producers r)\<rparr>)) (removeProducers ?r) ?r"
  define r2 where "r2 = r1\<lparr>removeProducers := []\<rparr>"
  define r3 where "r3 = fold (\<lambda>i r. drop_ref i (r\<lparr>consumers := removeAll i (consumers r)\<rparr>)) (removeConsumers r2) r2"
  have "members r1 \<subseteq> members r" unfolding r1_def using members_fold_producers m by blast
  moreover have "members r3 \<subseteq> members r1" unfolding r3_def using members_fold_consumers [of "removeConsumers r2" r2] by (simp add: r2_def)
  ultimately have "\<forall>i\<in>members (r3\<lparr>removeConsumers := []\<rparr>). i < length (solvers s')"
    using assms s'(3) by (auto simp: system_ok_def)
  then have "system_ok (r3\<lparr>removeConsumers := []\<rparr>, s')" using s'(2) by (simp add: system_ok_def)
  moreover have "sharer_round doSharing (r, s) = Some (r3\<lparr>removeConsumers := []\<rparr>, s')"
    using s'(1) by (simp add: sharer_round_def r3_def r2_def r1_def Let_def)
  ultimately show ?thesis using s'(3) by blast
qed

end

lemma SimpleSharing_refs:
  "sharing_ok s \<Longrightarrow> \<forall>i\<in>set from. i < length (solvers s) \<Longrightarrow> \<forall>j\<in>set to. j < length (solvers s) \<Longrightarrow>
    \<exists>s'. SimpleSharing from to s = Some s' \<and> sharing_ok s' \<and> length (solvers s') = length (solvers s)"
proof (induction "from" arbitrary: s)
  case (Cons i "from")
  obtain s1 where 1: "simple_producer to i s = Some s1" "sharing_ok s1" "length (solvers s1) = length (solvers s)"
    using simple_producer_refs [OF Cons.prems(1), of i to] Cons.prems(2,3) by auto
  then show ?case using Cons.IH [OF 1(2)] Cons.prems(2,3) by simp
qed simp

lemma HordeSatSharing_refs:
  "sharing_ok s \<Longrightarrow> \<forall>i\<in>set from. i < length (solvers s) \<Longrightarrow> \<forall>j\<in>set to. j < length (solvers s) \<Longrightarrow> 0 < literalPerRound \<Longrightarrow>
    \<exists>s'. HordeSatSharing literalPerRound from to s = Some s' \<and> sharing_ok s' \<and> length (solvers s') = length (solvers s)"
proof (induction "from" arbitrary: s)
  case (Cons i "from")
  obtain s1 where 1: "horde_producer literalPerRound to i s = Some s1" "sharing_ok s1" "length (solvers s1) = length (solvers s)"
    using horde_producer_refs [OF Cons.prems(1), of i to literalPerRound] Cons.prems(2,3,4) by auto
  then show ?case using Cons.IH [OF 1(2)] Cons.prems(2,3,4) by simp
qed simp

interpretation simple: sharing_strategy SimpleSharing
  by unfold_locales (rule SimpleSharing_refs)

text \<open>The default of shr-lit is 1500.\<close>

interpretation horde: sharing_strategy "HordeSatSharing (Suc l)" for l
  by unfold_locales (rule HordeSatSharing_refs, simp_all)

section \<open>Solvers and sharers together\<close>

text \<open>What the threads do to the shared clauses, one operation after another.\<close>

datatype op =
    Export nat "int list"
  | ImportUnit nat
  | ImportClause nat
  | Produce_less nat
  | Round_simple
  | Round_horde nat

definition with_solver :: "nat \<Rightarrow> (MiniSat \<Rightarrow> store \<Rightarrow> (MiniSat \<times> store) option) \<Rightarrow> Sharing \<Rightarrow> Sharing option" where
  "with_solver i f s =
     (case f (solvers s ! i) (heap s) of None \<Rightarrow> None | Some (ms, h) \<Rightarrow> Some (s\<lparr>solvers := (solvers s)[i := ms], heap := h\<rparr>))"

fun op_step :: "op \<Rightarrow> Sharer \<times> Sharing \<Rightarrow> (Sharer \<times> Sharing) option" where
  "op_step (Export i cls) (r, s) = map_option (Pair r) (with_solver i (\<lambda>ms h. Some (minisatExportClause cls ms h)) s)"
| "op_step (ImportUnit i) (r, s) = map_option (Pair r) (with_solver i (\<lambda>ms h. map_option snd (minisatImportUnit ms h)) s)"
| "op_step (ImportClause i) (r, s) = map_option (Pair r) (with_solver i (\<lambda>ms h. map_option snd (minisatImportClause ms h)) s)"
| "op_step (Produce_less i) (r, s) = map_option (Pair r) (with_solver i (\<lambda>ms h. Some (decreaseClauseProduction ms, h)) s)"
| "op_step Round_simple (r, s) = sharer_round SimpleSharing (r, s)"
| "op_step (Round_horde l) (r, s) = sharer_round (HordeSatSharing l) (r, s)"

fun op_steps :: "op list \<Rightarrow> Sharer \<times> Sharing \<Rightarrow> (Sharer \<times> Sharing) option" where
  "op_steps [] st = Some st"
| "op_steps (x # xs) st = (case op_step x st of None \<Rightarrow> None | Some st \<Rightarrow> op_steps xs st)"

text \<open>The operations of n solvers: a learned clause has a literal, and a round has a budget.\<close>

fun op_ok :: "nat \<Rightarrow> op \<Rightarrow> bool" where
  "op_ok n (Export i cls) \<longleftrightarrow> i < n \<and> cls \<noteq> []"
| "op_ok n (ImportUnit i) \<longleftrightarrow> i < n"
| "op_ok n (ImportClause i) \<longleftrightarrow> i < n"
| "op_ok n (Produce_less i) \<longleftrightarrow> i < n"
| "op_ok n Round_simple \<longleftrightarrow> True"
| "op_ok n (Round_horde l) \<longleftrightarrow> 0 < l"

lemma with_solver_refs:
  assumes s: "sharing_ok s" and i: "i < length (solvers s)"
    and f: "\<And>g. refs_ok (heap s) (\<lambda>p. count_list (queued (solvers s ! i)) p + g p) \<Longrightarrow>
      \<exists>ms h. f (solvers s ! i) (heap s) = Some (ms, h) \<and> refs_ok h (\<lambda>p. count_list (queued ms) p + g p)"
  shows "\<exists>s'. with_solver i f s = Some s' \<and> sharing_ok s' \<and> length (solvers s') = length (solvers s)"
proof -
  define g where "g p = held s p - count_list (queued (solvers s ! i)) p" for p
  have le: "count_list (queued (solvers s ! i)) p \<le> sum_list (map (\<lambda>ms. count_list (queued ms) p) (solvers s))" for p
    using i by (intro member_le_sum_list) simp_all
  have "held s p = count_list (queued (solvers s ! i)) p + g p" for p using le [of p] by (simp add: g_def held_def)
  then have e: "held s = (\<lambda>p. count_list (queued (solvers s ! i)) p + g p)" by (intro ext)
  have "refs_ok (heap s) (held s)" using s by (simp add: sharing_ok_def)
  then have "refs_ok (heap s) (\<lambda>p. count_list (queued (solvers s ! i)) p + g p)" by (simp only: e)
  then obtain ms h where f: "f (solvers s ! i) (heap s) = Some (ms, h)" "refs_ok h (\<lambda>p. count_list (queued ms) p + g p)"
    using f by blast
  let ?s = "s\<lparr>solvers := (solvers s)[i := ms], heap := h\<rparr>"
  have "held ?s p = count_list (queued ms) p + g p" for p
    using i le [of p] by (simp add: held_def g_def map_update sum_list_update)
  then have "held ?s = (\<lambda>p. count_list (queued ms) p + g p)" by (intro ext)
  then have "sharing_ok ?s" using f(2) by (simp add: sharing_ok_def)
  then show ?thesis using f(1) by (simp add: with_solver_def)
qed

text \<open>The operations of a solver keep the references, those of the others being g.\<close>

lemma refs_ok_alloc:
  assumes "refs_ok h f" "nbRefs c = 1" "0 < csize c"
  shows "refs_ok (h @ [Some c]) (\<lambda>p. f p + of_bool (p = length h))"
proof -
  have none: "f (length h) = 0"
    using assms(1) unfolding refs_ok_def by (auto simp: deref_def dest: spec [of _ "length h"])
  have d: "deref p (h @ [Some c]) = (if p = length h then Some c else deref p h)" for p
    by (auto simp: deref_def nth_append)
  show ?thesis unfolding refs_ok_def
  proof
    fix p
    have "case deref p h of None \<Rightarrow> f p = 0 | Some c \<Rightarrow> nbRefs c = int (f p) \<and> 0 < f p \<and> 0 < csize c"
      using assms(1) by (simp add: refs_ok_def)
    then show "case deref p (h @ [Some c]) of None \<Rightarrow> f p + of_bool (p = length h) = 0
      | Some c \<Rightarrow> nbRefs c = int (f p + of_bool (p = length h)) \<and> 0 < f p + of_bool (p = length h) \<and> 0 < csize c"
      using none assms(2,3) by (cases "p = length h"; cases "deref p h") (simp_all add: d)
  qed
qed

lemma minisatExportClause_refs:
  assumes r: "refs_ok h (\<lambda>p. count_list (queued ms) p + g p)" and c: "cls \<noteq> []"
  shows "\<exists>ms' h'. Some (minisatExportClause cls ms h) = Some (ms', h') \<and> refs_ok h' (\<lambda>p. count_list (queued ms') p + g p)"
proof (cases "int (length cls) > sizeLimit ms")
  case True
  then show ?thesis using r by (simp add: minisatExportClause_def)
next
  case False
  let ?c = "\<lparr>nbRefs = 1, lbd = int (length cls), origin = sid ms, csize = length cls, lits = cls\<rparr>"
  let ?ms = "ms\<lparr>clausesToExport := clausesToExport ms @ [length h]\<rparr>"
  have "minisatExportClause cls ms h = (?ms, h @ [Some ?c])"
    using False by (simp add: minisatExportClause_def allocClause_def)
  moreover have "(\<lambda>p. count_list (queued ?ms) p + g p) = (\<lambda>p. count_list (queued ms) p + g p + of_bool (p = length h))"
    by (rule ext) (simp add: queued_def)
  moreover have "refs_ok (h @ [Some ?c]) (\<lambda>p. count_list (queued ms) p + g p + of_bool (p = length h))"
    using c by (intro refs_ok_alloc [OF r]) simp_all
  ultimately show ?thesis by auto
qed

lemma import_refs:
  assumes r: "refs_ok h (\<lambda>q. count_list (queued ms) q + g q)"
    and q: "\<And>x. count_list (queued ms) x = count_list (queued ms') x + of_bool (p = x)"
  shows "\<exists>c h'. deref p h = Some c \<and> releaseClause p h = Some h' \<and> refs_ok h' (\<lambda>q. count_list (queued ms') q + g q)"
proof -
  let ?f = "\<lambda>q. count_list (queued ms) q + g q"
  have pos: "0 < ?f p" using q [of p] by simp
  obtain c where c: "deref p h = Some c" by (rule refs_okD [OF r pos])
  obtain h' where h': "releaseClause p h = Some h'" "refs_ok h' (?f(p := ?f p - 1))"
    using refs_ok_release [OF r pos] by blast
  have "?f(p := ?f p - 1) = (\<lambda>x. count_list (queued ms') x + g x)" by (rule ext) (simp add: q)
  then show ?thesis using c h' by auto
qed

lemma minisatImportUnit_refs:
  assumes r: "refs_ok h (\<lambda>p. count_list (queued ms) p + g p)"
  shows "\<exists>ms' h'. map_option snd (minisatImportUnit ms h) = Some (ms', h') \<and> refs_ok h' (\<lambda>p. count_list (queued ms') p + g p)"
proof (cases "unitsToImport ms")
  case Nil
  then show ?thesis using r by (simp add: minisatImportUnit_def)
next
  case (Cons p ps)
  have "count_list (queued ms) x = count_list (queued (ms\<lparr>unitsToImport := ps\<rparr>)) x + of_bool (p = x)" for x
    by (simp add: queued_def Cons)
  then show ?thesis using import_refs [OF r, of "ms\<lparr>unitsToImport := ps\<rparr>" p] Cons by (auto simp: minisatImportUnit_def)
qed

lemma minisatImportClause_refs:
  assumes r: "refs_ok h (\<lambda>p. count_list (queued ms) p + g p)"
  shows "\<exists>ms' h'. map_option snd (minisatImportClause ms h) = Some (ms', h') \<and> refs_ok h' (\<lambda>p. count_list (queued ms') p + g p)"
proof (cases "clausesToImport ms")
  case Nil
  then show ?thesis using r by (simp add: minisatImportClause_def)
next
  case (Cons p ps)
  have "count_list (queued ms) x = count_list (queued (ms\<lparr>clausesToImport := ps\<rparr>)) x + of_bool (p = x)" for x
    by (simp add: queued_def Cons)
  then show ?thesis using import_refs [OF r, of "ms\<lparr>clausesToImport := ps\<rparr>" p] Cons by (auto simp: minisatImportClause_def)
qed

lemma solver_step_ok:
  assumes "system_ok (r, s)" "i < length (solvers s)"
    "\<And>ms h g. refs_ok h (\<lambda>p. count_list (queued ms) p + g p) \<Longrightarrow>
      \<exists>ms' h'. f ms h = Some (ms', h') \<and> refs_ok h' (\<lambda>p. count_list (queued ms') p + g p)"
  shows "\<exists>r' s'. map_option (Pair r) (with_solver i f s) = Some (r', s') \<and> system_ok (r', s') \<and> length (solvers s') = length (solvers s)"
proof -
  obtain s' where "with_solver i f s = Some s'" "sharing_ok s'" "length (solvers s') = length (solvers s)"
    using with_solver_refs [of s i f] assms by (auto simp: system_ok_def)
  then show ?thesis using assms(1) by (simp add: system_ok_def)
qed

lemma op_step_ok:
  assumes "system_ok (r, s)" "op_ok (length (solvers s)) x"
  shows "\<exists>r' s'. op_step x (r, s) = Some (r', s') \<and> system_ok (r', s') \<and> length (solvers s') = length (solvers s)"
proof (cases x)
  case (Export i cls)
  show ?thesis unfolding Export op_step.simps using assms Export by (intro solver_step_ok minisatExportClause_refs) simp_all
next
  case (ImportUnit i)
  show ?thesis unfolding ImportUnit op_step.simps using assms ImportUnit by (intro solver_step_ok minisatImportUnit_refs) simp_all
next
  case (ImportClause i)
  show ?thesis unfolding ImportClause op_step.simps using assms ImportClause by (intro solver_step_ok minisatImportClause_refs) simp_all
next
  case (Produce_less i)
  show ?thesis unfolding Produce_less op_step.simps using assms Produce_less
    by (intro solver_step_ok) (simp_all add: decreaseClauseProduction_def queued_def)
next
  case Round_simple
  then show ?thesis using simple.sharer_round_refs [OF assms(1)] by simp
next
  case (Round_horde l)
  then obtain l' where "l = Suc l'" using assms(2) by (cases l) simp_all
  then show ?thesis using horde.sharer_round_refs [OF assms(1)] Round_horde by simp
qed

lemma op_steps_ok:
  "system_ok (r, s) \<Longrightarrow> list_all (op_ok (length (solvers s))) xs \<Longrightarrow>
    \<exists>r' s'. op_steps xs (r, s) = Some (r', s') \<and> system_ok (r', s') \<and> length (solvers s') = length (solvers s)"
proof (induction xs arbitrary: r s)
  case (Cons x xs)
  obtain r1 s1 where 1: "op_step x (r, s) = Some (r1, s1)" "system_ok (r1, s1)" "length (solvers s1) = length (solvers s)"
    using op_step_ok [OF Cons.prems(1)] Cons.prems(2) by fastforce
  then show ?case using Cons.IH [OF 1(2)] Cons.prems(2) by simp
qed simp

section \<open>What a selection takes\<close>

lemma give_from_full:
  "totalSize - used < i + 1 \<Longrightarrow> give_from i totalSize used db = ([], db, used)"
  by (cases db) simp_all

lemma sum_same:
  "\<forall>p\<in>set b. sz p = c \<Longrightarrow> sum_list (map sz b) = c * length (b :: nat list)"
  by (induction b) simp_all

text \<open>The sizes of the clauses are sz, and vector k holds those of size i + k + 1.\<close>

definition sized :: "(nat \<Rightarrow> nat) \<Rightarrow> nat \<Rightarrow> nat list list \<Rightarrow> bool" where
  "sized sz i db \<longleftrightarrow> list_all (\<lambda>k. list_all (\<lambda>p. sz p = i + k + 1) (db ! k)) [0..<length db]"

lemma sized_Cons:
  "sized sz i (b # bs) \<longleftrightarrow> (\<forall>p\<in>set b. sz p = i + 1) \<and> sized sz (i + 1) bs"
proof -
  have "sized sz i db \<longleftrightarrow> (\<forall>k<length db. \<forall>p\<in>set (db ! k). sz p = i + k + 1)" for i db
    by (auto simp: sized_def list_all_iff)
  then show ?thesis by (simp add: All_less_Suc2)
qed

lemma sized_ge: "sized sz i db \<Longrightarrow> p \<in> set (concat db) \<Longrightarrow> i + 1 \<le> sz p"
  by (induction db arbitrary: i) (fastforce simp: sized_Cons)+

definition takes :: "(nat \<Rightarrow> nat) \<Rightarrow> nat \<Rightarrow> nat \<Rightarrow> nat list \<times> nat list list \<times> nat \<Rightarrow> bool" where
  "takes sz totalSize used = (\<lambda>(sel, rest, used').
     used' = used + sum_list (map sz sel) \<and> used' \<le> totalSize \<and>
     list_all (\<lambda>q. totalSize < used' + sz q \<and> list_all (\<lambda>p. sz p \<le> sz q) sel) (concat rest))"

lemma takes_nothing:
  assumes "sized sz i db" "totalSize - used < i + 1" "used \<le> totalSize"
  shows "takes sz totalSize used ([], db, used)"
proof -
  have "totalSize < used + sz q" if "q \<in> set (concat db)" for q using sized_ge [OF assms(1) that] assms(2,3) by linarith
  then show ?thesis using assms(3) by (simp only: takes_def prod.case list_all_iff) simp
qed

lemma give_from_takes:
  "sized sz i db \<Longrightarrow> used \<le> totalSize \<Longrightarrow> takes sz totalSize used (give_from i totalSize used db)"
proof (induction db arbitrary: i used)
  case Nil
  then show ?case by (simp add: takes_def)
next
  case (Cons b bs)
  let ?left = "totalSize - used"
  have b: "\<forall>p\<in>set b. sz p = i + 1" and bs: "sized sz (i + 1) bs" using Cons.prems(1) by (simp_all add: sized_Cons)
  consider "?left < i + 1" | "i + 1 \<le> ?left" "(i + 1) * length b \<le> ?left" | "i + 1 \<le> ?left" "?left < (i + 1) * length b" by linarith
  then show ?case
  proof cases
    case 1
    then have "give_from i totalSize used (b # bs) = ([], b # bs, used)" by (rule give_from_full)
    then show ?thesis using takes_nothing [OF Cons.prems(1) 1 Cons.prems(2)] by (simp only:)
  next
    case 2
    let ?used = "used + (i + 1) * length b"
    obtain sel rest used' where e: "give_from (i + 1) totalSize ?used bs = (sel, rest, used')" by (metis prod_cases3)
    have "?used \<le> totalSize" using 2 Cons.prems(2) by linarith
    then have t: "takes sz totalSize ?used (sel, rest, used')" using Cons.IH [OF bs] e by metis
    have "set (concat rest) \<subseteq> set (concat bs)" using give_from_mset [OF e] by (metis set_mset_mset set_mset_union Un_upper2)
    then have "list_all (\<lambda>q. list_all (\<lambda>p. sz p \<le> sz q) b) (concat rest)"
      using b sized_ge [OF bs] unfolding list_all_iff by (metis (no_types, lifting) Suc_eq_plus1 Suc_leD subsetD)
    moreover have g: "give_from i totalSize used (b # bs) = (b @ sel, [] # rest, used')" using 2 e by simp
    ultimately show ?thesis using t sum_same [OF b] unfolding g by (auto simp: takes_def list_all_iff)
  next
    case 3
    let ?n = "?left div (i + 1)"
    let ?used = "used + (i + 1) * ?n" and ?sel = "take ?n (rev b)" and ?rest = "take (length b - ?n) b"
    have "(i + 1) * ?n \<le> ?left" by (rule times_div_less_eq_dividend)
    moreover have m: "?left - (i + 1) * ?n < i + 1" by (metis minus_mult_div_eq_mod mod_less_divisor zero_less_Suc Suc_eq_plus1)
    ultimately have u: "?used \<le> totalSize" "totalSize - ?used < i + 1" using Cons.prems(2) by linarith+
    have "give_from (i + 1) totalSize ?used bs = ([], bs, ?used)" using u(2) by (intro give_from_full) linarith
    then have e: "give_from i totalSize used (b # bs) = (?sel, ?rest # bs, ?used)" using 3 by (simp add: Let_def)
    have n: "?n \<le> length b" using 3 by (metis less_mult_imp_div_less mult.commute less_imp_le)
    have s: "\<forall>p\<in>set ?sel. sz p = i + 1" using b by (metis in_set_takeD set_rev)
    have sum: "sum_list (map sz ?sel) = (i + 1) * ?n" using sum_same [OF s] n by simp
    have ge: "i + 1 \<le> sz q" if "q \<in> set (concat (?rest # bs))" for q
    proof (cases "q \<in> set (concat bs)")
      case True
      then show ?thesis using sized_ge [OF bs True] by linarith
    next
      case False
      then have "q \<in> set ?rest" using that by simp
      then have "q \<in> set b" by (rule in_set_takeD)
      then show ?thesis using b by simp
    qed
    have "list_all (\<lambda>q. totalSize < ?used + sz q \<and> list_all (\<lambda>p. sz p \<le> sz q) ?sel) (concat (?rest # bs))"
      unfolding list_all_iff
    proof (intro ballI conjI)
      fix q assume q: "q \<in> set (concat (?rest # bs))"
      show "totalSize < ?used + sz q" using ge [OF q] u(2) by linarith
      fix p assume "p \<in> set ?sel"
      then show "sz p \<le> sz q" using s ge [OF q] by metis
    qed
    then show ?thesis using u(1) by (simp only: e takes_def prod.case sum) 
  qed
qed

section \<open>The properties\<close>

text \<open>
  C4: whatever the solvers export and import and whatever the sharers distribute, with either
  strategy, no thread touches a freed clause, and exactly the clauses that some buffer or the
  database still holds are kept.
\<close>

theorem sharing_safe:
  assumes "system_ok (r, s)" "list_all (op_ok (length (solvers s))) xs"
  shows "\<exists>r' s'. op_steps xs (r, s) = Some (r', s') \<and> system_ok (r', s') \<and>
    (\<forall>p. (deref p (heap s') = None) = (held s' p = 0))"
proof -
  obtain r' s' where s': "op_steps xs (r, s) = Some (r', s')" "system_ok (r', s')" using op_steps_ok [OF assms] by blast
  have "refs_ok (heap s') (held s')" using s'(2) by (simp add: system_ok_def sharing_ok_def)
  then have c: "case deref p (heap s') of None \<Rightarrow> held s' p = 0 | Some c \<Rightarrow> nbRefs c = int (held s' p) \<and> 0 < held s' p \<and> 0 < csize c" for p
    by (simp add: refs_ok_def)
  have "(deref p (heap s') = None) = (held s' p = 0)" for p using c [of p] by (cases "deref p (heap s')") simp_all
  then show ?thesis using s' by blast
qed

definition sharing_example :: "Sharer \<times> Sharing" where
  "sharing_example =
     (Sharer_new [0, 1] [0, 1] [1, 1],
      \<lparr>solvers = [\<lparr>sid = 0, sizeLimit = 2, clausesToExport = [], unitsToImport = [], clausesToImport = [], clausesToAdd = []\<rparr>,
                   \<lparr>sid = 1, sizeLimit = 2, clausesToExport = [], unitsToImport = [], clausesToImport = [], clausesToAdd = []\<rparr>],
       heap = [], database = [], receivedClauses = 0, sharedClauses = 0\<rparr>)"

lemma sharing_example_ok: "system_ok sharing_example"
  by (auto simp: sharing_example_def system_ok_def sharing_ok_def refs_ok_def held_def queued_def deref_def members_def Sharer_new_def hold_def)

lemma sharing_safe_witness:
  "op_steps [Export 0 [3], Export 1 [1, -2], Round_simple, ImportUnit 1, Round_horde 10] sharing_example \<noteq> None"
  using sharing_safe [of "fst sharing_example" "snd sharing_example" "[Export 0 [3], Export 1 [1, -2], Round_simple, ImportUnit 1, Round_horde 10]"]
    sharing_example_ok by (simp add: sharing_example_def) (metis option.distinct(1))

text \<open>
  C28: giveSelection takes clauses off the database, the shorter before the longer, keeps their
  literals within the budget and reports how many they are, and stops only when none of the
  clauses left would fit.
\<close>

theorem giveSelection_correct:
  assumes "sized sz 0 db" "giveSelection totalSize db = (sel, rest, used)"
  shows "mset sel + mset (concat rest) = mset (concat db) \<and> used = sum_list (map sz sel) \<and> used \<le> totalSize \<and>
    list_all (\<lambda>q. totalSize < used + sz q \<and> list_all (\<lambda>p. sz p \<le> sz q) sel) (concat rest)"
proof -
  have g: "give_from 0 totalSize 0 db = (sel, rest, used)" using assms(2) by (simp add: giveSelection_def)
  have "takes sz totalSize 0 (sel, rest, used)" using give_from_takes [OF assms(1), of 0 totalSize] by (simp only: g)
  then show ?thesis using give_from_mset [OF g] unfolding takes_def prod.case add_0 by blast
qed

lemma giveSelection_correct_witness:
  "mset [7, 5, 9] + mset (concat [[], [6]]) = mset (concat [[7], [6, 9, 5 :: nat]])"
  using giveSelection_correct [of "\<lambda>p. if p = 7 then 1 else 2" "[[7], [6, 9, 5]]" 6 "[7, 5, 9]" "[[], [6]]" 5]
  by (simp add: giveSelection_def sized_def upt_rec)

end
