(* ===== verification/Pl_Divide.thy ===== *)
theory Pl_Divide
  imports Main
begin

text \<open>
  The divide and conquer strategy of painless, src/painless-v2/painless-src/working:
  DivideAndConquer.cpp with its workers, SequentialWorker.cpp, with the default copy mode 1.  A
  critical section is one step; the state between the decision that the search ends and its
  publication is modelled, as the threads run on there.  The times after which a worker is
  interrupted and the logs are left out: the master may interrupt any time.

  The SAT solvers are parameters: F says which assignments satisfy the formula, and answers what a
  solver that is sound returns under a cube, with unknown only when it was interrupted.
  Condition variables wake up only when they are signalled.
\<close>

section \<open>Results\<close>

datatype SatResult = SAT | UNSAT | UNKNOWN

definition lit_true :: "(nat \<Rightarrow> bool) \<Rightarrow> int \<Rightarrow> bool" where
  "lit_true a l = (if 0 < l then a (nat l) else \<not> a (nat (- l)))"

definition cube_true :: "(nat \<Rightarrow> bool) \<Rightarrow> int list \<Rightarrow> bool" where
  "cube_true a c = list_all (lit_true a) c"

definition assignment :: "int list \<Rightarrow> nat \<Rightarrow> bool" where
  "assignment m v = (int v \<in> set m)"

text \<open>What a result says about the formula F under the cube c.\<close>

fun claim :: "((nat \<Rightarrow> bool) \<Rightarrow> bool) \<Rightarrow> int list \<Rightarrow> SatResult \<Rightarrow> int list \<Rightarrow> bool" where
  "claim F c SAT m \<longleftrightarrow> F (assignment m) \<and> cube_true (assignment m) c"
| "claim F c UNSAT m \<longleftrightarrow> (\<forall>a. F a \<longrightarrow> \<not> cube_true a c)"
| "claim F c UNKNOWN m \<longleftrightarrow> True"

definition answers :: "((nat \<Rightarrow> bool) \<Rightarrow> bool) \<Rightarrow> bool \<Rightarrow> int list \<Rightarrow> SatResult \<Rightarrow> int list \<Rightarrow> bool" where
  "answers F interrupted c res m \<longleftrightarrow> claim F c res m \<and> (res = UNKNOWN \<longrightarrow> interrupted)"

section \<open>The state\<close>

datatype master = Running | Waiting | Done

text \<open>
  worker_cube, interrupt and solving belong to the workers: their member actualCube, their flag,
  and the cube of the call of the solver that is under way.  report is the result of the thread
  that has ended the strategy but has not published it yet.
\<close>

record Dnc =
  overs :: "nat list"
  workers :: "nat list"
  workersSplitting :: "nat list"
  oversSplitting :: "nat list"
  cubes :: "nat \<Rightarrow> int list"
  worker_cube :: "nat \<Rightarrow> int list"
  interrupt :: "nat \<Rightarrow> bool"
  solving :: "nat \<Rightarrow> int list option"
  nWorkers :: int
  strategyEnding :: bool
  globalEnding :: bool
  report :: "(SatResult \<times> int list) option"
  finalResult :: SatResult
  finalModel :: "int list"
  master :: master

section \<open>Vectors\<close>

fun getHeadFromVector :: "'a list \<Rightarrow> ('a \<times> 'a list) option" where
  "getHeadFromVector [] = None"
| "getHeadFromVector (x # xs) = Some (x, xs)"

definition removeFromVector :: "'a \<Rightarrow> 'a list \<Rightarrow> 'a list" where
  "removeFromVector x xs = remove1 x xs"

definition addOnceToVectorTail :: "'a \<Rightarrow> 'a list \<Rightarrow> 'a list" where
  "addOnceToVectorTail x xs = (if x \<in> set xs then xs else xs @ [x])"

definition addOnceToVectorHead :: "'a \<Rightarrow> 'a list \<Rightarrow> 'a list" where
  "addOnceToVectorHead x xs = (if x \<in> set xs then xs else x # xs)"

section \<open>The operations\<close>

definition worker_solve :: "nat \<Rightarrow> int list \<Rightarrow> Dnc \<Rightarrow> Dnc" where
  "worker_solve w c s = s\<lparr>worker_cube := (worker_cube s)(w := c), interrupt := (interrupt s)(w := False)\<rparr>"

definition worker_setInterrupt :: "nat \<Rightarrow> Dnc \<Rightarrow> Dnc" where
  "worker_setInterrupt w s = s\<lparr>interrupt := (interrupt s)(w := True)\<rparr>"

text \<open>The state when the master has started the first of n slaves and enters its loop.\<close>

definition dc_start :: "nat \<Rightarrow> int list \<Rightarrow> Dnc" where
  "dc_start n actualCube =
     worker_solve 0 actualCube
       \<lparr>overs = [1..<n], workers = [0], workersSplitting = [], oversSplitting = [], cubes = (\<lambda>_. actualCube),
        worker_cube = (\<lambda>_. []), interrupt = (\<lambda>_. True), solving = (\<lambda>_. None), nWorkers = 1,
        strategyEnding = False, globalEnding = False, report = None, finalResult = UNKNOWN, finalModel = [],
        master = Running\<rparr>"

text \<open>One round of the master; it is left out that a worker works for two seconds at least.\<close>

definition dc_master :: "Dnc \<Rightarrow> Dnc" where
  "dc_master s =
     (if globalEnding s \<or> strategyEnding s then s\<lparr>master := Done\<rparr>
      else if overs s = [] \<or> workers s = [] then s\<lparr>master := Waiting\<rparr>
      else if nWorkers s = 0 then s\<lparr>master := Done\<rparr>
      else
        let actualWorker = hd (workers s); actualOver = hd (overs s)
        in worker_setInterrupt actualWorker
             (s\<lparr>overs := tl (overs s), workers := tl (workers s),
                workersSplitting := addOnceToVectorTail actualWorker (workersSplitting s),
                oversSplitting := addOnceToVectorTail actualOver (oversSplitting s)\<rparr>))"

definition dc_signal :: "bool \<Rightarrow> Dnc \<Rightarrow> Dnc" where
  "dc_signal b s = (if b \<and> master s = Waiting then s\<lparr>master := Running\<rparr> else s)"

text \<open>A worker that was interrupted splits its cube at var with an idle one.\<close>

definition dc_split :: "nat \<Rightarrow> int \<Rightarrow> Dnc \<Rightarrow> Dnc option" where
  "dc_split current var s =
     (case getHeadFromVector (oversSplitting s) of
        None \<Rightarrow> None
      | Some (over, rest) \<Rightarrow>
          let cs = (cubes s)(over := cubes s current);
              cs = cs(current := cs current @ [var]);
              cs = cs(over := cs over @ [- var]);
              s = s\<lparr>oversSplitting := rest, workersSplitting := removeFromVector current (workersSplitting s),
                    cubes := cs, workers := workers s @ [current, over], nWorkers := nWorkers s + 1\<rparr>
          in Some (dc_signal (overs s \<noteq> []) (worker_solve over (cs over) (worker_solve current (cs current) s))))"

text \<open>A worker has refuted its cube.\<close>

definition dc_unsat :: "nat \<Rightarrow> Dnc \<Rightarrow> Dnc option" where
  "dc_unsat current s =
     map_option (\<lambda>s.
         let s = s\<lparr>overs := addOnceToVectorTail current (overs s)\<rparr>;
             s = worker_setInterrupt current (dc_signal (workers s \<noteq> []) s)
         in s\<lparr>nWorkers := nWorkers s - 1\<rparr>)
       (if current \<in> set (workersSplitting s)
        then (case getHeadFromVector (oversSplitting s) of
                None \<Rightarrow> None
              | Some (oldOver, rest) \<Rightarrow>
                  Some (s\<lparr>oversSplitting := rest, overs := addOnceToVectorHead oldOver (overs s),
                          workersSplitting := removeFromVector current (workersSplitting s)\<rparr>))
        else Some (s\<lparr>workers := removeFromVector current (workers s)\<rparr>))"

text \<open>The first result ends the strategy: its slaves are interrupted, then it is published.\<close>

definition dc_end :: "SatResult \<Rightarrow> int list \<Rightarrow> Dnc \<Rightarrow> Dnc" where
  "dc_end res m s =
     (if strategyEnding s then s else s\<lparr>strategyEnding := True, interrupt := (\<lambda>_. True), report := Some (res, m)\<rparr>)"

definition dc_publish :: "Dnc \<Rightarrow> Dnc" where
  "dc_publish s =
     (case report s of
        None \<Rightarrow> s
      | Some (res, m) \<Rightarrow>
          s\<lparr>globalEnding := True, finalResult := res, finalModel := (if res = SAT then m else finalModel s), report := None\<rparr>)"

definition dc_join :: "nat \<Rightarrow> SatResult \<Rightarrow> int list \<Rightarrow> int \<Rightarrow> Dnc \<Rightarrow> Dnc option" where
  "dc_join current res m var s =
     (case res of
        UNKNOWN \<Rightarrow> dc_split current var s
      | UNSAT \<Rightarrow> map_option (\<lambda>s. if nWorkers s > 0 then s else dc_end res m s) (dc_unsat current s)
      | SAT \<Rightarrow> Some (dc_end res m s))"

definition worker_join :: "nat \<Rightarrow> SatResult \<Rightarrow> int list \<Rightarrow> int \<Rightarrow> Dnc \<Rightarrow> Dnc option" where
  "worker_join w res m var s = (if globalEnding s then Some s else dc_join w res m var s)"

text \<open>The loop of a worker: it begins a call of its solver unless its flag is set.\<close>

definition worker_begin :: "nat \<Rightarrow> Dnc \<Rightarrow> Dnc" where
  "worker_begin w s = s\<lparr>solving := (solving s)(w := Some (worker_cube s w))\<rparr>"

definition worker_finish :: "nat \<Rightarrow> SatResult \<Rightarrow> int list \<Rightarrow> int \<Rightarrow> Dnc \<Rightarrow> Dnc option" where
  "worker_finish w res m var s = worker_join w res m var (s\<lparr>solving := (solving s)(w := None)\<rparr>)"

section \<open>The runs\<close>

text \<open>The steps of the threads; None is a step that uses a worker that was not assigned.\<close>

inductive dc_step :: "((nat \<Rightarrow> bool) \<Rightarrow> bool) \<Rightarrow> Dnc \<Rightarrow> Dnc option \<Rightarrow> bool" for F where
  Begin: "\<not> globalEnding s \<Longrightarrow> \<not> interrupt s w \<Longrightarrow> solving s w = None \<Longrightarrow> dc_step F s (Some (worker_begin w s))"
| Finish: "solving s w = Some c \<Longrightarrow> answers F (interrupt s w) c res m \<Longrightarrow> var \<noteq> 0 \<Longrightarrow>
    dc_step F s (worker_finish w res m var s)"
| Publish: "report s \<noteq> None \<Longrightarrow> dc_step F s (Some (dc_publish s))"
| Master: "master s = Running \<Longrightarrow> dc_step F s (Some (dc_master s))"

inductive dc_reach :: "((nat \<Rightarrow> bool) \<Rightarrow> bool) \<Rightarrow> Dnc \<Rightarrow> Dnc \<Rightarrow> bool" for F and s0 where
  Start: "dc_reach F s0 s0"
| Step: "dc_reach F s0 s \<Longrightarrow> dc_step F s (Some s') \<Longrightarrow> dc_reach F s0 s'"

inductive_cases dc_stepE: "dc_step F s r"

section \<open>The invariant\<close>

definition active :: "Dnc \<Rightarrow> nat set" where
  "active s = set (workers s) \<union> set (workersSplitting s)"

text \<open>The cubes of the active workers cover the cube that the strategy was started with.\<close>

definition covers :: "((nat \<Rightarrow> bool) \<Rightarrow> bool) \<Rightarrow> int list \<Rightarrow> Dnc \<Rightarrow> bool" where
  "covers F cube s \<longleftrightarrow> (\<forall>a. F a \<longrightarrow> cube_true a cube \<longrightarrow> (\<exists>w\<in>active s. cube_true a (cubes s w)))"

definition lists_ok :: "Dnc \<Rightarrow> bool" where
  "lists_ok s \<longleftrightarrow> distinct (workers s @ workersSplitting s @ overs s @ oversSplitting s) \<and>
     length (workersSplitting s) = length (oversSplitting s) \<and>
     nWorkers s = int (length (workers s) + length (workersSplitting s))"

definition cubes_ok :: "int list \<Rightarrow> Dnc \<Rightarrow> bool" where
  "cubes_ok cube s \<longleftrightarrow> (\<forall>w\<in>active s. worker_cube s w = cubes s w \<and> (\<exists>r. cubes s w = cube @ r))"

definition threads_ok :: "Dnc \<Rightarrow> bool" where
  "threads_ok s \<longleftrightarrow> (\<forall>w c. solving s w = Some c \<longrightarrow> w \<in> active s \<and> c = cubes s w) \<and>
     (\<forall>w. interrupt s w \<longleftrightarrow> w \<notin> set (workers s))"

definition running :: "((nat \<Rightarrow> bool) \<Rightarrow> bool) \<Rightarrow> int list \<Rightarrow> Dnc \<Rightarrow> bool" where
  "running F cube s \<longleftrightarrow> lists_ok s \<and> cubes_ok cube s \<and> threads_ok s \<and> covers F cube s \<and>
     \<not> strategyEnding s \<and> \<not> globalEnding s \<and> report s = None \<and> finalResult s = UNKNOWN"

definition ended :: "((nat \<Rightarrow> bool) \<Rightarrow> bool) \<Rightarrow> int list \<Rightarrow> Dnc \<Rightarrow> bool" where
  "ended F cube s \<longleftrightarrow> strategyEnding s \<and> claim F cube (finalResult s) (finalModel s) \<and>
     (\<forall>res m. report s = Some (res, m) \<longrightarrow> claim F cube res m)"

lemmas running_defs = running_def lists_ok_def cubes_ok_def threads_ok_def covers_def

lemma lit_true_minus: "var \<noteq> 0 \<Longrightarrow> lit_true a (- var) = (\<not> lit_true a var)"
  by (simp add: lit_true_def)

lemma cube_true_append [simp]: "cube_true a (c @ d) = (cube_true a c \<and> cube_true a d)"
  by (simp add: cube_true_def)

lemma cube_true_lit [simp]: "cube_true a [l] = lit_true a l"
  by (simp add: cube_true_def)

lemma active_signal [simp]: "active (dc_signal b s) = active s"
  by (simp add: dc_signal_def active_def)

lemma running_signal [simp]: "running F cube (dc_signal b s) = running F cube s"
  by (auto simp: dc_signal_def running_defs active_def)

lemma start_running: "0 < n \<Longrightarrow> running F cube (dc_start n cube)"
  by (auto simp: dc_start_def worker_solve_def running_defs active_def)

lemma master_running:
  assumes "running F cube s"
  shows "running F cube (dc_master s)"
proof (cases "overs s = [] \<or> workers s = []")
  case True
  then show ?thesis using assms by (auto simp: dc_master_def running_defs active_def)
next
  case False
  then obtain w ws r os where e: "workers s = w # ws" "overs s = r # os" by (metis list.exhaust)
  have l: "distinct ((w # ws) @ workersSplitting s @ (r # os) @ oversSplitting s)"
    using assms by (simp add: running_defs e)
  then have n: "w \<notin> set (workersSplitting s)" "r \<notin> set (oversSplitting s)" by auto
  have pos: "nWorkers s \<noteq> 0" using assms by (simp add: running_defs e)
  have m: "dc_master s = worker_setInterrupt w (s\<lparr>overs := os, workers := ws,
      workersSplitting := workersSplitting s @ [w], oversSplitting := oversSplitting s @ [r]\<rparr>)"
    using assms n pos by (simp add: dc_master_def running_def e addOnceToVectorTail_def)
  have a: "active (dc_master s) = active s" unfolding m by (auto simp: active_def worker_setInterrupt_def e)
  have "lists_ok (dc_master s)" using assms l n unfolding m by (auto simp: running_defs worker_setInterrupt_def e)
  moreover have "threads_ok (dc_master s)"
    using assms a l by (auto simp: running_def threads_ok_def m worker_setInterrupt_def e)
  moreover have "cubes_ok cube (dc_master s)" "covers F cube (dc_master s)"
    using assms a by (simp_all add: running_def cubes_ok_def covers_def m worker_setInterrupt_def)
  ultimately show ?thesis using assms by (simp add: running_def m worker_setInterrupt_def)
qed

lemma begin_running:
  assumes "running F cube s" "\<not> interrupt s w"
  shows "running F cube (worker_begin w s)"
proof -
  have "w \<in> set (workers s)" using assms by (simp add: running_def threads_ok_def)
  then have "worker_cube s w = cubes s w" using assms(1) by (simp add: running_def cubes_ok_def active_def)
  then show ?thesis using assms \<open>w \<in> set (workers s)\<close> by (auto simp: running_defs worker_begin_def active_def)
qed

lemma split_running:
  assumes r: "running F cube s" and w: "w \<in> set (workersSplitting s)" "solving s w = None" and v: "var \<noteq> 0"
  shows "\<exists>s'. dc_split w var s = Some s' \<and> running F cube s'"
proof -
  have l: "lists_ok s" and c: "cubes_ok cube s" and th: "threads_ok s" and cov: "covers F cube s" using r by (simp_all add: running_def)
  obtain ov rest where o: "oversSplitting s = ov # rest" using l w(1) by (cases "oversSplitting s") (auto simp: lists_ok_def)
  have d: "distinct (workers s @ workersSplitting s @ overs s @ ov # rest)" using l o by (simp add: lists_ok_def)
  then have n: "ov \<notin> active s" "w \<noteq> ov" "ov \<notin> set (workers s)" "w \<notin> set (workers s)" using w(1) by (auto simp: active_def)
  define cs where "cs = (cubes s)(w := cubes s w @ [var], ov := cubes s w @ [- var])"
  define t where "t = s\<lparr>oversSplitting := rest, workersSplitting := remove1 w (workersSplitting s), cubes := cs,
    workers := workers s @ [w, ov], nWorkers := nWorkers s + 1\<rparr>"
  define s' where "s' = worker_solve ov (cs ov) (worker_solve w (cs w) t)"
  have e: "dc_split w var s = Some (dc_signal (overs s \<noteq> []) s')"
    using n(2) by (simp add: dc_split_def o s'_def t_def cs_def removeFromVector_def Let_def fun_upd_twist)
  have a: "active s' = insert ov (active s)" using d w(1)
    by (auto simp: active_def s'_def t_def worker_solve_def set_remove1_eq)
  have "lists_ok s'" using d l o w(1) by (auto simp: lists_ok_def s'_def t_def worker_solve_def set_remove1_eq length_remove1)
  moreover have "cubes_ok cube s'"
  proof -
    obtain x where "cubes s w = cube @ x" using c w(1) by (auto simp: cubes_ok_def active_def)
    then show ?thesis using c n w(1) unfolding cubes_ok_def a by (auto simp: s'_def t_def worker_solve_def cs_def active_def)
  qed
  moreover have "threads_ok s'"
  proof -
    have "solving s ov = None" using th n(1) by (cases "solving s ov") (auto simp: threads_ok_def)
    then show ?thesis using th w(2) n unfolding threads_ok_def a by (auto simp: s'_def t_def worker_solve_def cs_def)
  qed
  moreover have "covers F cube s'" unfolding covers_def a
  proof (intro allI impI)
    fix b assume "F b" "cube_true b cube"
    then obtain x where x: "x \<in> active s" "cube_true b (cubes s x)" using cov by (auto simp: covers_def)
    have cu: "cubes s' = cs" by (simp add: s'_def t_def worker_solve_def)
    show "\<exists>x\<in>insert ov (active s). cube_true b (cubes s' x)"
    proof (cases "x = w")
      case True
      have "cs w = cubes s w @ [var]" "cs ov = cubes s w @ [- var]" using n(2) by (simp_all add: cs_def)
      moreover have "w \<in> active s" using x(1) True by simp
      moreover have "cube_true b (cubes s w)" using x(2) True by simp
      ultimately have "cube_true b (cs w) \<or> cube_true b (cs ov)" using lit_true_minus [OF v, of b] by auto
      then show ?thesis using \<open>w \<in> active s\<close> unfolding cu by blast
    next
      case False
      then have "cs x = cubes s x" using x(1) n(1) by (auto simp: cs_def)
      then have "cube_true b (cubes s' x)" using x(2) by (simp only: cu)
      then show ?thesis using x(1) by blast
    qed
  qed
  ultimately have "running F cube s'" using r by (simp add: running_def s'_def t_def worker_solve_def)
  then show ?thesis using e by simp
qed

lemma unsat_running:
  assumes r: "running F cube s" and w: "w \<in> active s" "solving s w = None" and u: "claim F (cubes s w) UNSAT m"
  shows "\<exists>s'. dc_unsat w s = Some s' \<and> running F cube s'"
proof -
  have l: "lists_ok s" and c: "cubes_ok cube s" and th: "threads_ok s" and cov: "covers F cube s" using r by (simp_all add: running_def)
  have d: "distinct (workers s @ workersSplitting s @ overs s @ oversSplitting s)" using l by (simp add: lists_ok_def)
  define fin where "fin t = worker_setInterrupt w (dc_signal (workers t \<noteq> []) t)\<lparr>nWorkers := nWorkers t - 1\<rparr>" for t
  have run: "running F cube (fin t)" if t: "t = s\<lparr>workers := ws, workersSplitting := sp, overs := os, oversSplitting := op\<rparr>"
    "lists_ok (t\<lparr>nWorkers := nWorkers s - 1\<rparr>)" "set ws \<union> set sp = active s - {w}" "set ws = set (workers s) - {w}" for t ws sp os op
  proof -
    have a: "active (fin t) = active s - {w}" using t(1,3) by (simp add: active_def fin_def worker_setInterrupt_def dc_signal_def)
    have "lists_ok (fin t)" using t(1,2) by (simp add: lists_ok_def fin_def worker_setInterrupt_def dc_signal_def)
    moreover have "cubes_ok cube (fin t)" using c unfolding cubes_ok_def a
      by (simp add: fin_def t(1) worker_setInterrupt_def dc_signal_def)
    moreover have "threads_ok (fin t)" using th w(2) t(4) unfolding threads_ok_def a
      by (auto simp: fin_def t(1) worker_setInterrupt_def dc_signal_def)
    moreover have "covers F cube (fin t)" unfolding covers_def a
    proof (intro allI impI)
      fix b assume b: "F b" "cube_true b cube"
      then obtain x where x: "x \<in> active s" "cube_true b (cubes s x)" using cov by (auto simp: covers_def)
      then have "x \<noteq> w" using u b by auto
      then show "\<exists>x\<in>active s - {w}. cube_true b (cubes (fin t) x)" using x
        by (intro bexI [of _ x]) (simp_all add: fin_def t(1) worker_setInterrupt_def dc_signal_def)
    qed
    ultimately show ?thesis using r by (simp add: running_def fin_def t(1) worker_setInterrupt_def dc_signal_def)
  qed
  show ?thesis
  proof (cases "w \<in> set (workersSplitting s)")
    case True
    then obtain ov rest where o: "oversSplitting s = ov # rest" using l by (cases "oversSplitting s") (auto simp: lists_ok_def)
    let ?t = "s\<lparr>workers := workers s, workersSplitting := remove1 w (workersSplitting s), overs := ov # overs s @ [w], oversSplitting := rest\<rparr>"
    have "dc_unsat w s = Some (fin ?t)" using True d o
      by (auto simp: dc_unsat_def Let_def addOnceToVectorHead_def addOnceToVectorTail_def removeFromVector_def fin_def dc_signal_def
          worker_setInterrupt_def)
    moreover have "running F cube (fin ?t)"
      by (rule run [OF refl]) (use True d l o in \<open>auto simp: lists_ok_def active_def set_remove1_eq length_remove1\<close>)
    ultimately show ?thesis by blast
  next
    case False
    then have ww: "w \<in> set (workers s)" using w(1) by (simp add: active_def)
    then have "0 < length (workers s)" by (rule length_pos_if_in_set)
    then have len: "int (length (workers s) - Suc 0) = int (length (workers s)) - 1" by linarith
    let ?t = "s\<lparr>workers := remove1 w (workers s), workersSplitting := workersSplitting s, overs := overs s @ [w], oversSplitting := oversSplitting s\<rparr>"
    have "dc_unsat w s = Some (fin ?t)" using False d ww
      by (auto simp: dc_unsat_def Let_def addOnceToVectorTail_def removeFromVector_def fin_def dc_signal_def worker_setInterrupt_def)
    moreover have "running F cube (fin ?t)"
      by (rule run [OF refl]) (use False d l ww len in \<open>auto simp: lists_ok_def active_def set_remove1_eq length_remove1 of_nat_diff\<close>)
    ultimately show ?thesis by blast
  qed
qed

lemma end_ended:
  assumes "running F cube s" "claim F cube res m"
  shows "ended F cube (dc_end res m s)"
  using assms by (simp add: running_def ended_def dc_end_def)

lemma claim_longer: "claim F (cube @ r) SAT m \<Longrightarrow> claim F cube SAT m"
  by simp

lemma finish_running:
  assumes r: "running F cube s" and sol: "solving s w = Some c" and ans: "answers F (interrupt s w) c res m" and v: "var \<noteq> 0"
  shows "\<exists>s'. worker_finish w res m var s = Some s' \<and> (running F cube s' \<or> ended F cube s')"
proof -
  let ?s = "s\<lparr>solving := (solving s)(w := None)\<rparr>"
  have rs: "running F cube ?s" using r by (auto simp: running_defs active_def)
  have w: "w \<in> active s" "c = cubes s w" "solving ?s w = None" using r sol by (auto simp: running_def threads_ok_def)
  obtain x where x: "cubes s w = cube @ x" using r w(1) by (auto simp: running_def cubes_ok_def)
  have j: "worker_finish w res m var s = dc_join w res m var ?s" using r by (simp add: worker_finish_def worker_join_def running_def)
  have cl: "claim F c res m" using ans by (simp add: answers_def)
  show ?thesis
  proof (cases res)
    case SAT
    have "claim F cube SAT m" using cl SAT w(2) x claim_longer by metis
    then have "ended F cube (dc_end SAT m ?s)" using end_ended [OF rs] by simp
    then show ?thesis using j SAT by (simp add: dc_join_def)
  next
    case UNKNOWN
    then have "interrupt s w" using ans by (simp add: answers_def)
    then have "w \<in> set (workersSplitting s)" using r w(1) by (auto simp: running_def threads_ok_def active_def)
    then show ?thesis using split_running [OF rs _ w(3) v] j UNKNOWN by (auto simp: dc_join_def)
  next
    case UNSAT
    have "claim F (cubes ?s w) UNSAT m" "w \<in> active ?s" using cl UNSAT w by (simp_all add: active_def)
    then obtain s' where s': "dc_unsat w ?s = Some s'" "running F cube s'" using unsat_running [OF rs _ w(3)] by blast
    have "ended F cube (dc_end UNSAT m s')" if "\<not> nWorkers s' > 0"
    proof -
      have "nWorkers s' = int (length (workers s') + length (workersSplitting s'))" using s'(2) by (simp add: running_def lists_ok_def)
      then have "length (workers s') + length (workersSplitting s') = 0" using that by linarith
      then have "active s' = {}" by (simp add: active_def)
      then have "claim F cube UNSAT m" using s'(2) by (auto simp: running_def covers_def)
      then show ?thesis by (rule end_ended [OF s'(2)])
    qed
    then show ?thesis using s' j UNSAT by (simp add: dc_join_def)
  qed
qed

text \<open>Once the strategy has ended, nothing changes what is reported.\<close>

lemma same_verdict:
  assumes "ended F cube s" "strategyEnding s' = strategyEnding s" "report s' = report s" "finalResult s' = finalResult s"
    "finalModel s' = finalModel s"
  shows "ended F cube s'"
  using assms by (simp add: ended_def)

lemma finish_ended:
  assumes e: "ended F cube s" and f: "worker_finish w res m var s = Some s'"
  shows "ended F cube s'"
proof -
  have "strategyEnding s' = strategyEnding s \<and> report s' = report s \<and> finalResult s' = finalResult s \<and> finalModel s' = finalModel s"
    using e f by (auto simp: worker_finish_def worker_join_def dc_join_def dc_split_def dc_unsat_def dc_end_def dc_signal_def
        worker_solve_def worker_setInterrupt_def ended_def Let_def split: SatResult.splits option.splits prod.splits if_splits)
  then show ?thesis using same_verdict [OF e] by blast
qed

lemma step_inv:
  assumes "dc_step F s (Some s')" "running F cube s \<or> ended F cube s"
  shows "running F cube s' \<or> ended F cube s'"
  using assms(1)
proof (cases rule: dc_step.cases)
  case (Begin w)
  then show ?thesis using assms(2) begin_running [of F cube s w] by (auto simp: ended_def worker_begin_def)
next
  case (Finish w c res m var)
  then show ?thesis using assms(2) finish_running [of F cube s w c res m var] finish_ended [of F cube s w res m var s'] by auto
next
  case Publish
  then have "ended F cube s" using assms(2) by (auto simp: running_def)
  then show ?thesis using Publish by (auto simp: ended_def dc_publish_def split: option.splits SatResult.splits elim!: claim.elims)
next
  case Master
  then show ?thesis using assms(2) master_running [of F cube s] by (auto simp: ended_def dc_master_def)
qed

lemma reach_inv:
  "dc_reach F s0 s \<Longrightarrow> running F cube s0 \<Longrightarrow> running F cube s \<or> ended F cube s"
proof (induction rule: dc_reach.induct)
  case (Step s s')
  then show ?case using step_inv [of F s s' cube] by blast
qed blast

section \<open>The properties\<close>


text \<open>A run with two workers: the first is split at variable 1, then refutes its half; the second has a model.\<close>

definition ex_formula :: "(nat \<Rightarrow> bool) \<Rightarrow> bool" where
  "ex_formula a = (\<not> a 1 \<and> a 2)"

definition ex_split :: Dnc where
  "ex_split = the (worker_finish 0 UNKNOWN [] 1 (dc_master (worker_begin 0 (dc_start 2 []))))"

definition ex_both :: Dnc where
  "ex_both = worker_begin 1 (worker_begin 0 ex_split)"

lemmas ex_defs = worker_finish_def worker_join_def dc_join_def dc_split_def dc_unsat_def dc_end_def dc_publish_def dc_signal_def
  dc_master_def dc_start_def worker_solve_def worker_setInterrupt_def worker_begin_def addOnceToVectorTail_def
  addOnceToVectorHead_def removeFromVector_def

lemma ex_split_simps:
  "worker_finish 0 UNKNOWN [] 1 (dc_master (worker_begin 0 (dc_start 2 []))) = Some ex_split"
  "workers ex_split = [0, 1]" "workersSplitting ex_split = []" "overs ex_split = []" "oversSplitting ex_split = []"
  "worker_cube ex_split 0 = [1]" "worker_cube ex_split 1 = [-1]" "interrupt ex_split 0 = False" "interrupt ex_split 1 = False"
  "solving ex_split w = None" "nWorkers ex_split = 2" "strategyEnding ex_split = False" "globalEnding ex_split = False"
  "report ex_split = None" "finalResult ex_split = UNKNOWN" "finalModel ex_split = []" "master ex_split = Running"
  by (simp_all add: ex_split_def ex_defs Let_def numeral_2_eq_2)

lemma ex_split_reach: "dc_reach F (dc_start 2 []) ex_split"
proof -
  let ?s = "dc_start 2 []"
  have 1: "dc_reach F ?s (worker_begin 0 ?s)"
    by (rule dc_reach.Step [OF dc_reach.Start], rule dc_step.Begin) (simp_all add: ex_defs)
  have 2: "dc_reach F ?s (dc_master (worker_begin 0 ?s))"
    by (rule dc_reach.Step [OF 1], rule dc_step.Master) (simp add: ex_defs)
  show ?thesis
    by (rule dc_reach.Step [OF 2], subst ex_split_simps(1) [symmetric], rule dc_step.Finish [where c = "[]"])
      (simp_all add: ex_defs answers_def numeral_2_eq_2)
qed

lemma ex_both_reach: "dc_reach F (dc_start 2 []) ex_both"
proof -
  have "dc_reach F (dc_start 2 []) (worker_begin 0 ex_split)"
    by (rule dc_reach.Step [OF ex_split_reach], rule dc_step.Begin) (simp_all add: ex_split_simps)
  then show ?thesis unfolding ex_both_def
    by (rule dc_reach.Step, intro dc_step.Begin) (simp_all add: ex_split_simps worker_begin_def del: One_nat_def)
qed


text \<open>
  the strategy can fail while it ends.  Between the interruption of the slaves and the
  publication of the result, a worker that was not to be split returns unknown, and join takes the
  head of an empty vector, an uninitialised pointer.
\<close>

theorem dc_end_race:
  "\<exists>s. dc_reach (\<lambda>_. True) (dc_start 2 []) s \<and> dc_step (\<lambda>_. True) s None"
proof -
  define s where "s = the (worker_finish 0 SAT [1] 1 ex_both)"
  have f: "worker_finish 0 SAT [1] 1 ex_both = Some s" "solving s 1 = Some [-1]" "interrupt s 1" "oversSplitting s = []" "globalEnding s = False"
    by (simp_all add: s_def ex_both_def ex_defs Let_def ex_split_simps del: One_nat_def)
  have "answers (\<lambda>_. True) (interrupt ex_both 0) [1] SAT [1]" by (simp add: answers_def cube_true_def lit_true_def assignment_def)
  moreover have "solving ex_both 0 = Some [1]" by (simp add: ex_both_def worker_begin_def ex_split_simps)
  ultimately have "dc_reach (\<lambda>_. True) (dc_start 2 []) s"
    using dc_reach.Step [OF ex_both_reach] dc_step.Finish [of ex_both 0 "[1]" "\<lambda>_. True" SAT "[1]" 1] f(1) by simp
  moreover have "worker_finish 1 UNKNOWN [] 1 s = None"
    by (simp add: worker_finish_def worker_join_def dc_join_def dc_split_def f)
  then have "dc_step (\<lambda>_. True) s None"
    using dc_step.Finish [OF f(2), of "\<lambda>_. True" UNKNOWN "[]" 1] f(3) by (simp add: answers_def)
  ultimately show ?thesis by blast
qed

text \<open>Nothing wakes the master up once the result is published.\<close>

lemma waits_forever:
  assumes "dc_reach F s0 s" "globalEnding s0" "master s0 = Waiting"
  shows "globalEnding s \<and> master s = Waiting"
  using assms
proof (induction rule: dc_reach.induct)
  case (Step s s')
  then have i: "globalEnding s" "master s = Waiting" by simp_all
  show ?case using Step(2)
  proof (cases rule: dc_step.cases)
    case (Finish w c res m var)
    then show ?thesis using i by (auto simp: worker_finish_def worker_join_def)
  next
    case Publish
    then show ?thesis using i by (auto simp: dc_publish_def split: option.splits)
  qed (use i in \<open>auto simp: worker_begin_def\<close>)
qed simp

text \<open>
  C22: the program can hang after it has found the result.  When all slaves are busy the master
  waits for one that is over; the end of the strategy does not signal it, so that it waits for
  ever, and with it the destructor, which joins it before the result is printed.
\<close>

theorem dc_master_hangs:
  "\<exists>s. dc_reach (\<lambda>_. True) (dc_start 2 []) s \<and> finalResult s = SAT \<and>
    {s'. dc_reach (\<lambda>_. True) s s'} \<subseteq> {s'. master s' = Waiting}"
proof -
  define s where "s = the (worker_finish 0 SAT [1] 1 (dc_master ex_both))"
  have m: "dc_master ex_both = ex_both\<lparr>master := Waiting\<rparr>"
    by (simp add: dc_master_def ex_both_def worker_begin_def ex_split_simps)
  have f: "worker_finish 0 SAT [1] 1 (dc_master ex_both) = Some s" "report s = Some (SAT, [1])" "master s = Waiting"
    unfolding m by (simp_all add: s_def m ex_both_def ex_defs Let_def ex_split_simps)
  have 1: "dc_reach (\<lambda>_. True) (dc_start 2 []) (dc_master ex_both)"
    by (rule dc_reach.Step [OF ex_both_reach], rule dc_step.Master) (simp add: ex_both_def worker_begin_def ex_split_simps)
  have "answers (\<lambda>_. True) b [1] SAT [1]" for b by (simp add: answers_def cube_true_def lit_true_def assignment_def)
  moreover have "solving (dc_master ex_both) 0 = Some [1]" by (simp add: m) (simp add: ex_both_def worker_begin_def ex_split_simps)
  ultimately have 2: "dc_reach (\<lambda>_. True) (dc_start 2 []) s"
    using dc_reach.Step [OF 1] dc_step.Finish [of "dc_master ex_both" 0 "[1]" "\<lambda>_. True" SAT "[1]" 1] f(1) by simp
  have 3: "dc_reach (\<lambda>_. True) (dc_start 2 []) (dc_publish s)"
    by (rule dc_reach.Step [OF 2], rule dc_step.Publish) (simp add: f)
  have p: "globalEnding (dc_publish s)" "master (dc_publish s) = Waiting" "finalResult (dc_publish s) = SAT"
    by (simp_all add: dc_publish_def f)
  have "{s'. dc_reach (\<lambda>_. True) (dc_publish s) s'} \<subseteq> {s'. master s' = Waiting}" using waits_forever [OF _ p(1,2)] by blast
  then show ?thesis using 3 p(3) by blast
qed

end
