(* ===== verification/Pl_Cube.thy ===== *)
theory Pl_Cube
  imports Pl_Divide "HOL-Library.Multiset"
begin

text \<open>
  The cube and conquer strategy of painless, src/painless-v2/painless-src/working/CubeAndConquer.cpp,
  at the top.  A round of the master interrupts the workers and, once all of them have returned,
  deletes those that are over one by one, splits the first ones and starts them.  The sleep
  between the rounds is left out: a round may begin any time.  A round in which a report starts a
  worker again after the master has stopped it is not modelled.

  The destructor of a worker clears globalEnding and joins its thread, so that deleting takes two
  steps, and the second one waits for the thread to exit.  Condition variables wake up only when
  they are signalled.

  Worker 0 is the slave that works on the whole formula; the others are numbered as they are
  created.  The clauses that are added to the solver of a worker are unit clauses, so they are
  its cube.
\<close>

section \<open>The state\<close>

text \<open>The master: between two rounds, stopping the workers, deleting, and joining the thread of a worker.\<close>

datatype cc_master = Sleeping | Stopping | Erasing "nat list" | Joining nat "nat list"

record Cnc =
  cc_workers :: "nat list"
  over :: "nat list"
  cc_master :: cc_master
  created :: nat
  added :: "nat \<Rightarrow> int list"
  cc_interrupt :: "nat \<Rightarrow> bool"
  cc_solving :: "nat \<Rightarrow> bool"
  cc_waiting :: "nat \<Rightarrow> bool"
  cc_exited :: "nat \<Rightarrow> bool"
  nJobs :: int
  next_worker :: nat
  cc_ending :: bool
  cc_global :: bool
  cc_result :: SatResult
  cc_model :: "int list"

section \<open>The operations\<close>

definition cc_launch :: "nat \<Rightarrow> Cnc \<Rightarrow> Cnc" where
  "cc_launch w s = s\<lparr>cc_interrupt := (cc_interrupt s)(w := False), cc_waiting := (cc_waiting s)(w := False)\<rparr>"

text \<open>The first round: the root and one clone of it work on the whole formula.\<close>

definition cc_start :: Cnc where
  "cc_start =
     cc_launch 1 (cc_launch 0
       \<lparr>cc_workers = [1], over = [], cc_master = Sleeping, created = 2, added = (\<lambda>_. []), cc_interrupt = (\<lambda>_. True),
        cc_solving = (\<lambda>_. False), cc_waiting = (\<lambda>_. False), cc_exited = (\<lambda>_. False), nJobs = 1, next_worker = 0,
        cc_ending = False, cc_global = False, cc_result = UNKNOWN, cc_model = []\<rparr>)"

definition cc_setInterrupt :: "Cnc \<Rightarrow> Cnc" where
  "cc_setInterrupt s = s\<lparr>cc_interrupt := (\<lambda>_. True)\<rparr>"

definition cc_join :: "nat \<Rightarrow> SatResult \<Rightarrow> int list \<Rightarrow> Cnc \<Rightarrow> Cnc" where
  "cc_join w res m s =
     (if res = UNKNOWN \<or> cc_ending s then s
      else
        let s = (if res = UNSAT \<and> w \<noteq> 0 then s\<lparr>nJobs := nJobs s - 1\<rparr> else s)
        in if res = UNSAT \<and> w \<noteq> 0 \<and> nJobs s > 0
           then
             let s = s\<lparr>over := over s @ [w]\<rparr>
             in if next_worker s < length (cc_workers s)
                then (cc_launch (cc_workers s ! next_worker s) s)\<lparr>next_worker := next_worker s + 1\<rparr>
                else s
           else (cc_setInterrupt s)\<lparr>cc_ending := True, cc_global := True, cc_result := res, cc_model := (if res = SAT then m else cc_model s)\<rparr>)"

text \<open>A round, from the interruption of the workers on.\<close>

definition cc_stop_workers :: "Cnc \<Rightarrow> Cnc" where
  "cc_stop_workers s = s\<lparr>cc_interrupt := (\<lambda>w. w \<in> set (cc_workers s) \<or> cc_interrupt s w), cc_master := Stopping\<rparr>"

definition cc_erase :: "nat \<Rightarrow> nat list \<Rightarrow> Cnc \<Rightarrow> Cnc" where
  "cc_erase w ws s =
     s\<lparr>cc_workers := removeAll w (cc_workers s), cc_global := False, cc_interrupt := (cc_interrupt s)(w := True),
       cc_master := Joining w ws\<rparr>"

text \<open>The division variable of a worker is var of it.\<close>

definition cc_divide :: "(nat \<Rightarrow> int) \<Rightarrow> nat \<Rightarrow> Cnc \<Rightarrow> Cnc" where
  "cc_divide var w s =
     (let clone = created s; ad = added s; ad = ad(clone := ad w); ad = ad(w := ad w @ [var w]); ad = ad(clone := ad clone @ [- var w])
      in s\<lparr>created := created s + 1, added := ad, cc_workers := cc_workers s @ [clone], nJobs := nJobs s + 1\<rparr>)"

definition cc_round :: "nat \<Rightarrow> (nat \<Rightarrow> int) \<Rightarrow> (nat list \<Rightarrow> nat list) \<Rightarrow> Cnc \<Rightarrow> Cnc" where
  "cc_round maxCpus var sort_workers s =
     (let s = s\<lparr>over := [], cc_master := Sleeping\<rparr>;
          targets = take (maxCpus - 1) (cc_workers s);
          s = fold (cc_divide var) targets s;
          s = (if length (cc_workers s) * 2 > 8 * maxCpus then s\<lparr>cc_workers := sort_workers (cc_workers s)\<rparr> else s);
          actualWorkers = min (maxCpus - 1) (length (cc_workers s))
      in (fold cc_launch (take actualWorkers (cc_workers s)) s)\<lparr>next_worker := actualWorkers\<rparr>)"

text \<open>The loop of a worker.\<close>

definition cc_begin :: "nat \<Rightarrow> Cnc \<Rightarrow> Cnc" where
  "cc_begin w s = s\<lparr>cc_solving := (cc_solving s)(w := True)\<rparr>"

definition cc_finish :: "nat \<Rightarrow> SatResult \<Rightarrow> int list \<Rightarrow> Cnc \<Rightarrow> Cnc" where
  "cc_finish w res m s =
     (let s = s\<lparr>cc_solving := (cc_solving s)(w := False)\<rparr>
      in if cc_global s then s else cc_join w res m s)"

text \<open>At the head of its loop and not blocked.\<close>

definition cc_ready :: "nat \<Rightarrow> Cnc \<Rightarrow> bool" where
  "cc_ready w s \<longleftrightarrow> \<not> cc_solving s w \<and> \<not> cc_waiting s w \<and> \<not> cc_exited s w"

section \<open>The runs\<close>

text \<open>
  once restricts the runs to those in which a worker that is over does not report again before it
  is deleted; nothing in the code sees to that.
\<close>

inductive cc_step :: "bool \<Rightarrow> nat \<Rightarrow> ((nat \<Rightarrow> bool) \<Rightarrow> bool) \<Rightarrow> Cnc \<Rightarrow> Cnc \<Rightarrow> bool" for once maxCpus F where
  Begin: "cc_ready w s \<Longrightarrow> \<not> cc_global s \<Longrightarrow> \<not> cc_interrupt s w \<Longrightarrow> cc_step once maxCpus F s (cc_begin w s)"
| Wait: "cc_ready w s \<Longrightarrow> \<not> cc_global s \<Longrightarrow> cc_interrupt s w \<Longrightarrow>
    cc_step once maxCpus F s (s\<lparr>cc_waiting := (cc_waiting s)(w := True)\<rparr>)"
| Exit: "cc_ready w s \<Longrightarrow> cc_global s \<Longrightarrow> cc_step once maxCpus F s (s\<lparr>cc_exited := (cc_exited s)(w := True)\<rparr>)"
| Finish: "cc_solving s w \<Longrightarrow> answers F (cc_interrupt s w) (added s w) res m \<Longrightarrow> (once \<longrightarrow> w \<notin> set (over s)) \<Longrightarrow>
    cc_step once maxCpus F s (cc_finish w res m s)"
| Stop: "cc_master s = Sleeping \<Longrightarrow> \<not> cc_ending s \<Longrightarrow> cc_step once maxCpus F s (cc_stop_workers s)"
| Stopped: "cc_master s = Stopping \<Longrightarrow> \<forall>w\<in>set (cc_workers s). cc_interrupt s w \<and> \<not> cc_solving s w \<Longrightarrow>
    cc_step once maxCpus F s (s\<lparr>cc_master := Erasing (over s)\<rparr>)"
| Erase: "cc_master s = Erasing (w # ws) \<Longrightarrow> cc_step once maxCpus F s (cc_erase w ws s)"
| Joined: "cc_master s = Joining w ws \<Longrightarrow> cc_exited s w \<Longrightarrow> cc_step once maxCpus F s (s\<lparr>cc_master := Erasing ws\<rparr>)"
| Round: "cc_master s = Erasing [] \<Longrightarrow> \<forall>w. var w \<noteq> 0 \<Longrightarrow> \<forall>ws. mset (sort_workers ws) = mset ws \<Longrightarrow>
    cc_step once maxCpus F s (cc_round maxCpus var sort_workers s)"

inductive cc_reach :: "bool \<Rightarrow> nat \<Rightarrow> ((nat \<Rightarrow> bool) \<Rightarrow> bool) \<Rightarrow> Cnc \<Rightarrow> bool" for once maxCpus F where
  Start: "cc_reach once maxCpus F cc_start"
| Step: "cc_reach once maxCpus F s \<Longrightarrow> cc_step once maxCpus F s s' \<Longrightarrow> cc_reach once maxCpus F s'"

section \<open>The invariant\<close>

definition cc_covers :: "((nat \<Rightarrow> bool) \<Rightarrow> bool) \<Rightarrow> Cnc \<Rightarrow> bool" where
  "cc_covers F s \<longleftrightarrow> (\<forall>a. F a \<longrightarrow> (\<exists>w\<in>set (cc_workers s) - set (over s). cube_true a (added s w)))"

definition cc_lists_ok :: "Cnc \<Rightarrow> bool" where
  "cc_lists_ok s \<longleftrightarrow> distinct (cc_workers s) \<and> distinct (over s) \<and> set (over s) \<subseteq> set (cc_workers s) \<and>
     nJobs s = int (length (cc_workers s)) - int (length (over s)) \<and>
     (\<forall>w\<in>set (cc_workers s). 0 < w \<and> w < created s) \<and>
     0 < created s \<and> added s 0 = []"

definition cc_threads_ok :: "Cnc \<Rightarrow> bool" where
  "cc_threads_ok s \<longleftrightarrow> (\<forall>w. cc_solving s w \<or> \<not> cc_interrupt s w \<longrightarrow> w = 0 \<or> w \<in> set (cc_workers s))"

definition cc_running :: "((nat \<Rightarrow> bool) \<Rightarrow> bool) \<Rightarrow> Cnc \<Rightarrow> bool" where
  "cc_running F s \<longleftrightarrow> cc_lists_ok s \<and> cc_threads_ok s \<and> cc_covers F s \<and> \<not> cc_ending s \<and> cc_result s = UNKNOWN"

definition cc_ended :: "((nat \<Rightarrow> bool) \<Rightarrow> bool) \<Rightarrow> Cnc \<Rightarrow> bool" where
  "cc_ended F s \<longleftrightarrow> cc_ending s \<and> claim F [] (cc_result s) (cc_model s)"

lemmas cc_defs = cc_running_def cc_lists_ok_def cc_threads_ok_def cc_covers_def

lemma cc_start_running: "cc_running F cc_start"
  by (auto simp: cc_defs cc_start_def cc_launch_def cube_true_def)

lemma cc_launch_running: "cc_running F s \<Longrightarrow> w \<in> set (cc_workers s) \<Longrightarrow> cc_running F (cc_launch w s)"
  by (auto simp: cc_defs cc_launch_def)

lemma cc_launches_running:
  "cc_running F s \<Longrightarrow> set ws \<subseteq> set (cc_workers s) \<Longrightarrow>
     cc_running F (fold cc_launch ws s) \<and> cc_workers (fold cc_launch ws s) = cc_workers s"
proof (induction ws arbitrary: s)
  case (Cons w ws)
  have "cc_running F (cc_launch w s)" by (rule cc_launch_running) (use Cons.prems in simp_all)
  moreover have "cc_workers (cc_launch w s) = cc_workers s" by (simp add: cc_launch_def)
  ultimately show ?case using Cons.IH [of "cc_launch w s"] Cons.prems(2) by simp
qed simp

lemma cc_finish_running:
  assumes r: "cc_running F s" and sol: "cc_solving s w" and ans: "answers F b (added s w) res m" and o: "w \<notin> set (over s)" and g: "\<not> cc_global s"
  shows "cc_running F (cc_finish w res m s) \<or> cc_ended F (cc_finish w res m s)"
proof -
  let ?s = "s\<lparr>cc_solving := (cc_solving s)(w := False)\<rparr>"
  have rs: "cc_running F ?s" using r by (auto simp: cc_defs)
  have w: "w = 0 \<or> w \<in> set (cc_workers s)" using r sol by (simp add: cc_running_def cc_threads_ok_def)
  have cl: "claim F (added s w) res m" using ans by (simp add: answers_def)
  have l: "cc_lists_ok s" and cov: "cc_covers F s" and e: "\<not> cc_ending s" using r by (simp_all add: cc_running_def)
  have stop: "cc_ended F ((cc_setInterrupt t)\<lparr>cc_ending := True, cc_global := True, cc_result := res, cc_model := (if res = SAT then m else x)\<rparr>)"
    if "claim F [] res m" for t x
    using that by (cases res) (auto simp: cc_ended_def)
  show ?thesis
  proof (cases "res = UNSAT \<and> w \<noteq> 0")
    case False
    have "claim F [] res m" if "res \<noteq> UNKNOWN"
      using cl False that l by (cases res) (auto simp: cc_lists_ok_def cube_true_def)
    then show ?thesis using False rs stop e by (auto simp: cc_finish_def cc_join_def Let_def g)
  next
    case True
    then have ww: "w \<in> set (cc_workers s)" using w by simp
    have ref: "\<not> cube_true a (added s w)" if "F a" for a using cl True that by simp
    have cov': "\<exists>x\<in>set (cc_workers s) - set (over s @ [w]). cube_true a (added s x)" if a: "F a" for a
    proof -
      obtain x where "x \<in> set (cc_workers s) - set (over s)" "cube_true a (added s x)" using cov a by (auto simp: cc_covers_def)
      then show ?thesis using ref [OF a] by auto
    qed
    show ?thesis
    proof (cases "nJobs s - 1 > 0")
      case job: True
      let ?t = "?s\<lparr>nJobs := nJobs s - 1, over := over s @ [w]\<rparr>"
      have t: "cc_running F ?t"
        using rs l o ww cov' by (simp add: cc_running_def cc_lists_ok_def cc_threads_ok_def cc_covers_def)
      have n: "cc_running F ((cc_launch (cc_workers s ! next_worker s) ?t)\<lparr>next_worker := next_worker s + 1\<rparr>)"
        if "next_worker s < length (cc_workers s)"
      proof -
        have "cc_running F (cc_launch (cc_workers s ! next_worker s) ?t)" by (rule cc_launch_running [OF t]) (simp add: that)
        then show ?thesis by (simp add: cc_defs)
      qed
      show ?thesis using t n True e job by (simp add: cc_finish_def cc_join_def Let_def g)
    next
      case False
      have "card (set (cc_workers s) - set (over s)) = length (cc_workers s) - length (over s)"
        using l by (simp add: cc_lists_ok_def card_Diff_subset distinct_card)
      moreover have "nJobs s = int (length (cc_workers s)) - int (length (over s))" using l by (simp add: cc_lists_ok_def)
      ultimately have "card (set (cc_workers s) - set (over s)) \<le> 1" using False by linarith
      moreover have "w \<in> set (cc_workers s) - set (over s)" using ww o by simp
      ultimately have "set (cc_workers s) - set (over s) \<subseteq> {w}"
        using card_le_Suc0_iff_eq [of "set (cc_workers s) - set (over s)"] by auto
      then have "\<not> F a" for a using cov' [of a] by auto
      then have "claim F [] res m" using True by simp
      then show ?thesis using False True e stop by (simp add: cc_finish_def cc_join_def Let_def g)
    qed
  qed
qed

lemma cc_divide_running:
  assumes r: "cc_running F s" and w: "w \<in> set (cc_workers s)" and o: "over s = []" and v: "var w \<noteq> 0"
  shows "cc_running F (cc_divide var w s) \<and> over (cc_divide var w s) = [] \<and> set (cc_workers s) \<subseteq> set (cc_workers (cc_divide var w s))"
proof -
  have l: "cc_lists_ok s" and th: "cc_threads_ok s" and cov: "cc_covers F s" using r by (simp_all add: cc_running_def)
  let ?c = "created s"
  have c: "?c \<notin> set (cc_workers s)" "?c \<noteq> w" "0 < w" using l w by (auto simp: cc_lists_ok_def)
  define ad where "ad = (added s)(w := added s w @ [var w], ?c := added s w @ [- var w])"
  have d: "cc_divide var w s = s\<lparr>created := ?c + 1, added := ad, cc_workers := cc_workers s @ [?c], nJobs := nJobs s + 1\<rparr>"
    using c(2) by (simp add: cc_divide_def ad_def Let_def fun_upd_twist)
  have "cc_lists_ok (cc_divide var w s)" using l c o unfolding d by (auto simp: cc_lists_ok_def ad_def)
  moreover have "cc_threads_ok (cc_divide var w s)" using th unfolding d by (auto simp: cc_threads_ok_def)
  moreover have "cc_covers F (cc_divide var w s)" unfolding cc_covers_def
  proof (intro allI impI)
    fix a assume "F a"
    then obtain x where x: "x \<in> set (cc_workers s)" "cube_true a (added s x)" using cov by (auto simp: cc_covers_def)
    have "cube_true a (ad x) \<or> x = w \<and> cube_true a (ad ?c)"
      using x c lit_true_minus [OF v, of a] by (auto simp: ad_def)
    then show "\<exists>x\<in>set (cc_workers (cc_divide var w s)) - set (over (cc_divide var w s)). cube_true a (added (cc_divide var w s) x)"
      using x(1) o unfolding d by auto
  qed
  ultimately show ?thesis using r o by (simp add: cc_running_def) (auto simp: d)
qed

lemma cc_divides_running:
  "cc_running F s \<Longrightarrow> set ws \<subseteq> set (cc_workers s) \<Longrightarrow> over s = [] \<Longrightarrow> \<forall>w. var w \<noteq> 0 \<Longrightarrow>
     cc_running F (fold (cc_divide var) ws s) \<and> over (fold (cc_divide var) ws s) = []"
proof (induction ws arbitrary: s)
  case (Cons w ws)
  have w: "w \<in> set (cc_workers s)" "var w \<noteq> 0" using Cons.prems(2,4) by auto
  note d = cc_divide_running [where var = var, OF Cons.prems(1) w(1) Cons.prems(3) w(2)]
  show ?case using Cons.IH [of "cc_divide var w s"] d Cons.prems(2,4) by auto
qed simp

lemma cc_round_running:
  assumes r: "cc_running F s" and o: "over s = []" and v: "\<forall>w. var w \<noteq> 0" and p: "\<forall>ws. mset (sort_workers ws) = mset ws"
  shows "cc_running F (cc_round maxCpus var sort_workers s)"
proof -
  let ?s = "s\<lparr>over := [], cc_master := Sleeping\<rparr>"
  have s1: "cc_running F ?s" using r o by (auto simp: cc_defs)
  define s2 where "s2 = fold (cc_divide var) (take (maxCpus - 1) (cc_workers s)) ?s"
  have s2: "cc_running F s2" "over s2 = []" unfolding s2_def
    using cc_divides_running [OF s1, of "take (maxCpus - 1) (cc_workers s)" var] v by (auto dest: in_set_takeD)
  define s3 where "s3 = (if length (cc_workers s2) * 2 > 8 * maxCpus then s2\<lparr>cc_workers := sort_workers (cc_workers s2)\<rparr> else s2)"
  have "set (sort_workers ws) = set ws" "length (sort_workers ws) = length ws" "distinct (sort_workers ws) = distinct ws" for ws
    using p by (metis mset_eq_setD, metis mset_eq_length, metis mset_eq_imp_distinct_iff)
  then have s3: "cc_running F s3" using s2 by (auto simp: s3_def cc_defs)
  let ?n = "min (maxCpus - 1) (length (cc_workers s3))"
  have "cc_running F (fold cc_launch (take ?n (cc_workers s3)) s3)"
    using cc_launches_running [OF s3, of "take ?n (cc_workers s3)"] set_take_subset by metis
  then have "cc_running F ((fold cc_launch (take ?n (cc_workers s3)) s3)\<lparr>next_worker := ?n\<rparr>)" by (simp add: cc_defs)
  moreover have "cc_round maxCpus var sort_workers s = (fold cc_launch (take ?n (cc_workers s3)) s3)\<lparr>next_worker := ?n\<rparr>"
    by (simp add: cc_round_def Let_def s2_def s3_def)
  ultimately show ?thesis by simp
qed

text \<open>
  The threads until the search has ended: no thread exits, and while the master deletes, no worker
  but the root works.
\<close>

definition cc_stopped :: "Cnc \<Rightarrow> bool" where
  "cc_stopped s \<longleftrightarrow> (\<forall>w. w \<noteq> 0 \<longrightarrow> cc_interrupt s w \<and> \<not> cc_solving s w)"

definition cc_quiet :: "Cnc \<Rightarrow> bool" where
  "cc_quiet s \<longleftrightarrow> cc_threads_ok s \<and> \<not> cc_global s \<and> (\<forall>w. \<not> cc_exited s w) \<and>
     (cc_master s \<noteq> Sleeping \<longrightarrow> cc_master s \<noteq> Stopping \<longrightarrow> cc_stopped s)"

lemma cc_launch_simps [simp]:
  "cc_workers (cc_launch w s) = cc_workers s" "cc_global (cc_launch w s) = cc_global s"
  "cc_exited (cc_launch w s) = cc_exited s" "cc_master (cc_launch w s) = cc_master s" "cc_ending (cc_launch w s) = cc_ending s"
  "cc_result (cc_launch w s) = cc_result s" "cc_model (cc_launch w s) = cc_model s"
  by (simp_all add: cc_launch_def)

lemma cc_launches_frame:
  "cc_workers (fold cc_launch ws s) = cc_workers s \<and> cc_global (fold cc_launch ws s) = cc_global s \<and>
   cc_exited (fold cc_launch ws s) = cc_exited s \<and> cc_master (fold cc_launch ws s) = cc_master s \<and>
   cc_ending (fold cc_launch ws s) = cc_ending s \<and> cc_result (fold cc_launch ws s) = cc_result s \<and> cc_model (fold cc_launch ws s) = cc_model s"
  by (induction ws arbitrary: s) simp_all

lemma cc_launches_threads:
  "cc_threads_ok s \<Longrightarrow> set ws \<subseteq> set (cc_workers s) \<Longrightarrow> cc_threads_ok (fold cc_launch ws s)"
proof (induction ws arbitrary: s)
  case (Cons w ws)
  have "cc_threads_ok (cc_launch w s)" using Cons.prems by (auto simp: cc_threads_ok_def cc_launch_def)
  then show ?case using Cons.IH [of "cc_launch w s"] Cons.prems(2) by simp
qed simp

lemma cc_divides_frame:
  "cc_global (fold (cc_divide var) ws s) = cc_global s \<and> cc_exited (fold (cc_divide var) ws s) = cc_exited s \<and>
   cc_master (fold (cc_divide var) ws s) = cc_master s \<and> cc_ending (fold (cc_divide var) ws s) = cc_ending s \<and>
   cc_result (fold (cc_divide var) ws s) = cc_result s \<and> cc_model (fold (cc_divide var) ws s) = cc_model s \<and>
   (cc_threads_ok s \<longrightarrow> cc_threads_ok (fold (cc_divide var) ws s))"
proof (induction ws arbitrary: s)
  case (Cons w ws)
  have "cc_threads_ok s \<longrightarrow> cc_threads_ok (cc_divide var w s)" by (auto simp: cc_threads_ok_def cc_divide_def Let_def)
  then show ?case using Cons.IH [of "cc_divide var w s"] by (simp add: cc_divide_def Let_def)
qed simp

lemma cc_round_frame:
  assumes p: "\<forall>ws. mset (sort_workers ws) = mset ws"
  shows "cc_global (cc_round c var sort_workers s) = cc_global s" "cc_exited (cc_round c var sort_workers s) = cc_exited s"
    "cc_master (cc_round c var sort_workers s) = Sleeping" "cc_ending (cc_round c var sort_workers s) = cc_ending s"
    "cc_result (cc_round c var sort_workers s) = cc_result s" "cc_model (cc_round c var sort_workers s) = cc_model s"
    "cc_threads_ok s \<Longrightarrow> cc_threads_ok (cc_round c var sort_workers s)"
proof -
  let ?s = "s\<lparr>over := [], cc_master := Sleeping\<rparr>"
  define s2 where "s2 = fold (cc_divide var) (take (c - 1) (cc_workers s)) ?s"
  define s3 where "s3 = (if length (cc_workers s2) * 2 > 8 * c then s2\<lparr>cc_workers := sort_workers (cc_workers s2)\<rparr> else s2)"
  define ws where "ws = take (min (c - 1) (length (cc_workers s3))) (cc_workers s3)"
  define n where "n = min (c - 1) (length (cc_workers s3))"
  have e: "cc_round c var sort_workers s = (fold cc_launch ws s3)\<lparr>next_worker := n\<rparr>"
    by (simp add: cc_round_def Let_def s2_def s3_def ws_def n_def)
  note f = cc_launches_frame [of ws s3] cc_divides_frame [of var "take (c - 1) (cc_workers s)" ?s, folded s2_def]
  show "cc_global (cc_round c var sort_workers s) = cc_global s" "cc_exited (cc_round c var sort_workers s) = cc_exited s"
    "cc_master (cc_round c var sort_workers s) = Sleeping" "cc_ending (cc_round c var sort_workers s) = cc_ending s"
    "cc_result (cc_round c var sort_workers s) = cc_result s" "cc_model (cc_round c var sort_workers s) = cc_model s"
    unfolding e using f by (simp_all add: s3_def split: if_splits)
  assume "cc_threads_ok s"
  then have t2: "cc_threads_ok s2" using f(2) by (simp add: cc_threads_ok_def)
  have "set (sort_workers ws) = set ws" for ws using p by (metis mset_eq_setD)
  then have "cc_threads_ok s3" using t2 by (simp add: s3_def cc_threads_ok_def)
  then have "cc_threads_ok (fold cc_launch ws s3)" by (rule cc_launches_threads) (simp add: ws_def set_take_subset)
  then show "cc_threads_ok (cc_round c var sort_workers s)" unfolding e by (simp add: cc_threads_ok_def)
qed

lemma cc_finish_quiet:
  assumes q: "cc_quiet s" and sol: "cc_solving s w"
  shows "cc_ending (cc_finish w res m s) \<or> cc_quiet (cc_finish w res m s)"
proof -
  let ?s = "s\<lparr>cc_solving := (cc_solving s)(w := False)\<rparr>"
  have s: "cc_quiet ?s" using q by (auto simp: cc_quiet_def cc_threads_ok_def cc_stopped_def)
  show ?thesis
  proof (cases "res = UNSAT \<and> w \<noteq> 0 \<and> nJobs s - 1 > 0 \<and> \<not> cc_ending s")
    case False
    then show ?thesis using s by (cases "cc_global s") (auto simp: cc_finish_def cc_join_def Let_def cc_quiet_def cc_threads_ok_def cc_stopped_def)
  next
    case True
    have m: "cc_master s = Sleeping \<or> cc_master s = Stopping" using q sol True by (auto simp: cc_quiet_def cc_stopped_def)
    let ?t = "?s\<lparr>nJobs := nJobs s - 1, over := over s @ [w]\<rparr>"
    have t: "cc_threads_ok ?t" using s by (simp add: cc_quiet_def cc_threads_ok_def)
    have n: "cc_threads_ok (cc_launch (cc_workers s ! next_worker s) ?t)" if n: "next_worker s < length (cc_workers s)"
      using cc_launches_threads [OF t, of "[cc_workers s ! next_worker s]"] n by simp
    have g: "\<not> cc_global s" "\<forall>v. \<not> cc_exited s v" using q by (simp_all add: cc_quiet_def)
    show ?thesis
    proof (cases "next_worker s < length (cc_workers s)")
      case nx: True
      have "cc_finish w res m s = (cc_launch (cc_workers s ! next_worker s) ?t)\<lparr>next_worker := next_worker s + 1\<rparr>"
        using True g nx by (simp add: cc_finish_def cc_join_def Let_def)
      then show ?thesis using n [OF nx] g m by (auto simp: cc_quiet_def cc_threads_ok_def)
    next
      case nx: False
      have "cc_finish w res m s = ?t" using True g nx by (simp add: cc_finish_def cc_join_def Let_def)
      then show ?thesis using t g m by (auto simp: cc_quiet_def)
    qed
  qed
qed

lemma cc_finish_ended:
  "cc_ending s \<Longrightarrow> cc_ending (cc_finish w res m s) \<and> cc_result (cc_finish w res m s) = cc_result s \<and> cc_model (cc_finish w res m s) = cc_model s"
  by (simp add: cc_finish_def cc_join_def Let_def)

lemma cc_step_quiet:
  assumes s: "cc_step once maxCpus F s s'" and i: "cc_ending s \<or> cc_quiet s"
  shows "cc_ending s' \<or> cc_quiet s'"
  using s
proof (cases rule: cc_step.cases)
  case (Finish w res m)
  then show ?thesis using i cc_finish_quiet [of s w res m] cc_finish_ended [of s w res m] by blast
next
  case (Round var sort_workers)
  then show ?thesis using i cc_round_frame [OF Round(4), where c = maxCpus and var = var and s = s] by (auto simp: cc_quiet_def)
next
  case Stopped
  then show ?thesis using i by (auto simp: cc_quiet_def cc_threads_ok_def cc_stopped_def)
qed (use i in \<open>auto simp: cc_begin_def cc_ready_def cc_stop_workers_def cc_erase_def cc_quiet_def cc_threads_ok_def cc_stopped_def\<close>)

lemma cc_reach_quiet: "cc_reach once maxCpus F s \<Longrightarrow> cc_ending s \<or> cc_quiet s"
proof (induction rule: cc_reach.induct)
  case Start
  then show ?case by (simp add: cc_start_def cc_launch_def cc_quiet_def cc_threads_ok_def)
next
  case (Step s s')
  then show ?case using cc_step_quiet by blast
qed

text \<open>The verdict: it is being worked out, the master deletes, or the search has ended rightly.\<close>

definition cc_deleting :: "Cnc \<Rightarrow> bool" where
  "cc_deleting s \<longleftrightarrow> added s 0 = [] \<and> cc_result s = UNKNOWN \<and> \<not> cc_ending s \<and>
     (\<exists>w ws. cc_master s = Erasing (w # ws) \<or> cc_master s = Joining w ws)"

definition cc_working :: "((nat \<Rightarrow> bool) \<Rightarrow> bool) \<Rightarrow> Cnc \<Rightarrow> bool" where
  "cc_working F s \<longleftrightarrow> cc_running F s \<and>
     (cc_master s = Sleeping \<or> cc_master s = Stopping \<or> cc_master s = Erasing [] \<and> over s = [])"

definition cc_verdict :: "((nat \<Rightarrow> bool) \<Rightarrow> bool) \<Rightarrow> Cnc \<Rightarrow> bool" where
  "cc_verdict F s \<longleftrightarrow> cc_working F s \<or> cc_deleting s \<or> cc_ended F s"

lemma cc_root_deleting:
  assumes d: "cc_deleting s" and a: "answers F b (added s 0) res m" and g: "\<not> cc_global s"
  shows "cc_verdict F (cc_finish 0 res m s)"
proof (cases "res = UNKNOWN")
  case True
  then have "cc_deleting (cc_finish 0 res m s)" using d by (auto simp: cc_finish_def cc_join_def Let_def cc_deleting_def)
  then show ?thesis by (simp add: cc_verdict_def)
next
  case False
  then have "claim F [] res m" using a d by (simp add: answers_def cc_deleting_def)
  then have "cc_ended F (cc_finish 0 res m s)"
    using False d g by (cases res) (auto simp: cc_finish_def cc_join_def Let_def cc_deleting_def cc_ended_def cc_setInterrupt_def)
  then show ?thesis by (simp add: cc_verdict_def)
qed

lemma cc_finish_master:
  "cc_solving s w \<Longrightarrow> cc_quiet s \<Longrightarrow> cc_master (cc_finish w res m s) = cc_master s \<and>
     (cc_master s = Erasing [] \<and> over s = [] \<longrightarrow> over (cc_finish w res m s) = [])"
  by (auto simp: cc_finish_def cc_join_def Let_def cc_setInterrupt_def cc_launch_def cc_quiet_def cc_stopped_def)

lemma cc_working_frame:
  "cc_working F s \<Longrightarrow> cc_lists_ok s' = cc_lists_ok s \<Longrightarrow> cc_threads_ok s' \<Longrightarrow> cc_covers F s' = cc_covers F s \<Longrightarrow>
     cc_ending s' = cc_ending s \<Longrightarrow> cc_result s' = cc_result s \<Longrightarrow>
     cc_master s' = Sleeping \<or> cc_master s' = Stopping \<or> cc_master s' = Erasing [] \<and> over s' = [] \<Longrightarrow> cc_verdict F s'"
  by (simp add: cc_verdict_def cc_working_def cc_running_def)

lemma cc_step_verdict:
  assumes s: "cc_step True maxCpus F s s'" and q: "cc_ending s \<or> cc_quiet s" and q': "cc_ending s' \<or> cc_quiet s'" and i: "cc_verdict F s"
  shows "cc_verdict F s'"
proof (cases "cc_ended F s")
  case True
  have "cc_ending s' \<and> cc_result s' = cc_result s \<and> cc_model s' = cc_model s"
    using s
  proof (cases rule: cc_step.cases)
    case (Finish w res m)
    then show ?thesis using True cc_finish_ended by (simp add: cc_ended_def)
  next
    case (Round var sort_workers)
    then show ?thesis using True cc_round_frame [OF Round(4), where c = maxCpus and var = var and s = s] by (simp add: cc_ended_def)
  qed (use True in \<open>auto simp: cc_ended_def cc_begin_def cc_stop_workers_def cc_erase_def\<close>)
  then show ?thesis using True by (simp add: cc_ended_def cc_verdict_def)
next
  case False
  have e: "\<not> cc_ending s" using i False by (auto simp: cc_verdict_def cc_working_def cc_running_def cc_deleting_def)
  then have quiet: "cc_quiet s" using q by simp
  show ?thesis
  proof (cases "cc_deleting s")
    case d: True
    show ?thesis
      using s
    proof (cases rule: cc_step.cases)
      case (Finish w res m)
      have "w = 0" using d quiet Finish(2) by (auto simp: cc_deleting_def cc_quiet_def cc_stopped_def)
      then show ?thesis using cc_root_deleting [OF d, of F "cc_interrupt s w" res m] Finish quiet by (simp add: cc_quiet_def)
    qed (use d quiet in \<open>auto simp: cc_deleting_def cc_verdict_def cc_begin_def cc_erase_def cc_quiet_def\<close>)
  next
    case nd: False
    then have w: "cc_working F s" using i False by (simp add: cc_verdict_def)
    then have r: "cc_running F s" by (simp add: cc_working_def)
    have nth: "cc_threads_ok s'" if "\<not> cc_ending s'" using q' that by (simp add: cc_quiet_def)
    show ?thesis
      using s
    proof (cases rule: cc_step.cases)
      case (Finish w' res m)
      have "cc_running F s' \<or> cc_ended F s'"
        unfolding Finish(1) by (rule cc_finish_running [OF r Finish(2,3)]) (use Finish(4) quiet in \<open>simp_all add: cc_quiet_def\<close>)
      then show ?thesis using w cc_finish_master [OF Finish(2) quiet, of res m] Finish(1) by (auto simp: cc_verdict_def cc_working_def)
    next
      case (Round var sort_workers)
      have o: "over s = []" using w Round(2) by (auto simp: cc_working_def)
      have "cc_running F s'" unfolding Round(1) by (rule cc_round_running [OF r o Round(3,4)])
      then show ?thesis using cc_round_frame(3) [OF Round(4)] Round(1) by (simp add: cc_verdict_def cc_working_def)
    next
      case Stopped
      show ?thesis
      proof (cases "over s")
        case Nil
        show ?thesis by (rule cc_working_frame [OF w]) (use Stopped(1) Nil nth e in \<open>simp_all add: cc_lists_ok_def cc_covers_def\<close>)
      next
        case (Cons v vs)
        then show ?thesis using r Stopped(1) by (auto simp: cc_verdict_def cc_deleting_def cc_running_def cc_lists_ok_def)
      qed
    next
      case (Begin v)
      show ?thesis by (rule cc_working_frame [OF w])
        (use Begin(1) nth e w in \<open>simp_all add: cc_begin_def cc_lists_ok_def cc_covers_def cc_working_def\<close>)
    next
      case (Wait v)
      show ?thesis by (rule cc_working_frame [OF w])
        (use Wait(1) nth e w in \<open>simp_all add: cc_lists_ok_def cc_covers_def cc_working_def\<close>)
    next
      case (Exit v)
      then show ?thesis using quiet by (simp add: cc_quiet_def)
    next
      case Stop
      show ?thesis by (rule cc_working_frame [OF w])
        (use Stop(1) nth e in \<open>simp_all add: cc_stop_workers_def cc_lists_ok_def cc_covers_def\<close>)
    next
      case (Erase v vs)
      then show ?thesis using w by (simp add: cc_working_def)
    next
      case (Joined v vs)
      then show ?thesis using w by (simp add: cc_working_def)
    qed
  qed
qed

lemma cc_reach_verdict: "cc_reach True maxCpus F s \<Longrightarrow> cc_verdict F s"
proof (induction rule: cc_reach.induct)
  case Start
  then show ?case using cc_start_running by (simp add: cc_verdict_def cc_working_def) (simp add: cc_start_def)
next
  case (Step s s')
  then show ?case using cc_step_verdict cc_reach_quiet cc_reach.Step by metis
qed

section \<open>The properties\<close>



text \<open>A run: the master splits worker 1 at variable 1; worker 1 gets the half in which 1 is true.\<close>

definition cc_example :: Cnc where
  "cc_example = cc_round 4 (\<lambda>_. 1) (\<lambda>ws. ws) ((cc_stop_workers cc_start)\<lparr>cc_master := Erasing []\<rparr>)"

lemma cc_example_simps:
  "cc_workers cc_example = [1, 2]" "over cc_example = []" "added cc_example 1 = [1]" "added cc_example 2 = [-1]"
  "cc_interrupt cc_example 1 = False" "cc_interrupt cc_example 2 = False" "cc_solving cc_example w = False" "nJobs cc_example = 2"
  "cc_ending cc_example = False" "next_worker cc_example = 2" "cc_result cc_example = UNKNOWN" "cc_master cc_example = Sleeping"
  "cc_global cc_example = False" "cc_waiting cc_example w = False" "cc_exited cc_example w = False"
  by (simp_all add: cc_example_def cc_round_def cc_start_def cc_stop_workers_def cc_launch_def cc_divide_def Let_def)

lemma cc_example_reach: "cc_reach once 4 F cc_example"
proof -
  have "cc_reach once 4 F (cc_stop_workers cc_start)"
    by (rule cc_reach.Step [OF cc_reach.Start], rule cc_step.Stop) (simp_all add: cc_start_def cc_launch_def)
  then have "cc_reach once 4 F ((cc_stop_workers cc_start)\<lparr>cc_master := Erasing (over (cc_stop_workers cc_start))\<rparr>)"
    by (rule cc_reach.Step, intro cc_step.Stopped) (simp_all add: cc_stop_workers_def cc_start_def cc_launch_def)
  then have "cc_reach once 4 F ((cc_stop_workers cc_start)\<lparr>cc_master := Erasing []\<rparr>)"
    by (simp add: cc_stop_workers_def cc_start_def cc_launch_def)
  then show ?thesis unfolding cc_example_def by (rule cc_reach.Step, intro cc_step.Round) simp_all
qed

lemma ex_refutes: "answers ex_formula b [1] UNSAT []"
  by (simp add: answers_def ex_formula_def cube_true_def lit_true_def)

text \<open>Worker 1 has refuted its half once.\<close>

definition cc_refuted :: Cnc where
  "cc_refuted = cc_finish 1 UNSAT [] (cc_begin 1 cc_example)"

lemmas cc_refuted_defs = cc_refuted_def cc_begin_def cc_finish_def cc_join_def cc_launch_def cc_setInterrupt_def Let_def cc_example_simps

lemma cc_refuted_reach: "cc_reach once 4 ex_formula cc_refuted"
proof -
  have "cc_reach once 4 ex_formula (cc_begin 1 cc_example)"
    by (rule cc_reach.Step [OF cc_example_reach], rule cc_step.Begin) (simp_all add: cc_ready_def cc_example_simps del: One_nat_def)
  then show ?thesis unfolding cc_refuted_def
    by (rule cc_reach.Step, intro cc_step.Finish) (simp_all add: cc_begin_def cc_example_simps ex_refutes del: One_nat_def)
qed

lemma cc_refuted_simps:
  "cc_workers cc_refuted = [1, 2]" "over cc_refuted = [1]" "added cc_refuted 1 = [1]" "cc_interrupt cc_refuted 1 = False"
  "cc_solving cc_refuted w = False" "nJobs cc_refuted = 1" "cc_ending cc_refuted = False" "cc_master cc_refuted = Sleeping"
  "cc_global cc_refuted = False" "cc_waiting cc_refuted w = False" "cc_exited cc_refuted w = False" "cc_result cc_refuted = UNKNOWN"
  by (simp_all add: cc_refuted_defs del: One_nat_def)


text \<open>The next round begins to delete worker 1.\<close>

definition cc_stuck :: Cnc where
  "cc_stuck = cc_erase 1 [] ((cc_stop_workers cc_refuted)\<lparr>cc_master := Erasing [1]\<rparr>)"

lemma cc_stuck_reach: "cc_reach once 4 ex_formula cc_stuck"
proof -
  have "cc_reach once 4 ex_formula (cc_stop_workers cc_refuted)"
    by (rule cc_reach.Step [OF cc_refuted_reach], rule cc_step.Stop) (simp_all add: cc_refuted_simps)
  then have "cc_reach once 4 ex_formula ((cc_stop_workers cc_refuted)\<lparr>cc_master := Erasing (over (cc_stop_workers cc_refuted))\<rparr>)"
    by (rule cc_reach.Step, intro cc_step.Stopped) (simp_all add: cc_stop_workers_def cc_refuted_simps)
  then have "cc_reach once 4 ex_formula ((cc_stop_workers cc_refuted)\<lparr>cc_master := Erasing [1]\<rparr>)"
    by (simp add: cc_stop_workers_def cc_refuted_simps)
  then show ?thesis unfolding cc_stuck_def by (rule cc_reach.Step, intro cc_step.Erase) simp
qed


text \<open>
  C21: the verdict of cube and conquer can be wrong.  join does not interrupt a worker that has
  refuted its cube, so that it calls its solver again and reports the same cube as often as it
  likes; every report counts a job down, and the second one of worker 1 ends the search as
  unsatisfiable while worker 2 is still at work, on a formula that has a model.
\<close>

theorem cc_unsound:
  "\<exists>s. cc_reach False 4 ex_formula s \<and> cc_result s = UNSAT \<and> ex_formula (assignment [2])"
proof -
  have "cc_reach False 4 ex_formula (cc_begin 1 cc_refuted)"
    by (rule cc_reach.Step [OF cc_refuted_reach], rule cc_step.Begin) (simp_all add: cc_ready_def cc_refuted_simps del: One_nat_def)
  then have "cc_reach False 4 ex_formula (cc_finish 1 UNSAT [] (cc_begin 1 cc_refuted))"
    by (rule cc_reach.Step, intro cc_step.Finish) (simp_all add: cc_begin_def cc_refuted_simps ex_refutes del: One_nat_def)
  moreover have "cc_result (cc_finish 1 UNSAT [] (cc_begin 1 cc_refuted)) = UNSAT"
    by (simp add: cc_finish_def cc_join_def cc_begin_def cc_setInterrupt_def Let_def cc_refuted_simps del: One_nat_def)
  moreover have "ex_formula (assignment [2])" by (simp add: ex_formula_def assignment_def)
  ultimately show ?thesis by blast
qed

end
