(* ===== verification/Pl_Portfolio.thy ===== *)
theory Pl_Portfolio
  imports Pl_Divide
begin

text \<open>
  The portfolio of painless from its start to the printed verdict: the threads of the workers
  (src/painless-v2/painless-src/working/SequentialWorker.cpp), Portfolio.cpp, and main of
  painless.cpp with working strategy 1 after it has launched the strategy.  A worker and main are
  state machines; a step is an access to what they share.  The solvers are parameters as in
  Pl_Divide.  Condition variables wake up only when they are signalled.
\<close>

section \<open>The state\<close>

text \<open>
  Where the thread of a worker is: at the head of its loop, at the test of its flag, waiting for a
  signal, in its solver, and on its way through join: before the test, before the slaves are
  interrupted, before globalEnding is set, before the result is stored.
\<close>

datatype phase =
    Top | Gate | Wait | Solve
  | Report SatResult "int list" | Interrupting SatResult "int list" | Announcing SatResult "int list" | Storing SatResult "int list"
  | Exited

text \<open>Main polls globalEnding, deletes the workers in turn, and prints.\<close>

datatype pf_main = Polling | Deleting nat | Joining nat | Printed SatResult "int list"

record Portfolio =
  phase :: "nat \<Rightarrow> phase"
  pf_interrupt :: "nat \<Rightarrow> bool"
  pf_ending :: bool
  pf_global :: bool
  pf_result :: SatResult
  pf_model :: "int list"
  pf_main :: pf_main

definition pf_goto :: "nat \<Rightarrow> phase \<Rightarrow> Portfolio \<Rightarrow> Portfolio" where
  "pf_goto w p s = s\<lparr>phase := (phase s)(w := p)\<rparr>"

section \<open>The steps\<close>

definition Portfolio_solve :: "Portfolio \<Rightarrow> Portfolio" where
  "Portfolio_solve s = s\<lparr>pf_ending := False, pf_interrupt := (\<lambda>_. False)\<rparr>"

definition Portfolio_setInterrupt :: "Portfolio \<Rightarrow> Portfolio" where
  "Portfolio_setInterrupt s = s\<lparr>pf_interrupt := (\<lambda>_. True)\<rparr>"

text \<open>No worker has passed the test of its flag before the strategy is started.\<close>

definition pf_start :: Portfolio where
  "pf_start =
     Portfolio_solve \<lparr>phase = (\<lambda>_. Top), pf_interrupt = (\<lambda>_. True), pf_ending = False, pf_global = False,
       pf_result = UNKNOWN, pf_model = [], pf_main = Polling\<rparr>"

text \<open>A step of the thread of worker w outside its solver; None where it is blocked or has returned.\<close>

definition worker_step :: "nat \<Rightarrow> Portfolio \<Rightarrow> Portfolio option" where
  "worker_step w s =
     (case phase s w of
        Top \<Rightarrow> Some (pf_goto w (if pf_global s then Exited else Gate) s)
      | Gate \<Rightarrow> Some (pf_goto w (if pf_interrupt s w then Wait else Solve) s)
      | Report res m \<Rightarrow>
          Some (pf_goto w (if pf_global s \<or> res = UNKNOWN \<or> pf_ending s then Top else Interrupting res m) s)
      | Interrupting res m \<Rightarrow> Some (pf_goto w (Announcing res m) (Portfolio_setInterrupt (s\<lparr>pf_ending := True\<rparr>)))
      | Announcing res m \<Rightarrow> Some (pf_goto w (Storing res m) (s\<lparr>pf_global := True\<rparr>))
      | Storing res m \<Rightarrow> Some (pf_goto w Top (s\<lparr>pf_result := res, pf_model := (if res = SAT then m else pf_model s)\<rparr>))
      | _ \<Rightarrow> None)"

text \<open>
  A step of main with n workers.  The destructor of a worker clears globalEnding, sets the flag of
  the worker and waits for its thread.
\<close>

definition main_step :: "nat \<Rightarrow> Portfolio \<Rightarrow> Portfolio option" where
  "main_step n s =
     (case pf_main s of
        Polling \<Rightarrow> (if pf_global s then Some (s\<lparr>pf_main := Deleting 0\<rparr>) else None)
      | Deleting i \<Rightarrow>
          Some (if i < n then s\<lparr>pf_global := False, pf_interrupt := (pf_interrupt s)(i := True), pf_main := Joining i\<rparr>
                else s\<lparr>pf_main := Printed (pf_result s) (pf_model s)\<rparr>)
      | Joining i \<Rightarrow> (if phase s i = Exited then Some (s\<lparr>pf_main := Deleting (i + 1)\<rparr>) else None)
      | Printed _ _ \<Rightarrow> None)"

definition main_timeout :: "Portfolio \<Rightarrow> Portfolio" where
  "main_timeout s = Portfolio_setInterrupt (s\<lparr>pf_global := True\<rparr>)"

inductive pf_step :: "nat \<Rightarrow> ((nat \<Rightarrow> bool) \<Rightarrow> bool) \<Rightarrow> bool \<Rightarrow> Portfolio \<Rightarrow> Portfolio \<Rightarrow> bool" for n F timeout where
  Worker: "w < n \<Longrightarrow> worker_step w s = Some s' \<Longrightarrow> pf_step n F timeout s s'"
| Solved: "w < n \<Longrightarrow> phase s w = Solve \<Longrightarrow> answers F (pf_interrupt s w) [] res m \<Longrightarrow> pf_step n F timeout s (pf_goto w (Report res m) s)"
| Main: "main_step n s = Some s' \<Longrightarrow> pf_step n F timeout s s'"
| Timeout: "timeout \<Longrightarrow> pf_main s = Polling \<Longrightarrow> pf_step n F timeout s (main_timeout s)"

inductive pf_reach :: "nat \<Rightarrow> ((nat \<Rightarrow> bool) \<Rightarrow> bool) \<Rightarrow> bool \<Rightarrow> Portfolio \<Rightarrow> bool" for n F timeout where
  Start: "pf_reach n F timeout pf_start"
| Step: "pf_reach n F timeout s \<Longrightarrow> pf_step n F timeout s s' \<Longrightarrow> pf_reach n F timeout s'"

lemmas worker_step_defs = worker_step_def pf_goto_def Portfolio_setInterrupt_def

section \<open>Results\<close>

text \<open>Every result on its way is right, and one that passed the test is a verdict.\<close>

fun phase_ok :: "((nat \<Rightarrow> bool) \<Rightarrow> bool) \<Rightarrow> phase \<Rightarrow> bool" where
  "phase_ok F (Report res m) = claim F [] res m"
| "phase_ok F (Interrupting res m) = (claim F [] res m \<and> res \<noteq> UNKNOWN)"
| "phase_ok F (Announcing res m) = (claim F [] res m \<and> res \<noteq> UNKNOWN)"
| "phase_ok F (Storing res m) = (claim F [] res m \<and> res \<noteq> UNKNOWN)"
| "phase_ok F _ = True"

definition pf_sound_inv :: "((nat \<Rightarrow> bool) \<Rightarrow> bool) \<Rightarrow> Portfolio \<Rightarrow> bool" where
  "pf_sound_inv F s \<longleftrightarrow> (\<forall>w. phase_ok F (phase s w)) \<and> claim F [] (pf_result s) (pf_model s) \<and>
     (\<forall>res m. pf_main s = Printed res m \<longrightarrow> claim F [] res m)"

lemma pf_sound_goto: "pf_sound_inv F s \<Longrightarrow> phase_ok F p \<Longrightarrow> pf_sound_inv F (pf_goto w p s)"
  by (simp add: pf_sound_inv_def pf_goto_def)

lemma worker_step_sound:
  assumes i: "pf_sound_inv F s" and st: "worker_step w s = Some s'"
  shows "pf_sound_inv F s'"
proof -
  have p: "phase_ok F (phase s w)" using i by (simp add: pf_sound_inv_def)
  show ?thesis
  proof (cases "phase s w")
    case (Storing res m)
    then have c: "claim F [] res m" "res \<noteq> UNKNOWN" using p by simp_all
    have "claim F [] res (if res = SAT then m else pf_model s)" using c by (cases res) simp_all
    then show ?thesis using i st Storing by (auto simp: worker_step_defs pf_sound_inv_def)
  qed (use i st p in \<open>auto simp: worker_step_defs pf_sound_inv_def\<close>)
qed

lemma pf_step_sound: "pf_step n F timeout s s' \<Longrightarrow> pf_sound_inv F s \<Longrightarrow> pf_sound_inv F s'"
proof (induction rule: pf_step.induct)
  case (Worker w s s')
  then show ?case using worker_step_sound by blast
next
  case (Solved w s res m)
  then show ?case by (intro pf_sound_goto) (simp_all add: answers_def)
next
  case (Main s s')
  then show ?case by (auto simp: main_step_def pf_sound_inv_def split: pf_main.splits if_splits)
next
  case (Timeout s)
  then show ?case by (simp add: main_timeout_def Portfolio_setInterrupt_def pf_sound_inv_def)
qed

text \<open>Without a timeout, the search ends only with a result that is stored or about to be.\<close>

definition pf_result_inv :: "nat \<Rightarrow> Portfolio \<Rightarrow> bool" where
  "pf_result_inv n s \<longleftrightarrow>
     (pf_global s \<or> pf_main s \<noteq> Polling \<longrightarrow> (\<exists>w<n. \<exists>res m. phase s w = Storing res m) \<or> pf_result s \<noteq> UNKNOWN) \<and>
     (\<forall>i. pf_main s = Deleting i \<or> pf_main s = Joining i \<longrightarrow> (\<forall>j<i. phase s j = Exited)) \<and>
     (\<forall>i. pf_main s = Deleting i \<longrightarrow> i \<le> n) \<and> (\<forall>i. pf_main s = Joining i \<longrightarrow> i < n) \<and>
     (\<forall>res m. pf_main s = Printed res m \<longrightarrow> res \<noteq> UNKNOWN)"

lemma worker_step_frame:
  assumes "worker_step w s = Some s'"
  shows "pf_main s' = pf_main s" "v \<noteq> w \<Longrightarrow> phase s' v = phase s v" "phase s w \<noteq> Exited"
  using assms by (auto simp: worker_step_defs split: phase.splits)

lemma worker_step_keeps:
  assumes "worker_step w s = Some s'" "\<And>res m. phase s w \<noteq> Storing res m" "\<And>res m. phase s w \<noteq> Announcing res m"
  shows "pf_global s' = pf_global s" "pf_result s' = pf_result s"
  using assms by (auto simp: worker_step_defs split: phase.splits)

lemma pf_kept:
  assumes i: "pf_result_inv n s" and st: "worker_step w s = Some s'"
    and no: "\<And>res m. phase s w \<noteq> Storing res m" "\<And>res m. phase s w \<noteq> Announcing res m"
    and g: "pf_global s' \<or> pf_main s' \<noteq> Polling" and m: "pf_main s' = pf_main s"
  shows "(\<exists>w<n. \<exists>res m. phase s' w = Storing res m) \<or> pf_result s' \<noteq> UNKNOWN"
proof -
  note k = worker_step_keeps [OF st no]
  have "(\<exists>v<n. \<exists>res m. phase s v = Storing res m) \<or> pf_result s \<noteq> UNKNOWN"
    using i g unfolding pf_result_inv_def m k(1) by blast
  moreover have "phase s' v = Storing res mo" if "phase s v = Storing res mo" for v res mo
    using worker_step_frame(2) [OF st, of v] no(1) that by (cases "v = w") auto
  ultimately show ?thesis using k(2) by metis
qed

lemma worker_step_result:
  assumes i: "pf_result_inv n s" and so: "pf_sound_inv F s" and w: "w < n" and st: "worker_step w s = Some s'"
  shows "pf_result_inv n s'"
proof -
  have p: "phase_ok F (phase s w)" using so by (simp add: pf_sound_inv_def)
  note m = worker_step_frame(1) [OF st]
  have ex: "phase s' j = Exited" if "phase s j = Exited" for j
    using worker_step_frame(2) [OF st, of j] worker_step_frame(3) [OF st] that by (cases "j = w") auto
  have "(\<exists>w<n. \<exists>res m. phase s' w = Storing res m) \<or> pf_result s' \<noteq> UNKNOWN" if g: "pf_global s' \<or> pf_main s' \<noteq> Polling"
  proof (cases "phase s w")
    case (Storing res mo)
    then have "pf_result s' = res" using st by (simp add: worker_step_defs) (drule sym, simp)
    then show ?thesis using p Storing by simp
  next
    case (Announcing res mo)
    then have "phase s' w = Storing res mo" using st by (simp add: worker_step_defs) (drule sym, simp)
    then show ?thesis using w by blast
  qed (rule pf_kept [OF i st _ _ g m], simp_all)+
  then show ?thesis using i ex unfolding pf_result_inv_def m by blast
qed

lemma pf_step_result:
  "pf_step n F False s s' \<Longrightarrow> pf_result_inv n s \<Longrightarrow> pf_sound_inv F s \<Longrightarrow> pf_result_inv n s'"
proof (induction rule: pf_step.induct)
  case (Worker w s s')
  then show ?case using worker_step_result by blast
next
  case (Solved w s res m)
  have "phase (pf_goto w (Report res m) s) v = Storing r x \<longleftrightarrow> phase s v = Storing r x" for v r x
    using Solved.hyps(2) by (simp add: pf_goto_def)
  moreover have "phase (pf_goto w (Report res m) s) v = Exited \<longleftrightarrow> phase s v = Exited" for v
    using Solved.hyps(2) by (simp add: pf_goto_def)
  ultimately show ?case using Solved.prems(1) by (simp add: pf_result_inv_def) (simp add: pf_goto_def)
next
  case (Main s s')
  show ?case
  proof (cases "pf_main s")
    case (Deleting i)
    show ?thesis
    proof (cases "i < n")
      case True
      then show ?thesis using Main Deleting by (auto simp: main_step_def pf_result_inv_def)
    next
      case False
      then have "\<forall>j<n. phase s j = Exited" using Main.prems(1) Deleting by (simp add: pf_result_inv_def)
      then have "pf_result s \<noteq> UNKNOWN" using Main.prems(1) Deleting by (auto simp: pf_result_inv_def)
      then show ?thesis using Main Deleting False by (auto simp: main_step_def pf_result_inv_def)
    qed
  next
    case (Joining i)
    then have e: "phase s i = Exited" and s': "s' = s\<lparr>pf_main := Deleting (i + 1)\<rparr>"
      using Main.hyps by (auto simp: main_step_def split: if_splits)
    have "\<forall>j<i + 1. phase s j = Exited" using Main.prems(1) Joining e by (auto simp: pf_result_inv_def less_Suc_eq)
    then show ?thesis using Main.prems(1) Joining unfolding s' by (auto simp: pf_result_inv_def)
  qed (use Main in \<open>auto simp: main_step_def pf_result_inv_def split: if_splits\<close>)
qed simp

lemma pf_reach_sound: "pf_reach n F timeout s \<Longrightarrow> pf_sound_inv F s"
proof (induction rule: pf_reach.induct)
  case Start
  then show ?case by (simp add: pf_start_def Portfolio_solve_def pf_sound_inv_def)
next
  case (Step s s')
  then show ?case using pf_step_sound by blast
qed

lemma pf_reach_result: "pf_reach n F False s \<Longrightarrow> pf_result_inv n s"
proof (induction rule: pf_reach.induct)
  case Start
  then show ?case by (simp add: pf_start_def Portfolio_solve_def pf_result_inv_def)
next
  case (Step s s')
  then show ?case using pf_step_result pf_reach_sound by blast
qed

section \<open>Progress\<close>

definition pf_wait_inv :: "nat \<Rightarrow> Portfolio \<Rightarrow> bool" where
  "pf_wait_inv n s \<longleftrightarrow>
     (\<forall>i. pf_main s = Joining i \<longrightarrow> i < n) \<and>
     (pf_main s = Polling \<longrightarrow>
        (\<forall>w. phase s w = Exited \<longrightarrow> pf_global s) \<and> (\<forall>w. phase s w = Wait \<longrightarrow> pf_interrupt s w) \<and>
        (\<forall>w. pf_interrupt s w \<longrightarrow> pf_ending s \<or> pf_global s) \<and>
        (pf_ending s \<longrightarrow> pf_global s \<or> (\<exists>w<n. \<exists>res m. phase s w = Announcing res m)))"

lemma worker_step_wait:
  assumes i: "pf_wait_inv n s" and w: "w < n" and st: "worker_step w s = Some s'"
  shows "pf_wait_inv n s'"
proof -
  note m = worker_step_frame(1) [OF st]
  have other: "phase s' v = phase s v" if "v \<noteq> w" for v by (rule worker_step_frame(2) [OF st that])
  show ?thesis
  proof (cases "pf_main s = Polling")
    case False
    then show ?thesis using i unfolding pf_wait_inv_def m by blast
  next
    case True
    then have h: "\<And>v. phase s v = Exited \<Longrightarrow> pf_global s" "\<And>v. phase s v = Wait \<Longrightarrow> pf_interrupt s v"
      "\<And>v. pf_interrupt s v \<Longrightarrow> pf_ending s \<or> pf_global s"
      "pf_ending s \<Longrightarrow> pf_global s \<or> (\<exists>w<n. \<exists>res m. phase s w = Announcing res m)"
      using i by (auto simp: pf_wait_inv_def)
    have main: "pf_main s' = Polling" using True m by simp
    have goal: "pf_wait_inv n s'" if "\<And>v. phase s' v = Exited \<Longrightarrow> pf_global s'" "\<And>v. phase s' v = Wait \<Longrightarrow> pf_interrupt s' v"
      "\<And>v. pf_interrupt s' v \<Longrightarrow> pf_ending s' \<or> pf_global s'"
      "pf_ending s' \<Longrightarrow> pf_global s' \<or> (\<exists>w<n. \<exists>res m. phase s' w = Announcing res m)"
      using that main by (auto simp: pf_wait_inv_def)
    show ?thesis
    proof (cases "\<exists>res mo. phase s w = Announcing res mo")
      case True
      then have s': "pf_global s'" "pf_interrupt s' = pf_interrupt s" "phase s' w \<noteq> Wait"
        using st by (auto simp: worker_step_defs)
      show ?thesis
      proof (rule goal)
        fix v assume "phase s' v = Wait"
        then show "pf_interrupt s' v" using s' h(2) [of v] other [of v] by (cases "v = w") auto
      qed (use s'(1) in simp_all)
    next
      case na: False
      show ?thesis
      proof (cases "\<exists>res mo. phase s w = Interrupting res mo")
        case True
        then obtain res mo where "phase s w = Interrupting res mo" by blast
        then have s': "phase s' w = Announcing res mo" "pf_global s' = pf_global s" "\<And>v. pf_interrupt s' v" "pf_ending s'"
          using st by (auto simp: worker_step_defs)
        show ?thesis
        proof (rule goal)
          fix v assume "phase s' v = Exited"
          then show "pf_global s'" using s' h(1) [of v] other [of v] by (cases "v = w") auto
        qed (use s' w in blast)+
      next
        case False
        then have s': "pf_global s' = pf_global s" "pf_interrupt s' = pf_interrupt s" "pf_ending s' = pf_ending s"
          "phase s' w = Exited \<Longrightarrow> pf_global s" "phase s' w = Wait \<Longrightarrow> pf_interrupt s w"
          using na st by (auto simp: worker_step_defs split: phase.splits if_splits)
        show ?thesis
        proof (rule goal)
          fix v assume "phase s' v = Exited"
          then show "pf_global s'" using s' h(1) [of v] other [of v] by (cases "v = w") auto
        next
          fix v assume "phase s' v = Wait"
          then show "pf_interrupt s' v" using s' h(2) [of v] other [of v] by (cases "v = w") auto
        next
          fix v assume "pf_interrupt s' v"
          then show "pf_ending s' \<or> pf_global s'" using s' h(3) by simp
        next
          assume "pf_ending s'"
          then have "pf_global s \<or> (\<exists>w<n. \<exists>res m. phase s w = Announcing res m)" using s' h(4) by simp
          then show "pf_global s' \<or> (\<exists>w<n. \<exists>res m. phase s' w = Announcing res m)" using s'(1) other na by metis
        qed
      qed
    qed
  qed
qed

lemma pf_step_wait: "pf_step n F timeout s s' \<Longrightarrow> pf_wait_inv n s \<Longrightarrow> pf_wait_inv n s'"
proof (induction rule: pf_step.induct)
  case (Worker w s s')
  then show ?case using worker_step_wait by blast
next
  case (Solved w s res m)
  have "phase (pf_goto w (Report res m) s) v = p \<longleftrightarrow> phase s v = p" if "p = Exited \<or> p = Wait \<or> (\<exists>r x. p = Announcing r x)" for v p
    using Solved.hyps(2) that by (auto simp: pf_goto_def)
  then have "\<And>v. phase (pf_goto w (Report res m) s) v = Exited \<longleftrightarrow> phase s v = Exited"
    "\<And>v. phase (pf_goto w (Report res m) s) v = Wait \<longleftrightarrow> phase s v = Wait"
    "\<And>v r x. phase (pf_goto w (Report res m) s) v = Announcing r x \<longleftrightarrow> phase s v = Announcing r x" by blast+
  then show ?case using Solved.prems by (simp add: pf_wait_inv_def) (simp add: pf_goto_def)
next
  case (Main s s')
  then show ?case by (auto simp: main_step_def pf_wait_inv_def split: pf_main.splits if_splits)
next
  case (Timeout s)
  then show ?case by (auto simp: main_timeout_def Portfolio_setInterrupt_def pf_wait_inv_def)
qed

lemma pf_reach_wait: "pf_reach n F timeout s \<Longrightarrow> pf_wait_inv n s"
proof (induction rule: pf_reach.induct)
  case Start
  then show ?case by (simp add: pf_start_def Portfolio_solve_def pf_wait_inv_def)
next
  case (Step s s')
  then show ?case using pf_step_wait by blast
qed

text \<open>A worker that neither waits nor has returned can go on, when some verdict is right.\<close>

lemma worker_goes_on:
  assumes "w < n" "phase s w \<noteq> Wait" "phase s w \<noteq> Exited" and d: "claim F [] res m" "res \<noteq> UNKNOWN"
  shows "\<exists>s'. pf_step n F timeout s s'"
proof (cases "phase s w = Solve")
  case True
  have "answers F (pf_interrupt s w) [] res m" using d by (simp add: answers_def)
  then show ?thesis using pf_step.Solved [OF assms(1) True] by blast
next
  case False
  then obtain s' where "worker_step w s = Some s'" using assms(2,3) by (cases "phase s w") (auto simp: worker_step_def)
  then show ?thesis using pf_step.Worker [OF assms(1)] by blast
qed

section \<open>Schedules\<close>

text \<open>A run is given by who goes next; a solver of ex_formula answers with a model, or with unknown when interrupted.\<close>

datatype pf_action = Go nat | Answer nat SatResult "int list" | Go_main

fun pf_act :: "nat \<Rightarrow> pf_action \<Rightarrow> Portfolio \<Rightarrow> Portfolio option" where
  "pf_act n (Go w) s = (if w < n then worker_step w s else None)"
| "pf_act n (Answer w res m) s =
     (if w < n \<and> phase s w = Solve \<and> (case res of SAT \<Rightarrow> ex_formula (assignment m) | UNSAT \<Rightarrow> False | UNKNOWN \<Rightarrow> pf_interrupt s w)
      then Some (pf_goto w (Report res m) s) else None)"
| "pf_act n Go_main s = main_step n s"

fun pf_run :: "nat \<Rightarrow> pf_action list \<Rightarrow> Portfolio \<Rightarrow> Portfolio option" where
  "pf_run n [] s = Some s"
| "pf_run n (x # xs) s = (case pf_act n x s of None \<Rightarrow> None | Some s \<Rightarrow> pf_run n xs s)"

lemma pf_act_step: "pf_act n x s = Some s' \<Longrightarrow> pf_step n ex_formula timeout s s'"
proof (cases x)
  case (Answer w res m)
  assume "pf_act n x s = Some s'"
  then have h: "w < n" "phase s w = Solve" "s' = pf_goto w (Report res m) s" "answers ex_formula (pf_interrupt s w) [] res m"
    using Answer by (auto simp: answers_def cube_true_def split: if_splits SatResult.splits)
  show ?thesis unfolding h(3) by (rule pf_step.Solved [OF h(1,2,4)])
qed (auto intro: pf_step.intros split: if_splits)

lemma pf_run_reach: "pf_run n xs s = Some s' \<Longrightarrow> pf_reach n ex_formula timeout s \<Longrightarrow> pf_reach n ex_formula timeout s'"
proof (induction xs arbitrary: s)
  case (Cons x xs)
  then show ?case using pf_act_step pf_reach.Step by (auto split: option.splits)
qed simp

lemmas pf_run_simps = pf_start_def Portfolio_solve_def worker_step_defs main_step_def ex_formula_def assignment_def

text \<open>One worker: its result is printed.\<close>

definition pf_printed :: Portfolio where
  "pf_printed = the (pf_run 1 [Go 0, Go 0, Answer 0 SAT [2], Go 0, Go 0, Go 0, Go 0, Go 0, Go_main, Go_main, Go_main, Go_main] pf_start)"

lemma pf_printed_run:
  "pf_run 1 [Go 0, Go 0, Answer 0 SAT [2], Go 0, Go 0, Go 0, Go 0, Go 0, Go_main, Go_main, Go_main, Go_main] pf_start = Some pf_printed"
  "pf_main pf_printed = Printed SAT [2]"
  by (simp_all add: pf_printed_def pf_run_simps)

text \<open>Two workers: the second one reads globalEnding before it is set, and its flag after it is set.\<close>

definition pf_hung :: Portfolio where
  "pf_hung = the (pf_run 2 [Go 1, Go 0, Go 0, Answer 0 SAT [2], Go 0, Go 0, Go 1, Go 0, Go 0, Go 0, Go_main, Go_main, Go_main, Go_main] pf_start)"

lemma pf_hung_run:
  "pf_run 2 [Go 1, Go 0, Go 0, Answer 0 SAT [2], Go 0, Go 0, Go 1, Go 0, Go 0, Go 0, Go_main, Go_main, Go_main, Go_main] pf_start = Some pf_hung"
  "pf_main pf_hung = Joining 1" "phase pf_hung 0 = Exited" "phase pf_hung 1 = Wait" "pf_result pf_hung = SAT"
  by (simp_all add: pf_hung_def pf_run_simps)

lemma pf_hung_reach: "pf_reach 2 ex_formula timeout pf_hung"
  by (rule pf_run_reach [OF pf_hung_run(1) pf_reach.Start])

lemma pf_hung_stuck: "\<not> pf_step 2 ex_formula False pf_hung s'"
proof
  assume "pf_step 2 ex_formula False pf_hung s'"
  then show False
  proof (cases rule: pf_step.cases)
    case (Worker w)
    then have "w = 0 \<or> w = 1" by auto
    then show ?thesis using Worker(2) pf_hung_run(3,4) by (auto simp: worker_step_def)
  next
    case (Solved w)
    then have "w = 0 \<or> w = 1" by auto
    then show ?thesis using Solved(3) pf_hung_run(3,4) by auto
  next
    case Main
    then show ?thesis using pf_hung_run(2,4) by (simp add: main_step_def)
  qed simp
qed

section \<open>The properties\<close>



text \<open>
  C8: the portfolio gets stuck in one way only.  In a reachable state without a step, either the
  verdict has been printed, or main joins the thread of a worker that waits for a signal.
\<close>

theorem pf_progress:
  assumes "pf_reach n F timeout s" "0 < n" "claim F [] res m" "res \<noteq> UNKNOWN" "\<And>s'. \<not> pf_step n F timeout s s'"
  shows "(case pf_main s of Printed _ _ \<Rightarrow> True | Joining i \<Rightarrow> i < n \<and> phase s i = Wait | _ \<Rightarrow> False)"
proof -
  have inv: "pf_wait_inv n s" by (rule pf_reach_wait [OF assms(1)])
  have blocked: "phase s w = Wait \<or> phase s w = Exited" if "w < n" for w
    using worker_goes_on [OF that _ _ assms(3,4), of s timeout] assms(5) by blast
  have main: "main_step n s = None" using pf_step.Main [of n s] assms(5) by (cases "main_step n s") auto
  show ?thesis
  proof (cases "pf_main s")
    case Polling
    then have "\<not> pf_global s" using main by (auto simp: main_step_def split: if_splits)
    moreover have "phase s 0 = Wait \<or> phase s 0 = Exited" using blocked assms(2) by blast
    ultimately have "pf_ending s" using inv Polling by (auto simp: pf_wait_inv_def)
    then obtain w r x where "w < n" "phase s w = Announcing r x" using inv Polling \<open>\<not> pf_global s\<close> by (auto simp: pf_wait_inv_def)
    then show ?thesis using blocked [of w] by auto
  next
    case (Joining i)
    then have "i < n" using inv by (simp add: pf_wait_inv_def)
    then show ?thesis using blocked [of i] main Joining by (auto simp: main_step_def)
  qed (use main in \<open>auto simp: main_step_def\<close>)
qed

theorem pf_progress_witness: "pf_main pf_hung = Joining 1 \<and> phase pf_hung 1 = Wait"
proof -
  have c: "claim ex_formula [] SAT [2]" by (simp add: ex_formula_def assignment_def cube_true_def)
  have "case pf_main pf_hung of Printed _ _ \<Rightarrow> True | Joining i \<Rightarrow> i < 2 \<and> phase pf_hung i = Wait | _ \<Rightarrow> False"
    by (rule pf_progress [OF pf_hung_reach _ c _ pf_hung_stuck]) simp_all
  then show ?thesis using pf_hung_run(2) by simp
qed

text \<open>
  the portfolio can hang with the model in its hands.  Portfolio::join interrupts the slaves
  before it sets globalEnding, so that a worker can wait for a signal that nobody sends any more;
  main deletes the workers before it prints the verdict, and joins that thread for ever.
\<close>

theorem pf_hangs:
  "\<exists>s. pf_reach 2 ex_formula False s \<and> pf_result s = SAT \<and> pf_main s = Joining 1 \<and> {s'. pf_step 2 ex_formula False s s'} = {}"
  using pf_hung_reach [of False] pf_hung_run(2,5) pf_hung_stuck by blast

end
