(* ===== verification/Pl_Formula.thy ===== *)
theory Pl_Formula
  imports Lsq_Text
begin

text \<open>
  Reading the formula and printing the model in painless,
  src/painless-v2/painless-src/utils/SatUtils.cpp.  A file is a string, the end of which fgetc
  returns again and again.  Numbers are not bounded; the width of a number is the one that log10
  gives without rounding.
\<close>

section \<open>Reading a formula\<close>

definition fgetc :: "string \<Rightarrow> char option \<times> string" where
  "fgetc s = (case s of [] \<Rightarrow> (None, []) | c # s \<Rightarrow> (Some c, s))"

lemma fgetc_simps [simp]: "fgetc [] = (None, [])" "fgetc (c # s) = (Some c, s)"
  by (simp_all add: fgetc_def)

text \<open>The rest of a comment line.\<close>

partial_function (option) skip_line :: "char option \<Rightarrow> string \<Rightarrow> string option" where
  "skip_line c s =
     (if c = Some newline then Some s else (case fgetc s of (c, s) \<Rightarrow> skip_line c s))"

text \<open>
  The loop over the characters: c is the last one read, cls the clause that is being read.  The
  character behind a number is read with it.
\<close>

partial_function (option) load_loop :: "char option \<Rightarrow> string \<Rightarrow> bool \<Rightarrow> int list \<Rightarrow> int list list \<Rightarrow> int list list option" where
  "load_loop c s neg cls clauses =
     (if c = None then Some clauses
      else
        (case fgetc s of
           (None, s) \<Rightarrow> load_loop None s neg cls clauses
         | (Some c, s) \<Rightarrow>
             if c = CHR ''c'' \<or> c = CHR ''p''
             then (case skip_line (Some c) s of None \<Rightarrow> None | Some s \<Rightarrow> load_loop (Some newline) s neg cls clauses)
             else if is_space c then load_loop (Some c) s neg cls clauses
             else if c = CHR ''-'' then load_loop (Some c) s True cls clauses
             else
               (case digit c of
                  None \<Rightarrow> load_loop (Some c) s neg cls clauses
                | Some d \<Rightarrow>
                    let (num, s) = digits s d;
                        num = (if neg then - int num else int num);
                        (c, s) = fgetc s
                    in if num \<noteq> 0 then load_loop c s False (cls @ [num]) clauses
                       else load_loop c s False [] (clauses @ [cls]))))"

text \<open>The clauses that every solver gets; Some None when there is no file.\<close>

definition loadFormulaToSolvers :: "string option \<Rightarrow> int list list option option" where
  "loadFormulaToSolvers file =
     (case file of
        None \<Rightarrow> Some None
      | Some f \<Rightarrow> map_option Some (load_loop (Some (CHR 0x00)) f False [] []))"

section \<open>Printing a model\<close>

fun log10_floor :: "nat \<Rightarrow> nat" where
  "log10_floor n = (if n < 10 then 0 else log10_floor (n div 10) + 1)"

declare log10_floor.simps [simp del]

definition intWidth :: "int \<Rightarrow> nat" where
  "intWidth i = (if i = 0 then 1 else (if i < 0 then 1 else 0) + 1 + log10_floor (nat \<bar>i\<bar>))"

definition show_int :: "int \<Rightarrow> string" where
  "show_int i = (if i < 0 then CHR ''-'' # show_nat (nat (- i)) else show_nat (nat i))"

fun print_loop :: "nat \<Rightarrow> int list \<Rightarrow> string" where
  "print_loop usedWidth [] = [newline]"
| "print_loop usedWidth (x # model) =
     (let (out, usedWidth) = (if usedWidth + 1 + intWidth x > 80 then ([newline], 0) else ([], usedWidth));
          (out, usedWidth) = (if usedWidth = 0 then (out @ ''v'', 1) else (out, usedWidth));
          word = '' '' @ show_int x
      in out @ word @ print_loop (usedWidth + length word) model)"

definition printModel :: "int list \<Rightarrow> string" where
  "printModel model = print_loop 0 (model @ [0])"

section \<open>Numbers\<close>

lemma length_show_nat: "length (show_nat n) = log10_floor n + 1"
proof (induction n rule: less_induct)
  case (less n)
  show ?case using less [of "n div 10"] by (simp add: show_nat.simps [of n] log10_floor.simps [of n])
qed

lemma length_show_int: "length (show_int i) = intWidth i"
  by (simp add: show_int_def intWidth_def length_show_nat log10_floor.simps [of 0])

lemma digits_show_nat:
  assumes "s = [] \<or> digit (hd s) = None"
  shows "digits (show_nat n @ s) 0 = (n, s)"
proof -
  obtain p where "\<And>k s. digits (show_nat n @ s) k = digits s (k * p + n)" using digits_show by blast
  then have "digits (show_nat n @ s) 0 = digits s n" by (metis add_0 mult_0)
  then show ?thesis using assms by (cases s) simp_all
qed

text \<open>The first digit and the others.\<close>

lemma show_nat_Cons:
  assumes "s = [] \<or> digit (hd s) = None"
  obtains c cs d where "show_nat n = c # cs" "digit c = Some d" "digits (cs @ s) d = (n, s)"
proof -
  obtain c cs d where c: "show_nat n = c # cs" "digit c = Some d" using show_nat_hd [of n] by (cases "show_nat n") auto
  then have "digits (cs @ s) d = (n, s)" using digits_show_nat [OF assms, of n] by simp
  then show ?thesis using that c by blast
qed

lemma no_newline_show_nat: "newline \<notin> set (show_nat n)"
proof (induction n rule: less_induct)
  case (less n)
  have "digit newline = None" by (simp add: digit_def newline_def)
  then have "newline \<noteq> char_of (48 + k)" if "k < 10" for k :: nat using digit_char [OF that] by auto
  then show ?case using less [of "n div 10"] by (simp add: show_nat.simps [of n])
qed

lemma no_newline_show_int: "newline \<notin> set (show_int i)"
  using no_newline_show_nat by (simp add: show_int_def newline_def)

section \<open>Files that are read\<close>

lemma load_end: "load_loop (Some c) [] neg cls clauses = Some clauses"
  by (subst load_loop.simps) (simp add: load_loop.simps)

lemma load_space: "is_space d \<Longrightarrow> load_loop (Some c) (d # s) neg cls clauses = load_loop (Some d) s neg cls clauses"
  by (subst load_loop.simps) (auto simp: is_space_def)

lemma load_nat:
  assumes "digit e = None"
  shows "load_loop (Some c) (show_nat n @ e # s) neg cls clauses =
    (if n \<noteq> 0 then load_loop (Some e) s False (cls @ [if neg then - int n else int n]) clauses
     else load_loop (Some e) s False [] (clauses @ [cls]))"
proof -
  obtain b bs d where b: "show_nat n = b # bs" "digit b = Some d" "digits (bs @ e # s) d = (n, e # s)"
    using show_nat_Cons [of "e # s" n] assms by auto
  have "b \<noteq> CHR ''c'' \<and> b \<noteq> CHR ''p'' \<and> \<not> is_space b \<and> b \<noteq> CHR ''-''"
    using b(2) by (auto simp: digit_def is_space_def)
  then show ?thesis using b by (subst load_loop.simps) simp
qed

lemma load_int:
  assumes "digit e = None" "i \<noteq> 0"
  shows "load_loop (Some c) (show_int i @ e # s) False cls clauses = load_loop (Some e) s False (cls @ [i]) clauses"
proof (cases "i < 0")
  case True
  have "load_loop (Some c) (show_int i @ e # s) False cls clauses =
      load_loop (Some (CHR ''-'')) (show_nat (nat (- i)) @ e # s) True cls clauses"
    using True by (subst load_loop.simps) (simp add: show_int_def is_space_def)
  then show ?thesis using True by (simp add: load_nat [OF assms(1)])
next
  case False
  then show ?thesis using assms(2) by (simp add: show_int_def load_nat [OF assms(1)])
qed

lemma load_zero:
  "digit e = None \<Longrightarrow> load_loop (Some c) (CHR ''0'' # e # s) False cls clauses = load_loop (Some e) s False [] (clauses @ [cls])"
  by (subst load_loop.simps) (simp add: is_space_def digit_def)

lemma skip_line_newline: "newline \<notin> set l \<Longrightarrow> c \<noteq> newline \<Longrightarrow> skip_line (Some c) (l @ newline # s) = Some s"
proof (induction l arbitrary: c)
  case Nil
  then show ?case by (subst skip_line.simps) (simp add: skip_line.simps)
next
  case (Cons d l)
  then have "skip_line (Some d) (l @ newline # s) = Some s" by (intro Cons.IH) auto
  then show ?case using Cons.prems by (subst skip_line.simps) simp
qed

lemma skip_line_returns: "skip_line c s = Some r \<Longrightarrow> c = Some newline \<or> newline \<in> set s"
proof (induction arbitrary: r rule: skip_line.raw_induct [rotated, consumes 1, case_names 1])
  case (1 f c s y)
  show ?case
  proof (cases s)
    case Nil
    then show ?thesis using 1(2) 1(1) [of None "[]" y] by (auto split: if_splits)
  next
    case (Cons d l)
    then show ?thesis using 1(2) 1(1) [of "Some d" l y] by (auto split: if_splits)
  qed
qed

section \<open>Formulas as text\<close>

definition show_clause :: "int list \<Rightarrow> string" where
  "show_clause cls = concat (map (\<lambda>l. show_int l @ '' '') cls) @ [CHR ''0'', newline]"

definition comment_line :: "string \<Rightarrow> bool" where
  "comment_line l \<longleftrightarrow> l \<noteq> [] \<and> (hd l = CHR ''c'' \<or> hd l = CHR ''p'') \<and> newline \<notin> set l"

definition show_formula :: "string list \<Rightarrow> int list list \<Rightarrow> string" where
  "show_formula comments clauses = concat (map (\<lambda>l. l @ [newline]) comments) @ concat (map show_clause clauses)"

lemma newline_char: "is_space newline" "digit newline = None" "newline \<noteq> CHR ''c''" "newline \<noteq> CHR ''p''"
  by (simp_all add: newline_def is_space_def digit_def)

lemma load_literals:
  "list_all (\<lambda>l. l \<noteq> 0) ls \<Longrightarrow> \<exists>e. load_loop (Some c) (concat (map (\<lambda>l. show_int l @ '' '') ls) @ s) False cls clauses =
     load_loop (Some e) s False (cls @ ls) clauses"
proof (induction ls arbitrary: c cls)
  case (Cons l ls)
  let ?rest = "concat (map (\<lambda>l. show_int l @ '' '') ls) @ s"
  have "load_loop (Some c) (show_int l @ CHR '' '' # ?rest) False cls clauses = load_loop (Some (CHR '' '')) ?rest False (cls @ [l]) clauses"
    using Cons.prems by (intro load_int) (simp_all add: digit_def)
  then show ?case using Cons.IH [of "CHR '' ''" "cls @ [l]"] Cons.prems by simp
qed auto

lemma load_clause:
  assumes "list_all (\<lambda>l. l \<noteq> 0) cls"
  shows "load_loop (Some c) (show_clause cls @ s) False [] clauses = load_loop (Some newline) s False [] (clauses @ [cls])"
proof -
  obtain e where "load_loop (Some c) (show_clause cls @ s) False [] clauses = load_loop (Some e) (CHR ''0'' # newline # s) False cls clauses"
    using load_literals [OF assms, of c "CHR ''0'' # newline # s" "[]" clauses] by (auto simp: show_clause_def)
  then show ?thesis by (simp add: load_zero newline_char)
qed

lemma load_clauses:
  "list_all (list_all (\<lambda>l. l \<noteq> 0)) cs \<Longrightarrow>
     \<exists>e. load_loop (Some c) (concat (map show_clause cs) @ s) False [] clauses = load_loop (Some e) s False [] (clauses @ cs)"
proof (induction cs arbitrary: c clauses)
  case (Cons cls cs)
  then show ?case using Cons.IH [of newline "clauses @ [cls]"] by (simp add: load_clause)
qed auto

lemma load_comment:
  assumes "comment_line l"
  shows "load_loop (Some c) (l @ newline # s) neg cls clauses = load_loop (Some newline) s neg cls clauses"
proof -
  obtain d ds where d: "l = d # ds" "d = CHR ''c'' \<or> d = CHR ''p''" "newline \<notin> set ds" "d \<noteq> newline"
    using assms by (cases l) (auto simp: comment_line_def)
  then show ?thesis by (subst load_loop.simps) (auto simp: skip_line_newline)
qed

lemma load_comments:
  "list_all comment_line ls \<Longrightarrow>
     \<exists>e. load_loop (Some c) (concat (map (\<lambda>l. l @ [newline]) ls) @ s) neg cls clauses = load_loop (Some e) s neg cls clauses"
  by (induction ls arbitrary: c) (auto simp: load_comment)

lemma load_formula:
  assumes "list_all comment_line comments" "list_all (list_all (\<lambda>l. l \<noteq> 0)) clauses"
  shows "\<exists>e. load_loop (Some c) (show_formula comments clauses @ s) False [] [] = load_loop (Some e) s False [] clauses"
proof -
  obtain e where "load_loop (Some c) (show_formula comments clauses @ s) False [] [] =
      load_loop (Some e) (concat (map show_clause clauses) @ s) False [] []"
    unfolding show_formula_def append_assoc using load_comments [OF assms(1)] by blast
  then show ?thesis using load_clauses [OF assms(2), of e s "[]"] by auto
qed

section \<open>The printed lines\<close>

fun split_from :: "string \<Rightarrow> string \<Rightarrow> string list" where
  "split_from l [] = []"
| "split_from l (c # s) = (if c = newline then l # split_from [] s else split_from (l @ [c]) s)"

abbreviation split_lines :: "string \<Rightarrow> string list" where
  "split_lines \<equiv> split_from []"

lemma split_from_line: "newline \<notin> set l \<Longrightarrow> split_from k (l @ newline # s) = (k @ l) # split_lines s"
  by (induction l arbitrary: k) auto

lemma split_line: "newline \<notin> set l \<Longrightarrow> split_lines (l @ newline # s) = l # split_lines s"
  using split_from_line [of l "[]" s] by simp

definition model_line :: "int list \<Rightarrow> string" where
  "model_line xs = (if xs = [] then [] else CHR ''v'' # concat (map (\<lambda>x. '' '' @ show_int x) xs))"

lemma model_line_simps:
  "model_line [] = []" "xs \<noteq> [] \<Longrightarrow> model_line (xs @ [x]) = model_line xs @ '' '' @ show_int x"
  "model_line [x] = ''v '' @ show_int x" "newline \<notin> set (model_line xs)" "(model_line xs = []) = (xs = [])"
  using no_newline_show_int by (auto simp: model_line_def newline_def)

lemma read_show_int:
  assumes "s = [] \<or> digit (hd s) = None"
  shows "read_int ('' '' @ show_int x @ s) = Some (x, s)"
proof -
  have sp: "is_space CHR '' ''" "\<not> is_space CHR ''-''" by (simp_all add: is_space_def)
  obtain c cs where c: "show_nat (nat \<bar>x\<bar>) = c # cs" "digit c \<noteq> None" using show_nat_hd [of "nat \<bar>x\<bar>"] by (cases "show_nat (nat \<bar>x\<bar>)") auto
  note n = digit_no_sign [OF c(2)]
  have d: "digits (c # cs @ s) 0 = (nat \<bar>x\<bar>, s)" using digits_show_nat [OF assms, of "nat \<bar>x\<bar>"] c(1) by simp
  show ?thesis
  proof (cases "x < 0")
    case True
    then show ?thesis using c n d sp by (simp add: read_int_def show_int_def)
  next
    case False
    then show ?thesis using c n d sp by (simp add: read_int_def show_int_def)
  qed
qed

lemma ints_numbers: "ints (concat (map (\<lambda>x. '' '' @ show_int x) xs)) = xs"
proof (induction xs)
  case Nil
  then show ?case by (simp add: ints.simps read_int_def)
next
  case (Cons x xs)
  have "concat (map (\<lambda>x. '' '' @ show_int x) xs) = [] \<or> digit (hd (concat (map (\<lambda>x. '' '' @ show_int x) xs))) = None"
    by (cases xs) (simp_all add: digit_def)
  from read_show_int [OF this, of x] show ?case using Cons by (subst ints.simps) simp
qed

lemma ints_model_line: "ints (tl (model_line xs)) = xs"
  using ints_numbers [of xs] ints_numbers [of "[]"] by (simp add: model_line_def)

definition model_text :: "int list \<Rightarrow> string list \<Rightarrow> bool" where
  "model_text xs ls \<longleftrightarrow> list_all (\<lambda>l. length l \<le> 80 \<and> take 1 l = ''v'') ls \<and> concat (map (\<lambda>l. ints (tl l)) ls) = xs"

lemma model_text_Cons:
  "ys \<noteq> [] \<Longrightarrow> length (model_line ys) \<le> 80 \<Longrightarrow> model_text xs ls \<Longrightarrow> model_text (ys @ xs) (model_line ys # ls)"
  using ints_model_line [of ys] by (simp add: model_text_def) (simp add: model_line_def)

lemma print_loop_lines:
  "list_all (\<lambda>x. intWidth x \<le> 78) xs \<Longrightarrow> length (model_line ys) \<le> 80 \<Longrightarrow> ys \<noteq> [] \<or> xs \<noteq> [] \<Longrightarrow>
     model_text (ys @ xs) (split_lines (model_line ys @ print_loop (length (model_line ys)) xs))"
proof (induction xs arbitrary: ys)
  case Nil
  then have "model_text (ys @ []) [model_line ys]" by (intro model_text_Cons) (simp_all add: model_text_def)
  then show ?case using split_line [of "model_line ys" "[]"] by (simp add: model_line_simps)
next
  case (Cons x xs)
  have w: "intWidth x \<le> 78" and ws: "list_all (\<lambda>x. intWidth x \<le> 78) xs" using Cons.prems(1) by simp_all
  have one: "length (model_line [x]) \<le> 80" using w by (simp add: model_line_simps length_show_int)
  note single = Cons.IH [OF ws one]
  show ?case
  proof (cases "length (model_line ys) + 1 + intWidth x > 80")
    case True
    then have ys: "ys \<noteq> []" using w by (auto simp: model_line_simps)
    have e: "model_line ys @ print_loop (length (model_line ys)) (x # xs) =
        model_line ys @ newline # model_line [x] @ print_loop (length (model_line [x])) xs"
      using True by (simp add: model_line_simps)
    have "model_text (ys @ [x] @ xs) (model_line ys # split_lines (model_line [x] @ print_loop (length (model_line [x])) xs))"
      using ys Cons.prems(2) single by (intro model_text_Cons) simp_all
    then show ?thesis unfolding e by (simp add: split_line model_line_simps(4))
  next
    case False
    show ?thesis
    proof (cases "ys = []")
      case True
      then have "model_line ys @ print_loop (length (model_line ys)) (x # xs) = model_line [x] @ print_loop (length (model_line [x])) xs"
        using False by (simp add: model_line_simps)
      then show ?thesis using single True by simp
    next
      case ys: False
      have l: "length (model_line (ys @ [x])) \<le> 80" using False ys by (simp add: model_line_simps length_show_int)
      have "model_line ys @ print_loop (length (model_line ys)) (x # xs) = model_line (ys @ [x]) @ print_loop (length (model_line (ys @ [x]))) xs"
        using False ys by (simp add: model_line_simps)
      then show ?thesis using Cons.IH [OF ws l] by simp
    qed
  qed
qed

section \<open>The properties\<close>



text \<open>
  C39: a comment on the last line has to end with a line feed.  Without one the loop that skips the
  line reads the end of the file again and again, and painless never starts.
\<close>

theorem load_hangs:
  assumes "list_all comment_line comments" "list_all (list_all (\<lambda>l. l \<noteq> 0)) clauses" "newline \<notin> set l"
  shows "loadFormulaToSolvers (Some (show_formula comments clauses @ CHR ''c'' # l)) = None"
proof -
  obtain e where "load_loop (Some CHR 0x00) (show_formula comments clauses @ CHR ''c'' # l) False [] [] =
      load_loop (Some e) (CHR ''c'' # l) False [] clauses"
    using load_formula [OF assms(1,2), of "CHR 0x00" "CHR ''c'' # l"] by auto
  moreover have "skip_line (Some CHR ''c'') l = None"
    using skip_line_returns [of "Some CHR ''c''" l] assms(3) by (cases "skip_line (Some CHR ''c'') l") (auto simp: newline_def)
  then have "load_loop (Some e) (CHR ''c'' # l) False [] clauses = None" by (subst load_loop.simps) simp
  ultimately show ?thesis by (simp add: loadFormulaToSolvers_def)
qed

theorem load_hangs_witness: "loadFormulaToSolvers (Some (show_formula [] [[1]] @ ''c end'')) = None"
  by (rule load_hangs) (simp_all add: newline_def)

text \<open>
  a printed model can be read back: every line begins with v and has at most 80 characters, and
  the numbers behind the v are those of the model and a final 0.
\<close>

theorem printModel_lines:
  assumes "list_all (\<lambda>x. intWidth x \<le> 78) model"
  shows "model_text (model @ [0]) (split_lines (printModel model))"
proof -
  have "list_all (\<lambda>x. intWidth x \<le> 78) (model @ [0])" using assms by (simp add: intWidth_def)
  then have "model_text ([] @ model @ [0]) (split_lines (model_line [] @ print_loop (length (model_line [])) (model @ [0])))"
    by (rule print_loop_lines) (simp_all add: model_line_simps)
  then show ?thesis by (simp add: printModel_def model_line_simps)
qed

theorem printModel_lines_witness: "model_text [1, -2, 0] (split_lines (printModel [1, -2]))"
  using printModel_lines [of "[1, -2]"] by (simp add: intWidth_def log10_floor.simps)

end
