(* ===== verification/Pl_Setup.thy ===== *)
theory Pl_Setup
  imports Lsq_Text
begin

text \<open>
  The start of painless, src/painless-v2/painless-src: the parameters (utils/Parameters.h), the
  creation and the diversification of the solvers (solvers/SolverFactory.cpp), the sharers and the
  working strategy that main of painless.cpp builds, and the queue of jobs
  (working/SimpleWorkingQueue.cpp).  Solvers are known by their number and type; what they do with
  a phase is theirs.  None is a use of an element behind the end of a vector, or of a pointer that
  is not set.  The number of solvers that the memory allows is a parameter; rnd s t is the
  value of the call t of rand after srand(s).
\<close>

section \<open>Parameters\<close>

record Parameters =
  filename :: "string option"
  params :: "string \<rightharpoonup> string"

text \<open>An argument that begins with the equals sign is its own name.\<close>

definition init_arg :: "string \<Rightarrow> Parameters \<Rightarrow> Parameters" where
  "init_arg arg p =
     (if take 1 arg \<noteq> ''-'' \<and> filename p = None then p\<lparr>filename := Some arg\<rparr>
      else
        (case dropWhile (\<lambda>c. c \<noteq> CHR ''='') arg of
           [] \<Rightarrow>
             (if params p (tl arg) = None then p\<lparr>params := (params p)(tl arg \<mapsto> [])\<rparr> else p)
         | _ # right \<Rightarrow>
             let left = takeWhile (\<lambda>c. c \<noteq> CHR ''='') arg
             in p\<lparr>params := (params p)((if left = [] then right else tl left) \<mapsto> right)\<rparr>))"

definition Parameters_init :: "string list \<Rightarrow> Parameters" where
  "Parameters_init argv = fold init_arg (tl argv) \<lparr>filename = None, params = Map.empty\<rparr>"

definition isSet :: "Parameters \<Rightarrow> string \<Rightarrow> bool" where
  "isSet p name = (params p name \<noteq> None)"

definition getParam :: "Parameters \<Rightarrow> string \<Rightarrow> string \<Rightarrow> string" where
  "getParam p name defaultValue = (if isSet p name then the (params p name) else defaultValue)"

definition atoi :: "string \<Rightarrow> int" where
  "atoi s = (case read_int s of None \<Rightarrow> 0 | Some (v, _) \<Rightarrow> v)"

definition getIntParam :: "Parameters \<Rightarrow> string \<Rightarrow> int \<Rightarrow> int" where
  "getIntParam p name defaultValue = (if isSet p name then atoi (the (params p name)) else defaultValue)"

section \<open>The queue of jobs\<close>

type_synonym jobs = "int list list"

definition pushJob :: "int list \<Rightarrow> jobs \<Rightarrow> jobs" where
  "pushJob guidingPath queue = queue @ [guidingPath]"

definition popJob :: "jobs \<Rightarrow> (int list \<times> jobs) option" where
  "popJob queue = (case queue of [] \<Rightarrow> None | job # queue \<Rightarrow> Some (job, queue))"

section \<open>Diversification\<close>

text \<open>A call of setPhase: the solver, the variable and the phase.\<close>

type_synonym setPhase = "nat \<times> nat \<times> bool"

function sparse_loop :: "nat \<Rightarrow> nat \<Rightarrow> nat \<Rightarrow> nat \<Rightarrow> setPhase list" where
  "sparse_loop n vars sid var =
     (if n \<noteq> 0 \<and> var + n < vars then (sid, var + sid, True) # sparse_loop n vars sid (var + n) else [])"
  by pat_completeness auto
termination by (relation "measure (\<lambda>(n, vars, sid, var). vars - var)") auto

declare sparse_loop.simps [simp del]

definition sparseDiversification :: "nat \<Rightarrow> nat \<Rightarrow> setPhase list" where
  "sparseDiversification n vars = concat (map (\<lambda>sid. sparse_loop n vars sid 1) [0..<n])"

definition randomDiversification :: "(nat \<Rightarrow> nat \<Rightarrow> nat) \<Rightarrow> nat \<Rightarrow> nat \<Rightarrow> nat \<Rightarrow> setPhase list" where
  "randomDiversification rnd seed n vars =
     map (\<lambda>(sid, var). (sid, var, rnd seed (sid * vars + (var - 1)) mod 2 = 1)) (List.product [0..<n] [1..<vars + 1])"

fun sparse_random_loop :: "(nat \<Rightarrow> nat) \<Rightarrow> nat \<Rightarrow> nat \<Rightarrow> nat \<Rightarrow> nat list \<Rightarrow> setPhase list" where
  "sparse_random_loop r n sid t [] = []"
| "sparse_random_loop r n sid t (var # vars) =
     (if r t mod n = 0 then (sid, var, r (t + 1) mod 2 = 1) # sparse_random_loop r n sid (t + 2) vars
      else sparse_random_loop r n sid (t + 1) vars)"

definition sparseRandomDiversification :: "(nat \<Rightarrow> nat \<Rightarrow> nat) \<Rightarrow> nat \<Rightarrow> nat \<Rightarrow> setPhase list" where
  "sparseRandomDiversification rnd n vars =
     concat (map (\<lambda>sid. sparse_random_loop (rnd sid) n sid 0 [1..<vars + 1]) [0..<n])"

fun bin_log :: "nat \<Rightarrow> nat" where
  "bin_log tmp = (if tmp > 0 then bin_log (tmp div 2) + 1 else 0)"

declare bin_log.simps [simp del]

definition binValueDiversification :: "nat \<Rightarrow> nat \<Rightarrow> setPhase list" where
  "binValueDiversification n vars =
     map (\<lambda>(sid, var). (sid, var, odd (sid div 2 ^ (var mod bin_log n)))) (List.product [0..<n] [1..<vars])"

section \<open>The solvers\<close>

datatype SolverType = GLUCOSE | LINGELING | MAPLE | MINISAT

type_synonym solver = "nat \<times> SolverType"

text \<open>The next number is threaded through.\<close>

definition createSolver :: "SolverType \<Rightarrow> nat \<Rightarrow> solver \<times> nat" where
  "createSolver type ids = ((ids, type), ids + 1)"

definition cloneSolver :: "solver \<Rightarrow> nat \<Rightarrow> solver option \<times> nat" where
  "cloneSolver other ids = (if snd other = MINISAT then None else Some (ids, snd other), ids + 1)"

text \<open>n further solvers: clones of a solver, or new ones.\<close>

fun clones :: "nat \<Rightarrow> solver \<Rightarrow> nat \<Rightarrow> solver option list \<times> nat" where
  "clones 0 other ids = ([], ids)"
| "clones (Suc n) other ids =
     (let (s, ids) = cloneSolver other ids; (ss, ids) = clones n other ids in (s # ss, ids))"

definition createCloned :: "SolverType \<Rightarrow> nat \<Rightarrow> nat \<Rightarrow> solver option list \<times> nat" where
  "createCloned type nbSolvers ids =
     (let (s, ids) = createSolver type ids; (ss, ids) = clones (nbSolvers - 1) s ids in (Some s # ss, ids))"

definition createGlucoseSolvers :: "nat \<Rightarrow> nat \<Rightarrow> nat \<Rightarrow> solver option list \<times> nat" where
  "createGlucoseSolvers maxMemorySolvers nbSolvers = createCloned GLUCOSE (min nbSolvers maxMemorySolvers)"

definition createMapleSolvers :: "nat \<Rightarrow> nat \<Rightarrow> nat \<Rightarrow> solver option list \<times> nat" where
  "createMapleSolvers maxMemorySolvers nbSolvers = createCloned MAPLE (min nbSolvers maxMemorySolvers)"

definition createLingelingSolvers :: "nat \<Rightarrow> nat \<Rightarrow> solver option list \<times> nat" where
  "createLingelingSolvers nbSolvers = createCloned LINGELING nbSolvers"

fun createMiniSatSolvers :: "nat \<Rightarrow> nat \<Rightarrow> solver option list \<times> nat" where
  "createMiniSatSolvers 0 ids = ([], ids)"
| "createMiniSatSolvers (Suc n) ids =
     (let (s, ids) = createSolver MINISAT ids; (ss, ids) = createMiniSatSolvers n ids in (Some s # ss, ids))"

text \<open>The solvers of the combination: glucose, lingeling and minisat in turn.\<close>

definition combo_solver :: "nat \<Rightarrow> solver option list \<Rightarrow> nat \<Rightarrow> solver option \<times> nat" where
  "combo_solver i solvers ids =
     (if i mod 3 = 2 then apfst Some (createSolver MINISAT ids)
      else if i < 2 then apfst Some (createSolver (if i = 0 then GLUCOSE else LINGELING) ids)
      else (case solvers ! (i mod 3) of None \<Rightarrow> (None, ids) | Some other \<Rightarrow> cloneSolver other ids))"

fun combo_loop :: "nat \<Rightarrow> solver option list \<Rightarrow> nat \<Rightarrow> solver option list \<times> nat" where
  "combo_loop 0 solvers ids = (solvers, ids)"
| "combo_loop (Suc n) solvers ids =
     (let (s, ids) = combo_solver (length solvers) solvers ids in combo_loop n (solvers @ [s]) ids)"

definition createComboSolvers :: "nat \<Rightarrow> nat \<Rightarrow> solver option list \<times> nat" where
  "createComboSolvers nbSolvers = combo_loop nbSolvers []"

section \<open>Main\<close>

datatype SharingKind = SimpleSharing | HordeSatSharing

record SharerSetup =
  sharing :: SharingKind
  producers :: "solver option list"
  consumers :: "solver option list"

datatype Working =
    SequentialWorker "solver option"
  | Portfolio "Working list"
  | CubeAndConquer nat "Working list"
  | DivideAndConquer "Working list"

text \<open>The element i of a vector.\<close>

definition at :: "'a list \<Rightarrow> nat \<Rightarrow> 'a option" where
  "at xs i = (if i < length xs then Some (xs ! i) else None)"

definition first_n :: "nat \<Rightarrow> 'a list \<Rightarrow> 'a list option" where
  "first_n n xs = (if n \<le> length xs then Some (take n xs) else None)"

definition number_of_solvers :: "nat \<Rightarrow> int \<Rightarrow> int \<Rightarrow> nat" where
  "number_of_solvers cpus wkrStrat copyMode =
     (if wkrStrat = 2 \<or> wkrStrat = 5 \<or> wkrStrat = 4 \<and> copyMode = 2 then 1
      else if wkrStrat = 3 then cpus div 3 else cpus)"

definition create_solvers :: "string \<Rightarrow> nat \<Rightarrow> nat \<Rightarrow> solver option list \<times> nat" where
  "create_solvers solverType maxMemorySolvers n =
     (if solverType = ''glucose'' then createGlucoseSolvers maxMemorySolvers n 0
      else if solverType = ''lingeling'' then createLingelingSolvers n 0
      else if solverType = ''maple'' then createMapleSolvers maxMemorySolvers n 0
      else if solverType = ''combo'' then createComboSolvers n 0
      else createMiniSatSolvers n 0)"

text \<open>With strategy 3, a lingeling solver for the cubes is added.\<close>

definition all_solvers :: "nat \<Rightarrow> string \<Rightarrow> nat \<Rightarrow> int \<Rightarrow> int \<Rightarrow> solver option list" where
  "all_solvers cpus solverType maxMemorySolvers wkrStrat copyMode =
     (case create_solvers solverType maxMemorySolvers (number_of_solvers cpus wkrStrat copyMode) of
        (solvers, ids) \<Rightarrow> if wkrStrat = 3 then solvers @ [Some (fst (createSolver LINGELING ids))] else solvers)"

definition make_sharers :: "int \<Rightarrow> nat \<Rightarrow> nat \<Rightarrow> solver option list \<Rightarrow> SharerSetup list option" where
  "make_sharers shrStrat cpus nSolvers solvers =
     (if shrStrat = 1 then Some [\<lparr>sharing = SimpleSharing, producers = solvers, consumers = solvers\<rparr>]
      else if shrStrat = 2 then
        map_option (map (\<lambda>s. \<lparr>sharing = HordeSatSharing, producers = [s], consumers = solvers\<rparr>)) (first_n cpus solvers)
      else if shrStrat = 3 then Some [\<lparr>sharing = HordeSatSharing, producers = solvers, consumers = solvers\<rparr>]
      else if shrStrat = 4 then
        (case (first_n nSolvers solvers, at solvers nSolvers) of
           (Some from, Some s) \<Rightarrow>
             Some [\<lparr>sharing = SimpleSharing, producers = from, consumers = solvers\<rparr>,
                   \<lparr>sharing = HordeSatSharing, producers = [s], consumers = solvers\<rparr>]
         | _ \<Rightarrow> None)
      else Some [])"

definition make_working :: "int \<Rightarrow> nat \<Rightarrow> nat \<Rightarrow> int \<Rightarrow> solver option list \<Rightarrow> Working option" where
  "make_working wkrStrat cpus nSolvers copyMode solvers =
     (if wkrStrat = 1 then map_option (\<lambda>ss. Portfolio (map SequentialWorker ss)) (first_n cpus solvers)
      else if wkrStrat = 2 then map_option (\<lambda>s. CubeAndConquer cpus [SequentialWorker s]) (at solvers 0)
      else if wkrStrat = 3 then
        (case (first_n nSolvers solvers, at solvers nSolvers) of
           (Some ss, Some s) \<Rightarrow>
             Some (Portfolio [Portfolio (map SequentialWorker ss), CubeAndConquer (cpus - nSolvers) [SequentialWorker s]])
         | _ \<Rightarrow> None)
      else if wkrStrat = 4 then
        (if copyMode = 2
         then map_option (\<lambda>s. DivideAndConquer (SequentialWorker s # replicate (cpus - 1) (SequentialWorker None))) (at solvers 0)
         else map_option (\<lambda>ss. DivideAndConquer (map SequentialWorker ss)) (first_n cpus solvers))
      else None)"

text \<open>Main, up to the launch of the strategy.\<close>

definition main_setup :: "nat \<Rightarrow> Parameters \<Rightarrow> (SharerSetup list \<times> Working) option" where
  "main_setup maxMemorySolvers p =
     (let cpus = nat (getIntParam p ''c'' 4);
          wkrStrat = getIntParam p ''wkr-strat'' 1;
          copyMode = getIntParam p ''copy-mode'' 1;
          nSolvers = number_of_solvers cpus wkrStrat copyMode;
          solvers = all_solvers cpus (getParam p ''solver'' []) maxMemorySolvers wkrStrat copyMode
      in case make_sharers (getIntParam p ''shr-strat'' 0) cpus nSolvers solvers of
           None \<Rightarrow> None
         | Some sharers \<Rightarrow> map_option (Pair sharers) (make_working wkrStrat cpus nSolvers copyMode solvers))"

section \<open>The numbers of the solvers\<close>

lemma clones_numbers:
  "snd s \<noteq> MINISAT \<Longrightarrow> clones n s ids = (map (\<lambda>i. Some (i, snd s)) [ids..<ids + n], ids + n)"
proof (induction n arbitrary: ids)
  case (Suc n)
  have "[ids..<ids + Suc n] = ids # [ids + 1..<ids + 1 + n]" by (simp add: upt_conv_Cons)
  then show ?case using Suc by (simp add: cloneSolver_def)
qed simp

lemma createCloned_numbers:
  "type \<noteq> MINISAT \<Longrightarrow> createCloned type n ids = (map (\<lambda>i. Some (i, type)) [ids..<ids + max 1 n], ids + max 1 n)"
proof -
  assume "type \<noteq> MINISAT"
  moreover have k: "max 1 n = Suc (n - 1)" by (simp add: max_def)
  moreover have "[ids..<ids + Suc (n - 1)] = ids # [ids + 1..<ids + 1 + (n - 1)]" by (simp add: upt_conv_Cons del: upt_Suc)
  ultimately show ?thesis unfolding k by (simp add: createCloned_def createSolver_def clones_numbers del: upt_Suc)
qed

lemma createMiniSatSolvers_numbers:
  "createMiniSatSolvers n ids = (map (\<lambda>i. Some (i, MINISAT)) [ids..<ids + n], ids + n)"
proof (induction n arbitrary: ids)
  case (Suc n)
  have "[ids..<ids + Suc n] = ids # [ids + 1..<ids + 1 + n]" by (simp add: upt_conv_Cons)
  then show ?case using Suc by (simp add: createSolver_def)
qed simp

definition combo_type :: "nat \<Rightarrow> SolverType" where
  "combo_type i = (if i mod 3 = 0 then GLUCOSE else if i mod 3 = 1 then LINGELING else MINISAT)"

lemma combo_solver_number:
  "combo_solver k (map (\<lambda>i. Some (i, combo_type i)) [0..<k]) k = (Some (k, combo_type k), k + 1)"
proof (cases "k mod 3 = 2")
  case True
  then show ?thesis by (simp add: combo_solver_def createSolver_def combo_type_def)
next
  case False
  then have m: "k mod 3 = 0 \<or> k mod 3 = 1" by linarith
  show ?thesis
  proof (cases "k < 2")
    case True
    then have "k = 0 \<or> k = 1" by linarith
    then show ?thesis by (auto simp: combo_solver_def createSolver_def combo_type_def)
  next
    case k: False
    then have "k mod 3 < k" using m by linarith
    then have "map (\<lambda>i. Some (i, combo_type i)) [0..<k] ! (k mod 3) = Some (k mod 3, combo_type (k mod 3))" by simp
    then show ?thesis using False k m by (auto simp: combo_solver_def cloneSolver_def combo_type_def)
  qed
qed

lemma combo_loop_numbers:
  "combo_loop n (map (\<lambda>i. Some (i, combo_type i)) [0..<k]) k = (map (\<lambda>i. Some (i, combo_type i)) [0..<k + n], k + n)"
proof (induction n arbitrary: k)
  case (Suc n)
  then show ?case using Suc [of "k + 1"] combo_solver_number [of k] by simp
qed simp

definition created :: "string \<Rightarrow> nat \<Rightarrow> nat \<Rightarrow> nat" where
  "created solverType maxMemorySolvers n =
     (if solverType = ''glucose'' \<or> solverType = ''maple'' then max 1 (min n maxMemorySolvers)
      else if solverType = ''lingeling'' then max 1 n else n)"

definition kind_of :: "string \<Rightarrow> nat \<Rightarrow> SolverType" where
  "kind_of solverType i =
     (if solverType = ''glucose'' then GLUCOSE else if solverType = ''maple'' then MAPLE
      else if solverType = ''lingeling'' then LINGELING else if solverType = ''combo'' then combo_type i else MINISAT)"

lemma create_solvers_numbers:
  "create_solvers ty mm n = (map (\<lambda>i. Some (i, kind_of ty i)) [0..<created ty mm n], created ty mm n)"
  using combo_loop_numbers [of n 0]
  by (simp add: create_solvers_def createGlucoseSolvers_def createMapleSolvers_def createLingelingSolvers_def createComboSolvers_def
      createCloned_numbers createMiniSatSolvers_numbers created_def kind_of_def)

lemma length_all_solvers:
  "length (all_solvers cpus ty mm w c) = created ty mm (number_of_solvers cpus w c) + (if w = 3 then 1 else 0)"
  by (simp add: all_solvers_def create_solvers_numbers)

section \<open>The properties\<close>

text \<open>
  of several arguments -name=value for a parameter the last one counts, and no other argument
  changes it.
\<close>

theorem Parameters_init_last:
  assumes "list_all (\<lambda>(n, v). CHR ''='' \<notin> set n) ps"
  shows "params (Parameters_init (prog # map (\<lambda>(n, v). ''-'' @ n @ ''='' @ v) ps)) = map_of (rev ps)"
proof -
  have one: "init_arg (''-'' @ n @ ''='' @ v) p = p\<lparr>params := (params p)(n \<mapsto> v)\<rparr>" if n: "CHR ''='' \<notin> set n" for n v p
  proof -
    have "dropWhile (\<lambda>c. c \<noteq> CHR ''='') (n @ ''='' @ v) = ''='' @ v" "takeWhile (\<lambda>c. c \<noteq> CHR ''='') (n @ ''='' @ v) = n"
      using n by (auto simp: dropWhile_append3 takeWhile_tail)
    then show ?thesis by (simp add: init_arg_def)
  qed
  have "params (fold init_arg (map (\<lambda>(n, v). ''-'' @ n @ ''='' @ v) ps) p) = params p ++ map_of (rev ps)" for p
    using assms
  proof (induction ps arbitrary: p)
    case (Cons x ps)
    obtain n v where x: "x = (n, v)" by (cases x)
    then have "params (fold init_arg (map (\<lambda>(n, v). ''-'' @ n @ ''='' @ v) (x # ps)) p) = (params p)(n \<mapsto> v) ++ map_of (rev ps)"
      using Cons one [of n v p] by simp
    also have "\<dots> = params p ++ map_of (rev (x # ps))" by (simp add: x map_add_def fun_eq_iff split: option.splits)
    finally show ?case .
  qed simp
  then show ?thesis by (simp add: Parameters_init_def)
qed

theorem Parameters_init_last_witness:
  "params (Parameters_init (''painless'' # map (\<lambda>(n, v). ''-'' @ n @ ''='' @ v) [(''c'', ''8''), (''d'', ''1''), (''c'', ''2'')])) = map_of [(''c'', ''2''), (''d'', ''1''), (''c'', ''8'')]"
  using Parameters_init_last [of "[(''c'', ''8''), (''d'', ''1''), (''c'', ''2'')]" "''painless''"] by simp

lemma sparse_loop_vars:
  "(i, v, b) \<in> set (sparse_loop n vars sid var) \<Longrightarrow> sid < n \<Longrightarrow> i = sid \<and> v mod n = (var + sid) mod n \<and> v < vars \<and> b"
proof (induction n vars sid var rule: sparse_loop.induct)
  case (1 n vars sid var)
  show ?case
  proof (cases "n \<noteq> 0 \<and> var + n < vars")
    case True
    then have "(i, v, b) = (sid, var + sid, True) \<or> (i, v, b) \<in> set (sparse_loop n vars sid (var + n))"
      using "1.prems"(1) by (subst (asm) sparse_loop.simps) auto
    then show ?thesis
    proof
      assume "(i, v, b) \<in> set (sparse_loop n vars sid (var + n))"
      then have "i = sid \<and> v mod n = (var + n + sid) mod n \<and> v < vars \<and> b" using "1.IH" True "1.prems"(2) by blast
      moreover have "(var + n + sid) mod n = (var + sid) mod n" by (metis add.assoc add.commute mod_add_self1)
      ultimately show ?thesis by simp
    qed (use True "1.prems"(2) in auto)
  next
    case False
    then show ?thesis using "1.prems"(1) by (subst (asm) sparse_loop.simps) auto
  qed
qed

lemma sparseDiversification_disjoint:
  assumes "(sid, v, b) \<in> set (sparseDiversification n vars)" "(sid', v, b') \<in> set (sparseDiversification n vars)"
  shows "sid = sid'"
proof -
  have s: "sid < n \<and> v mod n = (1 + sid) mod n" if "(sid, v, b) \<in> set (sparseDiversification n vars)" for sid b
    using that sparse_loop_vars by (fastforce simp: sparseDiversification_def)
  have "(1 + sid) mod n = (1 + sid') mod n" "sid < n" "sid' < n" using s [OF assms(1)] s [OF assms(2)] by auto
  then show ?thesis by (simp add: mod_Suc split: if_splits)
qed

lemma bin_log_bound: "n < 2 ^ bin_log n"
proof (induction n rule: less_induct)
  case (less n)
  show ?case
  proof (cases "n = 0")
    case False
    then have "n div 2 < 2 ^ bin_log (n div 2)" using less by simp
    then have "n < 2 * 2 ^ bin_log (n div 2)" by linarith
    then show ?thesis using False by (simp add: bin_log.simps [of n])
  qed simp
qed

lemma bits_differ: "(a :: nat) < 2 ^ k \<Longrightarrow> b < 2 ^ k \<Longrightarrow> a \<noteq> b \<Longrightarrow> \<exists>i<k. odd (a div 2 ^ i) \<noteq> odd (b div 2 ^ i)"
proof (induction k arbitrary: a b)
  case (Suc k)
  show ?case
  proof (cases "odd a = odd b")
    case True
    then have "a div 2 \<noteq> b div 2" using Suc.prems(3) by (metis even_two_times_div_two odd_two_times_div_two_succ)
    then obtain i where "i < k" "odd (a div 2 div 2 ^ i) \<noteq> odd (b div 2 div 2 ^ i)"
      using Suc.IH [of "a div 2" "b div 2"] Suc.prems(1,2) by (metis less_mult_imp_div_less mult.commute power_Suc)
    then show ?thesis by (intro exI [of _ "Suc i"]) (simp add: div_mult2_eq)
  qed (intro exI [of _ 0], simp)
qed simp

text \<open>
  no two solvers are diversified alike: with more variables than the binary length of the
  number of solvers, two different solvers get different phases for some variable.
\<close>

theorem binValueDiversification_separates:
  assumes "i < n" "j < n" "i \<noteq> j" "bin_log n < vars"
  shows "\<exists>v b. (i, v, b) \<in> set (binValueDiversification n vars) \<and> (j, v, \<not> b) \<in> set (binValueDiversification n vars)"
proof -
  let ?l = "bin_log n"
  have "i < 2 ^ ?l" "j < 2 ^ ?l" using bin_log_bound [of n] assms(1,2) by linarith+
  then obtain b where b: "b < ?l" "odd (i div 2 ^ b) \<noteq> odd (j div 2 ^ b)" using bits_differ assms(3) by blast
  define v where "v = (if b = 0 then ?l else b)"
  have v: "v mod ?l = b" "v \<in> {1..<vars}" using b(1) assms(4) by (auto simp: v_def)
  have "(k, v, odd (k div 2 ^ b)) \<in> set (binValueDiversification n vars)" if "k < n" for k
    using that v by (force simp: binValueDiversification_def)
  from this [OF assms(1)] this [OF assms(2)] show ?thesis
    using b(2) by (intro exI [of _ v] exI [of _ "odd (i div 2 ^ b)"]) simp
qed

theorem binValueDiversification_separates_witness:
  "\<exists>v b. (1, v, b) \<in> set (binValueDiversification 4 5) \<and> (3, v, \<not> b) \<in> set (binValueDiversification 4 5)"
  by (rule binValueDiversification_separates) (simp_all add: bin_log.simps)


definition ex_params :: Parameters where
  "ex_params = Parameters_init [''painless'', ''-solver=glucose'', ''-c=2'', ''f.cnf'']"

definition ex_cubes :: Parameters where
  "ex_cubes = Parameters_init [''painless'', ''-wkr-strat=2'', ''-shr-strat=2'', ''-c=2'', ''f.cnf'']"

lemma atoi_digit: "digit c = Some d \<Longrightarrow> atoi [c] = int d"
proof -
  assume d: "digit c = Some d"
  then have "\<not> is_space c" "c \<noteq> CHR ''-''" "c \<noteq> CHR ''+''" using digit_no_sign [of c] by auto
  then show ?thesis using d by (simp add: atoi_def read_int_def)
qed

lemma ex_params_values:
  "getIntParam ex_params ''c'' 4 = 2" "getIntParam ex_params ''wkr-strat'' 1 = 1" "getIntParam ex_params ''shr-strat'' 0 = 0"
  "getParam ex_params ''solver'' [] = ''glucose''"
  "getIntParam ex_cubes ''c'' 4 = 2" "getIntParam ex_cubes ''wkr-strat'' 1 = 2" "getIntParam ex_cubes ''shr-strat'' 0 = 2"
  by (simp_all add: ex_params_def ex_cubes_def Parameters_init_def init_arg_def getIntParam_def getParam_def isSet_def atoi_digit digit_def)


text \<open>
  strategy 2 of sharing needs a solver for every cpu, but cube and conquer, and divide and
  conquer with copies, create one: with two cpus or more main reads behind the end of the vector.
\<close>

theorem main_horde_out_of_range:
  assumes "getIntParam p ''wkr-strat'' 1 = 2 \<or> getIntParam p ''wkr-strat'' 1 = 4 \<and> getIntParam p ''copy-mode'' 1 = 2"
    "getIntParam p ''shr-strat'' 0 = 2" "1 < getIntParam p ''c'' 4"
  shows "main_setup mm p = None"
proof -
  let ?ss = "all_solvers (nat (getIntParam p ''c'' 4)) (getParam p ''solver'' []) mm (getIntParam p ''wkr-strat'' 1) (getIntParam p ''copy-mode'' 1)"
  have "length ?ss = 1" using assms(1) by (auto simp: length_all_solvers number_of_solvers_def created_def)
  then have "first_n (nat (getIntParam p ''c'' 4)) ?ss = None" using assms(3) by (simp add: first_n_def)
  then show ?thesis using assms(2) by (simp add: main_setup_def make_sharers_def Let_def)
qed

theorem main_horde_out_of_range_witness: "main_setup 51 ex_cubes = None"
  by (rule main_horde_out_of_range) (simp_all add: ex_params_values)

end
