(* ===== verification/Lgl_Const.thy ===== *)
theory Lgl_Const
  imports Lsq_Prelude
begin

text \<open>
  The compile time constants of src/painless-v2/lingeling/lglconst.h and the enumerations
  Tag, State and GTag of lglib.c, which the components of the solver share.  The constants of
  the scores are in Lgl_Flt.
\<close>

definition RMSHFT :: nat where "RMSHFT = 4"
definition REMOVED :: int where "REMOVED = INT_MAX"
definition NOTALIT :: int where "NOTALIT = INT_MAX div 2 ^ RMSHFT"
definition MAXVAR :: int where "MAXVAR = INT_MAX div 2 ^ RMSHFT - 2"
definition GLUESHFT :: nat where "GLUESHFT = 4"
definition POW2GLUE :: int where "POW2GLUE = 2 ^ GLUESHFT"
definition MAXGLUE :: int where "MAXGLUE = POW2GLUE - 1"
definition GLUEMASK :: int where "GLUEMASK = POW2GLUE - 1"
definition MAXREDLIDX :: int where "MAXREDLIDX = 2 ^ (31 - GLUESHFT) - 2"
definition MAXIRRLIDX :: int where "MAXIRRLIDX = 2 ^ (31 - RMSHFT) - 2"
definition MAXLDFW :: int where "MAXLDFW = 31"
definition REPMOD :: int where "REPMOD = 22"
definition FUNVAR :: int where "FUNVAR = 12"
definition FUNQUADS :: int where "FUNQUADS = 2 ^ nat (FUNVAR - 6)"
definition DEFSCOREXP :: int where "DEFSCOREXP = 500"

lemmas lgl_consts = RMSHFT_def REMOVED_def NOTALIT_def MAXVAR_def GLUESHFT_def POW2GLUE_def
  MAXGLUE_def GLUEMASK_def MAXREDLIDX_def MAXIRRLIDX_def FUNVAR_def FUNQUADS_def

text \<open>The low bits of a watch, a reason or a tagged literal.\<close>

definition FREEVAR :: int where "FREEVAR = 0"
definition FIXEDVAR :: int where "FIXEDVAR = 1"
definition EQUIVAR :: int where "EQUIVAR = 2"
definition ELIMVAR :: int where "ELIMVAR = 3"
definition DECISION :: int where "DECISION = 0"
definition UNITCS :: int where "UNITCS = 1"
definition OCCS :: int where "OCCS = 1"
definition BINCS :: int where "BINCS = 2"
definition TRNCS :: int where "TRNCS = 3"
definition LRGCS :: int where "LRGCS = 4"
definition MASKCS :: int where "MASKCS = 7"
definition REDCS :: int where "REDCS = 8"

lemmas lgl_tags = FREEVAR_def FIXEDVAR_def EQUIVAR_def ELIMVAR_def DECISION_def UNITCS_def OCCS_def
  BINCS_def TRNCS_def LRGCS_def MASKCS_def REDCS_def

datatype State = UNUSED | OPTSET | USED | READY | UNKNOWN | SATISFIED | EXTENDED
  | UNSATISFIED | FAILED | LOOKED | RESET

end
