(* ===== verification/Lgl_OptTab.thy ===== *)
theory Lgl_OptTab
  imports Lgl_Const
begin

text \<open>
  The option table of src/painless-v2/lingeling/lgloptl.h with struct Opt of lglopts.h, in
  three parts that are split between initial letters, and the facts on the table that hold by
  inspection of every line: ranges, distinct names, and the names that the code addresses
  as fields of struct Opts.
\<close>

section \<open>The table\<close>

record Opt =
  lng :: string
  oval :: int
  omin :: int
  omax :: int
  dflt :: int

definition optK :: int where "optK = 1000"
definition optM :: int where "optM = optK * optK"
definition optI :: int where "optI = INT_MAX"
definition optMG :: int where "optMG = MAXGLUE"

lemmas opt_consts = optK_def optM_def optI_def optMG_def

definition OPT :: "string \<Rightarrow> int \<Rightarrow> int \<Rightarrow> int \<Rightarrow> Opt" where
  "OPT l v mn mx = \<lparr>lng = l, oval = v, omin = mn, omax = mx, dflt = v\<rparr>"

definition opttab1 :: "Opt list" where
  "opttab1 = [
    OPT ''abstime'' 0 0 1,
    OPT ''activity'' 0 0 2,
    OPT ''agility'' 1 0 1,
    OPT ''agilitylim'' 70 0 100,
    OPT ''bate'' 1 0 1,
    OPT ''batewait'' 2 0 2,
    OPT ''bca'' 1 0 2,
    OPT ''bcaddlimldscale'' 2 (-7) 7,
    OPT ''bcamaxeff'' (10 * optM) 0 optI,
    OPT ''bcaminuse'' 100 0 optI,
    OPT ''bcawait'' 2 0 2,
    OPT ''bkwdocclim'' 100 0 optI,
    OPT ''bkwdresched'' 1 0 1,
    OPT ''bkwdroundlim'' 7 1 optI,
    OPT ''bkwdscale'' 100 1 10000,
    OPT ''blkboost'' 10 1 10000,
    OPT ''blkboostvlim'' (10 * optM) 0 optI,
    OPT ''blkclslim'' (1 * optM) 3 optI,
    OPT ''blklarge'' 1 0 1,
    OPT ''blkmaxeff'' (800 * optM) (-1) optI,
    OPT ''blkmineff'' (50 * optM) 0 optI,
    OPT ''blkocclim1'' (100 * optK) 1 optI,
    OPT ''blkocclim'' (1 * optM) 3 optI,
    OPT ''blkocclim2'' (10 * optK) 2 optI,
    OPT ''blkreleff'' 100 0 optK,
    OPT ''blkresched'' 1 0 1,
    OPT ''blkrtc'' 0 0 1,
    OPT ''blksmall'' 1 0 1,
    OPT ''blksuccessmaxwortc'' 6 1 optI,
    OPT ''blksuccessrat'' 100 1 optI,
    OPT ''block'' 1 0 1,
    OPT ''blockwait'' 1 0 1,
    OPT ''boost'' 1 0 1,
    OPT ''bumpsimp'' 1 0 1,
    OPT ''card'' 1 0 1,
    OPT ''cardcut'' 2 0 2,
    OPT ''cardexpam1'' 3 2 optI,
    OPT ''cardglue'' 0 (-1) MAXGLUE,
    OPT ''cardignused'' 0 0 1,
    OPT ''cardmaxeff'' (300 * optM) (-1) optI,
    OPT ''cardmaxlen'' 1000 0 optI,
    OPT ''cardmineff'' (2 * optM) 0 optI,
    OPT ''cardminlen'' 3 0 optI,
    OPT ''cardocclim1'' 300 0 optI,
    OPT ''cardocclim2'' 15 0 optI,
    OPT ''cardreleff'' 5 0 (10 * optK),
    OPT ''cardreschedint'' 10 1 optI,
    OPT ''carduse'' 2 0 3,
    OPT ''cardwait'' 0 0 2,
    OPT ''classify'' 2 0 3,
    OPT ''cce2wait'' 1 0 optI,
    OPT ''cce'' 3 0 3,
    OPT ''cce3wait'' 2 0 optI,
    OPT ''cceateint'' 2 1 optI,
    OPT ''cceboost'' 10 1 1000,
    OPT ''cceboostdel'' 3 0 100,
    OPT ''cceboostint'' 5 1 optI,
    OPT ''cceboostvlim'' (10 * optM) 0 optI,
    OPT ''ccemaxeff'' optI (-1) optI,
    OPT ''ccemaxround'' 3 0 optI,
    OPT ''ccemineff'' (30 * optM) 0 optI,
    OPT ''ccereleff'' 50 0 optK,
    OPT ''ccertc'' 0 0 2,
    OPT ''ccertcint'' 15 1 optI,
    OPT ''ccertcintvlim'' (2 * optM) 1 optI,
    OPT ''ccesuccessrat'' 100 1 optI,
    OPT ''ccewait'' 2 0 2,
    OPT ''check'' 0 0 3,
    OPT ''clim'' (-1) (-1) optI,
    OPT ''compact'' 0 0 2,
    OPT ''deco'' 1 0 1,
    OPT ''deco1opt'' 1 0 1,
    OPT ''decolim'' 100 0 optI,
    OPT ''decompose'' 1 0 1,
    OPT ''defragfree'' 50 10 optK,
    OPT ''defragint'' (10 * optM) 100 optI,
    OPT ''delmax'' 10 0 10,
    OPT ''dlim'' (-1) (-1) optI,
    OPT ''druplig'' 0 0 1,
    OPT ''drupligcheck'' 0 0 1,
    OPT ''drupligtrace'' 0 0 1,
    OPT ''drupligtraceorig'' 0 0 1]"

definition opttab2 :: "Opt list" where
  "opttab2 = [
    OPT ''elim'' 1 0 1,
    OPT ''elmaxeff'' (800 * optM) (-1) optI,
    OPT ''elmblk'' 1 0 1,
    OPT ''elmblkwait'' 1 0 1,
    OPT ''elmboost'' 20 1 1000,
    OPT ''elmboostdel'' 3 0 100,
    OPT ''elmboostint'' 5 1 optI,
    OPT ''elmboostvlim'' (4 * optM) 1 optI,
    OPT ''elmclslim'' (1 * optM) 3 optI,
    OPT ''elmfull'' 0 0 1,
    OPT ''elmineff'' (20 * optM) 0 optI,
    OPT ''elmlitslim'' 200 0 optI,
    OPT ''elmocclim1'' 1000 1 optI,
    OPT ''elmocclim'' (1 * optM) 3 optI,
    OPT ''elmocclim2'' 100 2 optI,
    OPT ''elmoccsumforced'' 0 0 10,
    OPT ''elmreleff'' 200 0 (10 * optK),
    OPT ''elmresched'' 0 0 7,
    OPT ''elmroundlim'' 3 1 optI,
    OPT ''elmrtc'' 0 0 2,
    OPT ''elmrtcint'' 10 1 optI,
    OPT ''elmrtcintvlim'' (500 * optK) 1 optI,
    OPT ''elmotfstr'' 1 0 1,
    OPT ''elmotfsub'' 1 0 1,
    OPT ''elmsuccessmaxwortc'' 4 1 optI,
    OPT ''elmsuccessrat'' 100 1 optI,
    OPT ''exitonabort'' 0 0 1,
    OPT ''factmax'' 100000 1 optI,
    OPT ''factor'' 3 0 3,
    OPT ''features'' 0 0 optI,
    OPT ''gauss'' 1 0 1,
    OPT ''gausscardweak'' 1 0 1,
    OPT ''gaussexptrn'' 1 0 1,
    OPT ''gaussextrall'' 1 0 1,
    OPT ''gaussmaxeff'' (50 * optM) (-1) optI,
    OPT ''gaussmaxor'' 20 2 64,
    OPT ''gaussmineff'' (2 * optM) 0 optI,
    OPT ''gaussreleff'' 2 0 (10 * optK),
    OPT ''gausswait'' 2 0 2,
    OPT ''gluekeep'' 4 1 optI,
    OPT ''gluekeepsize'' 15 1 optI,
    OPT ''gluemacdfast'' 5 0 32,
    OPT ''gluemacdslow'' 16 0 32,
    OPT ''gluemacdsmooth'' 3 0 32,
    OPT ''gluescale'' 4 1 5,
    OPT ''hbrdom'' 2 0 2,
    OPT ''import'' 1 0 1,
    OPT ''incredcint'' 1 1 optI,
    OPT ''incredconfslim'' 0 0 100,
    OPT ''incsavevisits'' 0 0 1,
    OPT ''inprocessing'' 1 0 1,
    OPT ''irrlim'' 1 0 1,
    OPT ''itsmacdfast'' 12 0 32,
    OPT ''itsmacdslow'' 18 0 32,
    OPT ''itsmacdsmooth'' 10 0 32,
    OPT ''jlevelmacdfast'' 12 0 32,
    OPT ''jlevelmacdslow'' 14 0 32,
    OPT ''jlevelmacdsmooth'' 10 0 32,
    OPT ''jwhred'' 1 0 2,
    OPT ''keepmaxglue'' 1 0 1,
    OPT ''keepmaxglueint'' 1 1 optI,
    OPT ''lhbr'' 1 0 1,
    OPT ''lkhd'' 2 (-1) 3,
    OPT ''locs'' 0 (-1) optI,
    OPT ''locsbanner'' 0 0 1,
    OPT ''locsboost'' 2 0 100,
    OPT ''locscint'' (10 * optK) 1 optI,
    OPT ''locsclim'' (1 * optM) 0 (optI div 2 ^ 8),
    OPT ''locset'' 2 0 2,
    OPT ''locsexport'' 1 0 1,
    OPT ''locsmaxeff'' 100000 0 optI,
    OPT ''locsmineff'' 1000 0 optI,
    OPT ''locsred'' 0 0 4,
    OPT ''locsreleff'' 5 0 100,
    OPT ''locsrtc'' 0 0 1,
    OPT ''locsvared'' 100 0 1000,
    OPT ''locswait'' 2 0 2,
    OPT ''log'' (-1) (-1) 5,
    OPT ''maxscaledglue'' MAXGLUE 0 MAXGLUE,
    OPT ''memlim'' (-1) (-1) optI,
    OPT ''minimize'' 2 0 2,
    OPT ''minlocalgluelim'' 200 0 optI,
    OPT ''minlocalsizelim'' 3000 0 optI,
    OPT ''minrecgluelim'' 100 0 optI,
    OPT ''minrecsizelim'' 1000 0 optI,
    OPT ''move'' 2 0 2,
    OPT ''otfs'' 1 0 1,
    OPT ''penmax'' 4 0 16,
    OPT ''phase'' 0 (-1) 1,
    OPT ''phaseluckfactor'' 200 100 (10 * optK),
    OPT ''phaselucklim'' 100 0 1000,
    OPT ''phaseluckmaxround'' 10 0 optI,
    OPT ''phasesave'' 1 (-1) 1,
    OPT ''plain'' 0 0 1,
    OPT ''plim'' (-1) (-1) optI,
    OPT ''poison'' 1 0 1,
    OPT ''prbasic'' 1 0 2,
    OPT ''prbasicmaxeff'' (400 * optM) (-1) optI,
    OPT ''prbasicmineff'' optM 0 optI,
    OPT ''prbasicreleff'' 50 0 (10 * optK),
    OPT ''prbasicroundlim'' 8 1 optI,
    OPT ''prbasicrtc'' 0 0 1,
    OPT ''prbrtc'' 0 0 1,
    OPT ''prbsimple'' 2 0 3,
    OPT ''prbsimpleboost'' 10 1 1000,
    OPT ''prbsimpleliftdepth'' 2 1 4,
    OPT ''prbsimplemaxeff'' (200 * optM) (-1) optI,
    OPT ''prbsimplemineff'' (2 * optM) 0 optI,
    OPT ''prbsimplereleff'' 40 0 (10 * optK),
    OPT ''prbsimplertc'' 0 0 1,
    OPT ''probe'' 1 0 1,
    OPT ''profile'' 1 0 4,
    OPT ''profilelong'' 0 0 1,
    OPT ''promote'' 1 0 1,
    OPT ''promotegluelim'' 8 0 optMG,
    OPT ''pure'' 1 0 1,
    OPT ''quatres'' 1 0 1,
    OPT ''quatreswait'' 2 0 2,
    OPT ''queuesort'' 1 0 1]"

definition opttab3 :: "Opt list" where
  "opttab3 = [
    OPT ''randec'' 0 0 1,
    OPT ''randecint'' 1000 2 (optI div 2),
    OPT ''redcls'' 1 0 1,
    OPT ''redclsglue'' 6 0 optI,
    OPT ''redclsize'' 30 0 optI,
    OPT ''redclsmaxdec'' 5 1 optI,
    OPT ''redclsmaxdepth'' 10 1 optI,
    OPT ''redclsmaxlrg'' 10 0 optI,
    OPT ''redclsmaxprops'' 100 0 optI,
    OPT ''redclstype'' 4 2 4,
    OPT ''reduce'' 1 0 1,
    OPT ''reducefixed'' 0 0 1,
    OPT ''reduceinc'' 300 1 (10 * optM),
    OPT ''reduceinit'' (2 * optK) 1 (100 * optM),
    OPT ''reducereset'' 0 0 2,
    OPT ''restart'' 1 0 1,
    OPT ''restartfixed'' 0 0 1,
    OPT ''restartblock'' 0 0 2,
    OPT ''restartblocklim'' 200 1 optK,
    OPT ''restartblockbound'' (10 * optK) 0 optI,
    OPT ''restartcheckforced'' 1 0 1,
    OPT ''restartdelay'' 1 0 1,
    OPT ''restartdelaylim'' 50 1 optK,
    OPT ''restartint'' 10 1 optI,
    OPT ''restartforcelim'' 115 1 optK,
    OPT ''restartforcemode'' 1 0 2,
    OPT ''restartpen1'' 1 0 1,
    OPT ''restartpen2'' 1 0 1,
    OPT ''restartpen3'' 1 0 1,
    OPT ''restartpenstab'' 1 0 1,
    OPT ''retireint'' 4 0 1000,
    OPT ''retiremin'' 1 0 optI,
    OPT ''retirenb'' 1 0 1,
    OPT ''reusetrail'' 1 0 1,
    OPT ''rmincpen'' 4 0 32,
    OPT ''scincinc'' 250 1 (10 * optK),
    OPT ''scincincdelta'' 10 0 (10 * optK),
    OPT ''scincincincint'' (100 * optK) 1 optI,
    OPT ''scincincmin'' 50 1 (10 * optK),
    OPT ''scincincmode'' 1 0 2,
    OPT ''scoreshift'' 24 0 64,
    OPT ''seed'' 0 0 optI,
    OPT ''simpbintinc'' 100 1 optI,
    OPT ''simpbintinclim'' (10 * optK) 1 optI,
    OPT ''simpcintdelay'' 2000 0 optI,
    OPT ''simpcintinc'' (20 * optK) 10 optM,
    OPT ''simpcintincdiv'' 1 0 3,
    OPT ''simpcintmaxhard'' (10 * optM) (-1) optI,
    OPT ''simpcintmaxsoft'' (1 * optM) (-1) optI,
    OPT ''simpidiv'' 3 1 100,
    OPT ''simpincdelmaxfact'' 50 0 1000,
    OPT ''simpincdelmaxmin'' (10 * optK) 0 optI,
    OPT ''simpinitdelay'' 0 0 optI,
    OPT ''simpintsizepen'' 0 0 1,
    OPT ''simpiscale'' 100 1 10000,
    OPT ''simpitdelay'' 10 0 1000,
    OPT ''simpjleveldecdelay'' 1 0 1,
    OPT ''simpitintdecdelay'' 1 0 1,
    OPT ''simpitintinc'' 10 1 optI,
    OPT ''simpitintinclim'' (1 * optK) 1 optI,
    OPT ''simplify'' 2 0 2,
    OPT ''simprtc'' 5 1 100,
    OPT ''simptintinc'' 1000 1 optI,
    OPT ''simptintinclim'' (10 * optK) 1 optI,
    OPT ''simpvarchg'' 100 1 1000,
    OPT ''simpvarlim'' 100 0 optI,
    OPT ''sizemaxpen'' 5 0 20,
    OPT ''sizepen'' (1 * optM) 1 optI,
    OPT ''sleeponabort'' 0 0 optI,
    OPT ''smallirr'' 90 0 100,
    OPT ''smallve'' 1 0 1,
    OPT ''smallvevars'' FUNVAR 4 FUNVAR,
    OPT ''smallvewait'' 0 0 1,
    OPT ''sortlits'' 0 0 1,
    OPT ''stabema'' 7 0 32,
    OPT ''subl'' 0 0 (10 * optK),
    OPT ''sweep'' 1 0 1,
    OPT ''sweepboost'' 10 1 1000,
    OPT ''sweepboostdel'' 4 0 100,
    OPT ''sweepboostint'' 7 1 optI,
    OPT ''sweepboostvlim'' (1 * optM) 1 optI,
    OPT ''sweepfacdec'' 10 1 100,
    OPT ''sweepforgive'' 2 0 optI,
    OPT ''sweepirr'' 3 0 3,
    OPT ''sweepmaxdec'' (10 * optK) 0 optI,
    OPT ''sweepmaxeff'' (200 * optM) (-1) optI,
    OPT ''sweepmaxround'' 3 (-1) optI,
    OPT ''sweepmindec'' 100 0 optI,
    OPT ''sweepmineff'' optM 0 optI,
    OPT ''sweepred'' 3 0 3,
    OPT ''sweepreleff'' 3 0 (10 * optK),
    OPT ''sweeprtc'' 0 0 1,
    OPT ''sweeprtcint'' 14 1 optI,
    OPT ''sweeprtcintvlim'' (100 * optK) 1 optI,
    OPT ''sweepsuccessmaxwortc'' 6 1 optI,
    OPT ''sweepsuccessrat'' 1000 1 optI,
    OPT ''sweepwait'' 2 0 2,
    OPT ''synclsall'' 1 0 1,
    OPT ''synclsglue'' 8 0 optI,
    OPT ''synclsint'' 100 0 1000,
    OPT ''synclslen'' 40 0 optI,
    OPT ''syncunint'' 111111 0 optM,
    OPT ''termint'' 122222 0 optM,
    OPT ''ternres'' 1 0 1,
    OPT ''ternresboost'' 5 1 100,
    OPT ''ternresrtc'' 0 0 1,
    OPT ''ternreswait'' 2 0 2,
    OPT ''tlevelema'' 12 0 32,
    OPT ''transred'' 1 0 1,
    OPT ''transredwait'' 2 0 2,
    OPT ''trapiflush'' 0 0 1,
    OPT ''trdmaxeff'' (2 * optM) (-1) optI,
    OPT ''trdmineff'' (100 * optK) 0 optI,
    OPT ''trdreleff'' 10 0 (10 * optK),
    OPT ''treelook'' 1 0 2,
    OPT ''treelookboost'' 10 1 100000,
    OPT ''treelookfull'' 0 0 1,
    OPT ''treelookmaxeff'' (50 * optM) (-1) optI,
    OPT ''treelookmineff'' (300 * optK) 0 optI,
    OPT ''treelookreleff'' 2 0 (10 * optK),
    OPT ''treelookrtc'' 0 0 1,
    OPT ''trep'' 0 0 1,
    OPT ''trepint'' 55555 1 optI,
    OPT ''trnreleff'' 10 0 optK,
    OPT ''trnrmaxeff'' (200 * optM) (-1) optI,
    OPT ''trnrmineff'' (4 * optM) 0 optI,
    OPT ''unhdatrn'' 2 0 2,
    OPT ''unhdextstamp'' 1 0 1,
    OPT ''unhdhbr'' 0 0 1,
    OPT ''unhdlnpr'' 3 0 optI,
    OPT ''unhdmaxeff'' (20 * optM) (-1) optI,
    OPT ''unhdmineff'' (100 * optK) 0 optI,
    OPT ''unhdreleff'' 2 0 (10 * optK),
    OPT ''unhdroundlim'' 20 0 100,
    OPT ''unhide'' 1 0 1,
    OPT ''unhidewait'' 0 0 2,
    OPT ''usedtwice'' 1 0 1,
    OPT ''verbose'' 0 (-1) 4,
    OPT ''wait'' 1 0 1,
    OPT ''waitmax'' 4 (-1) optI,
    OPT ''witness'' 1 0 1]"

definition opttab :: "Opt list" where
  "opttab = opttab1 @ opttab2 @ opttab3"

text \<open>The options that lglforcedruplig, lglsetplain and lglsetwait switch.\<close>

definition drup_names :: "string list" where
  "drup_names = [''bca'', ''card'', ''gauss'', ''smallve'', ''unhide'']"

definition plain_names :: "string list" where
  "plain_names = [''bca'', ''block'', ''card'', ''cce'', ''decompose'', ''elim'', ''gauss'', ''locs'',
     ''probe'', ''quatres'', ''sweep'', ''ternres'', ''transred'', ''unhide'']"

definition wait_names :: "string list" where
  "wait_names = [''batewait'', ''bcawait'', ''blockwait'', ''ccewait'', ''elmblkwait'', ''gausswait'',
     ''smallvewait'', ''sweepwait'', ''ternreswait'', ''transredwait'', ''unhidewait'']"

section \<open>The table is well formed\<close>

definition opt_static :: "Opt \<Rightarrow> bool" where
  "opt_static ot \<longleftrightarrow> omin ot \<le> dflt ot \<and> dflt ot \<le> omax ot \<and> INT_MIN \<le> omin ot \<and> omax ot \<le> INT_MAX \<and>
    length (lng ot) + 3 + 1 < 40 \<and>
    (lng ot \<in> set (plain_names @ drup_names @ wait_names) \<longrightarrow> omin ot \<le> 0 \<and> 0 \<le> omax ot) \<and>
    (lng ot \<in> {''plain'', ''druplig'', ''wait''} \<longrightarrow> omin ot = 0 \<and> omax ot = 1)"

lemma opttab_static: "list_all opt_static opttab"
proof -
  have "list_all opt_static opttab1" "list_all opt_static opttab2" "list_all opt_static opttab3"
    by (simp_all add: opttab1_def opttab2_def opttab3_def OPT_def opt_static_def opt_consts lgl_consts
      c_int_limits plain_names_def drup_names_def wait_names_def)
  then show ?thesis by (simp add: opttab_def)
qed

lemma opttab_dflt: "list_all (\<lambda>ot. oval ot = dflt ot) opttab"
proof -
  have "oval (OPT l v mn mx) = dflt (OPT l v mn mx)" for l v mn mx by (simp add: OPT_def)
  then have "list_all (\<lambda>ot. oval ot = dflt ot) opttab1" "list_all (\<lambda>ot. oval ot = dflt ot) opttab2"
    "list_all (\<lambda>ot. oval ot = dflt ot) opttab3"
    by (simp_all only: opttab1_def opttab2_def opttab3_def list.pred_inject)
  then show ?thesis by (simp add: opttab_def)
qed

definition first_char :: "Opt \<Rightarrow> nat" where
  "first_char ot = of_char (hd (lng ot))"

lemma opttab_letters:
  "list_all (\<lambda>ot. first_char ot < 101) opttab1"
  "list_all (\<lambda>ot. 101 \<le> first_char ot \<and> first_char ot < 114) opttab2"
  "list_all (\<lambda>ot. 114 \<le> first_char ot) opttab3"
  by (simp_all add: opttab1_def opttab2_def opttab3_def OPT_def first_char_def)

lemma opttab1_names: "distinct (map lng opttab1)"
  by (simp add: opttab1_def OPT_def)

lemma opttab2_names: "distinct (map lng opttab2)"
  by (simp add: opttab2_def OPT_def)

lemma opttab3_names: "distinct (map lng opttab3)"
  by (simp add: opttab3_def OPT_def)

lemma opttab_names: "distinct (map lng opttab)"
  using opttab_letters opttab1_names opttab2_names opttab3_names
  by (fastforce simp: opttab_def list_all_iff first_char_def)

definition special_names :: "string list" where
  "special_names = [''plain'', ''druplig'', ''wait'', ''phase''] @ plain_names @ drup_names @ wait_names"

lemma special_names_exist: "set special_names \<subseteq> set (map lng opttab)"
  by (simp add: special_names_def plain_names_def drup_names_def wait_names_def
      opttab_def opttab1_def opttab2_def opttab3_def OPT_def)

end
