(* ===== verification/Lgl_Opts.thy ===== *)
theory Lgl_Opts
  imports Lgl_OptTab
begin

text \<open>
  The options of src/painless-v2/lingeling: the structure and its initialisation, lglopts.h and
  lglopts.c, and the operations on options of lglib.c, over the table of Lgl_OptTab.

  struct Opts is an array of Opt between two sentinels, walked from FIRSTOPT to LASTOPT; here
  it is the list of its elements, and the field opts->NAME is the element of that name.  The
  description of an option is only printed and left out.  getenv is a parameter.  The messages
  that the operations print and the API trace are not modelled.
\<close>

section \<open>Access by name\<close>

definition lgligetopt :: "Opt list \<Rightarrow> string \<Rightarrow> Opt option" where
  "lgligetopt os opt = List.find (\<lambda>ot. lng ot = opt) os"

definition lglhasopt :: "Opt list \<Rightarrow> string \<Rightarrow> bool" where
  "lglhasopt os opt = list_ex (\<lambda>ot. lng ot = opt) os"

definition lglgetopt :: "Opt list \<Rightarrow> string \<Rightarrow> int" where
  "lglgetopt os opt = (case lgligetopt os opt of Some ot \<Rightarrow> oval ot | None \<Rightarrow> 0)"

definition lgldefopt :: "Opt list \<Rightarrow> string \<Rightarrow> int" where
  "lgldefopt os opt = (case lgligetopt os opt of Some ot \<Rightarrow> dflt ot | None \<Rightarrow> 0)"

text \<open>The value, and what the call stores through min_ptr and max_ptr, if anything.\<close>

definition lglgetoptminmax :: "Opt list \<Rightarrow> string \<Rightarrow> int \<times> (int \<times> int) option" where
  "lglgetoptminmax os opt =
     (case lgligetopt os opt of Some ot \<Rightarrow> (oval ot, Some (omin ot, omax ot)) | None \<Rightarrow> (0, None))"

fun lglmaxoptnamelen :: "Opt list \<Rightarrow> nat \<Rightarrow> nat" where
  "lglmaxoptnamelen [] res = res"
| "lglmaxoptnamelen (ot # os) res =
     lglmaxoptnamelen os (let len = length (lng ot) in if len > res then len else res)"

text \<open>
  The iteration of a client, a pointer being an index into the list; the result is the next
  pointer with the name, value, minimum and maximum of the current option.
\<close>

definition lglfirstopt :: "Opt list \<Rightarrow> nat" where
  "lglfirstopt os = 0"

definition lglnextopt :: "Opt list \<Rightarrow> nat \<Rightarrow> (nat \<times> string \<times> int \<times> int \<times> int) option" where
  "lglnextopt os current =
     (if Suc current > length os - 1 then None
      else let ot = os ! current in Some (Suc current, lng ot, oval ot, omin ot, omax ot))"

fun lglstrhasprefix :: "string \<Rightarrow> string \<Rightarrow> bool" where
  "lglstrhasprefix str [] = True"
| "lglstrhasprefix [] (q # qs) = False"
| "lglstrhasprefix (p # ps) (q # qs) = (p = q \<and> lglstrhasprefix ps qs)"

definition lglignopt :: "string \<Rightarrow> bool" where
  "lglignopt name =
     (name = ''abstime'' \<or> name = ''check'' \<or> lglstrhasprefix name ''drup'' \<or> name = ''exitonabort'' \<or>
      name = ''log'' \<or> name = ''sleeponabort'' \<or> name = ''verbose'' \<or> name = ''witness'')"

section \<open>Setting options\<close>

text \<open>opts->NAME.val = 0 or opts->NAME.val = opts->NAME.dflt.\<close>

definition set_zero :: "string \<Rightarrow> Opt list \<Rightarrow> Opt list" where
  "set_zero NAME = map (\<lambda>ot. if lng ot = NAME then ot\<lparr>oval := 0\<rparr> else ot)"

definition set_dflt :: "string \<Rightarrow> Opt list \<Rightarrow> Opt list" where
  "set_dflt NAME = map (\<lambda>ot. if lng ot = NAME then ot\<lparr>oval := dflt ot\<rparr> else ot)"

definition SETPLAIN :: "int \<Rightarrow> string \<Rightarrow> Opt list \<Rightarrow> Opt list" where
  "SETPLAIN v NAME os = (if v \<noteq> 0 then set_zero NAME os else set_dflt NAME os)"

definition SETWAIT :: "int \<Rightarrow> string \<Rightarrow> Opt list \<Rightarrow> Opt list" where
  "SETWAIT v NAME os = (if v \<noteq> 0 then set_dflt NAME os else set_zero NAME os)"

definition lglforcedruplig :: "int \<Rightarrow> Opt list \<Rightarrow> Opt list" where
  "lglforcedruplig v os = fold (SETPLAIN v) drup_names os"

definition lglsetdruplig :: "int \<Rightarrow> Opt list \<Rightarrow> Opt list" where
  "lglsetdruplig v os = lglforcedruplig v os"

definition lglsetplain :: "int \<Rightarrow> Opt list \<Rightarrow> Opt list" where
  "lglsetplain v os = fold (SETPLAIN v) plain_names os"

definition lglsetwait :: "int \<Rightarrow> Opt list \<Rightarrow> Opt list" where
  "lglsetwait v os = fold (SETWAIT v) wait_names os"

text \<open>The part of struct LGL that setting an option reads or writes.\<close>

record olgl =
  opts :: "Opt list"
  state :: State
  flushphases :: bool

definition clamp :: "Opt \<Rightarrow> int \<Rightarrow> int" where
  "clamp ot v = (let v = (if v < omin ot then omin ot else v) in if omax ot < v then omax ot else v)"

definition set_val :: "string \<Rightarrow> int \<Rightarrow> Opt list \<Rightarrow> Opt list" where
  "set_val opt v = map (\<lambda>ot. if lng ot = opt then ot\<lparr>oval := v\<rparr> else ot)"

definition toggle :: "string \<Rightarrow> (int \<Rightarrow> Opt list \<Rightarrow> Opt list) \<Rightarrow> string \<Rightarrow> int \<Rightarrow> int \<Rightarrow> Opt list \<Rightarrow> Opt list" where
  "toggle NAME f opt v oldval os =
     (if opt = NAME then
        let os = (if v > 0 \<and> oldval = 0 then f 1 os else os)
        in if v = 0 \<and> oldval \<noteq> 0 then f 0 os else os
      else os)"

definition lglsetopt :: "olgl \<Rightarrow> string \<Rightarrow> int \<Rightarrow> olgl" where
  "lglsetopt lgl opt v =
     (case lgligetopt (opts lgl) opt of
        None \<Rightarrow> lgl
      | Some ot \<Rightarrow>
          let v = clamp ot v;
              oldval = oval ot;
              os = set_val opt v (opts lgl);
              os = toggle ''plain'' lglsetplain opt v oldval os;
              os = toggle ''druplig'' lglsetdruplig opt v oldval os;
              os = toggle ''wait'' lglsetwait opt v oldval os;
              fl = (if opt = ''phase'' \<and> v \<noteq> oldval then True else flushphases lgl);
              st = (if state lgl = UNUSED then OPTSET else state lgl);
              os = (if lglgetopt os ''druplig'' \<noteq> 0 then lglforcedruplig 1 os else os)
          in lgl\<lparr>opts := os, state := st, flushphases := fl\<rparr>)"

section \<open>The environment\<close>

definition toupper :: "char \<Rightarrow> char" where
  "toupper c = (if 97 \<le> (of_char c :: nat) \<and> of_char c \<le> (122 :: nat) then char_of (of_char c - 32 :: nat) else c)"

text \<open>
  atoi of the C library: white space, an optional sign, digits up to the first other
  character.  A value that does not fit an int is undefined in C; here it is the number.
\<close>

definition is_space :: "char \<Rightarrow> bool" where
  "is_space c \<longleftrightarrow> (of_char c :: nat) = 32 \<or> 9 \<le> (of_char c :: nat) \<and> (of_char c :: nat) \<le> 13"

definition is_digit :: "char \<Rightarrow> bool" where
  "is_digit c \<longleftrightarrow> 48 \<le> (of_char c :: nat) \<and> (of_char c :: nat) \<le> 57"

fun digits :: "int \<Rightarrow> string \<Rightarrow> int" where
  "digits n [] = n"
| "digits n (c # cs) = (if is_digit c then digits (10 * n + (of_char c - 48)) cs else n)"

definition atoi :: "string \<Rightarrow> int" where
  "atoi s =
     (case dropWhile is_space s of
        [] \<Rightarrow> 0
      | c # cs \<Rightarrow> if c = CHR ''-'' then - digits 0 cs else if c = CHR ''+'' then digits 0 cs
                  else digits 0 (c # cs))"

text \<open>
  lglgetenv on one option; the clone, if there is one, is told of a new value.
\<close>

definition lglgetenv :: "(string \<Rightarrow> string option) \<Rightarrow> Opt \<Rightarrow> olgl option \<Rightarrow> Opt \<times> olgl option" where
  "lglgetenv getenv opt clone =
     (case getenv (''LGL'' @ map toupper (lng opt)) of
        None \<Rightarrow> (opt, clone)
      | Some valstr \<Rightarrow>
          let oldval = oval opt;
              newval = atoi valstr;
              newval = (if newval < omin opt then omin opt else newval);
              newval = (if newval > omax opt then omax opt else newval)
          in if newval = oldval then (opt, clone)
             else (opt\<lparr>oval := newval\<rparr>, map_option (\<lambda>c. lglsetopt c (lng opt) newval) clone))"

definition lglinitopts :: "(string \<Rightarrow> string option) \<Rightarrow> Opt list" where
  "lglinitopts getenv = map (\<lambda>ot. fst (lglgetenv getenv ot None)) opttab"

section \<open>Reading options from a file\<close>

definition lglws :: "char \<Rightarrow> bool" where
  "lglws ch \<longleftrightarrow> ch = CHR '' '' \<or> ch = CHR 0x09 \<or> ch = CHR 0x0A \<or> ch = CHR 0x0D"

text \<open>
  A stream is the list of the characters that are left, None is EOF.  The loops of
  lglreadopts: over white space, over the name and over the value.
\<close>

fun skip_ws :: "string \<Rightarrow> (char \<times> string) option" where
  "skip_ws [] = None"
| "skip_ws (c # cs) = (if lglws c then skip_ws cs else Some (c, cs))"

fun read_opt :: "string \<Rightarrow> string \<Rightarrow> (string \<times> string) option" where
  "read_opt optbuf [] = None"
| "read_opt optbuf (c # cs) =
     (if lglws c then Some (optbuf, cs)
      else if length optbuf + 1 \<ge> 40 then None
      else read_opt (optbuf @ [c]) cs)"

fun read_val :: "string \<Rightarrow> string \<Rightarrow> string \<times> string" where
  "read_val valbuf [] = (valbuf, [])"
| "read_val valbuf (c # cs) =
     (if lglws c then (valbuf, cs)
      else if length valbuf + 1 \<ge> 40 then (valbuf, cs)
      else read_val (valbuf @ [c]) cs)"

text \<open>The characters of a buffer up to the first null character.\<close>

definition c_str :: "string \<Rightarrow> string" where
  "c_str = takeWhile (\<lambda>c. c \<noteq> CHR 0x00)"

lemma skip_ws_length: "skip_ws cs = Some (c, ds) \<Longrightarrow> length ds < length cs"
  by (induction cs) (auto split: if_splits)

lemma read_opt_length: "read_opt b cs = Some (b', ds) \<Longrightarrow> length ds < length cs"
  by (induction b cs rule: read_opt.induct) (auto split: if_splits)

lemma read_val_length: "length (snd (read_val b cs)) \<le> length cs"
  by (induction b cs rule: read_val.induct) auto

function lglreadopts :: "olgl \<Rightarrow> string \<Rightarrow> nat \<Rightarrow> olgl \<times> nat" where
  "lglreadopts lgl file res =
     (case skip_ws file of
        None \<Rightarrow> (lgl, res)
      | Some (ch, file1) \<Rightarrow>
          (case read_opt [ch] file1 of
             None \<Rightarrow> (lgl, res)
           | Some (optbuf, file2) \<Rightarrow>
               (case skip_ws file2 of
                  None \<Rightarrow> (lgl, res)
                | Some (ch, file3) \<Rightarrow>
                    lglreadopts (lglsetopt lgl (c_str optbuf) (atoi (c_str (fst (read_val [ch] file3)))))
                      (snd (read_val [ch] file3)) (Suc res))))"
  by pat_completeness auto
termination
proof (relation "measure (\<lambda>(lgl, file, res). length file)", goal_cases)
  case (2 lgl f res a ch f1 b optbuf f2 c ch' f3)
  then show ?case
    using skip_ws_length [of f] read_opt_length [of "[ch]" f1] skip_ws_length [of f2]
      read_val_length [of "[ch']" f3] by fastforce
qed auto

declare lglreadopts.simps [simp del]

section \<open>Sampled values\<close>

text \<open>
  What lglpcs prints of one option for a parameter tuner: nothing, the values in braces, or
  the interval with its suffixes; the default follows in brackets.  range is 64 bits wide, so
  the products below do not overflow.
\<close>

datatype pcs = PNone | PValues "int list" int | PInterval int int bool int

definition lglpcs :: "int \<Rightarrow> Opt \<Rightarrow> pcs" where
  "lglpcs mixed ot =
     (let range = omax ot - omin ot in
      if lglignopt (lng ot) then PNone
      else if range \<ge> 7 \<and> mixed < 0 then PNone
      else if range < 7 then PValues (omin ot # [omin ot + 1 .. omax ot]) (dflt ot)
      else if mixed = 0 then PInterval (omin ot) (omax ot) (omin ot > 0 \<and> range \<ge> 100) (dflt ot)
      else if dflt ot = omin ot \<or> dflt ot = omax ot then
        PValues [omin ot, omin ot + (1 * range + 3) div 4, omin ot + (2 * range + 3) div 4,
          omin ot + (3 * range + 3) div 4, omax ot] (dflt ot)
      else if dflt ot = omin ot + 1 then
        PValues [omin ot, dflt ot, dflt ot + (omax ot - dflt ot) div 2, omax ot] (dflt ot)
      else if dflt ot + 1 = omax ot then
        PValues [omin ot, omin ot + (dflt ot - omin ot) div 2, dflt ot, omax ot] (dflt ot)
      else
        PValues [omin ot, omin ot + (dflt ot - omin ot) div 2, dflt ot,
          dflt ot + (omax ot - dflt ot) div 2, omax ot] (dflt ot))"

section \<open>The invariant of the options\<close>

text \<open>What no operation changes, and the invariant: the shape of the table, values in range.\<close>

definition shape :: "Opt \<Rightarrow> string \<times> int \<times> int \<times> int" where
  "shape ot = (lng ot, omin ot, omax ot, dflt ot)"

definition in_range :: "Opt \<Rightarrow> bool" where
  "in_range ot \<longleftrightarrow> omin ot \<le> oval ot \<and> oval ot \<le> omax ot"

definition opts_ok :: "Opt list \<Rightarrow> bool" where
  "opts_ok os \<longleftrightarrow> map shape os = map shape opttab \<and> (\<forall>ot\<in>set os. in_range ot)"

lemma shape_upd [simp]: "shape (ot\<lparr>oval := v\<rparr>) = shape ot"
  by (simp add: shape_def)

lemma opt_static_shape: "shape a = shape b \<Longrightarrow> opt_static a = opt_static b"
  by (simp add: shape_def opt_static_def)

lemma opts_okD: "opts_ok os \<Longrightarrow> map shape os = map shape opttab" "opts_ok os \<Longrightarrow> \<forall>ot\<in>set os. in_range ot"
  unfolding opts_ok_def by blast+

lemma opts_ok_static: "opts_ok os \<Longrightarrow> ot \<in> set os \<Longrightarrow> opt_static ot"
proof -
  assume ok: "opts_ok os" and ot: "ot \<in> set os"
  have "shape ot \<in> set (map shape os)" using ot by simp
  then have "shape ot \<in> shape ` set opttab" unfolding opts_okD(1) [OF ok] set_map .
  then obtain t where t: "t \<in> set opttab" and e: "shape ot = shape t" by (rule imageE)
  show ?thesis unfolding opt_static_shape [OF e] by (rule bspec [OF opttab_static [unfolded list_all_iff] t])
qed

lemma map_lng_shape: "map lng os = map fst (map shape os)"
  by (simp add: shape_def)

lemma opts_ok_names: "opts_ok os \<Longrightarrow> map lng os = map lng opttab"
  unfolding map_lng_shape opts_ok_def by simp

lemma opts_ok_distinct: "opts_ok os \<Longrightarrow> distinct (map lng os)"
  using opts_ok_names opttab_names by simp

lemma opts_ok_opttab: "opts_ok opttab"
  unfolding opts_ok_def
proof (rule conjI [OF refl], rule ballI)
  fix ot assume ot: "ot \<in> set opttab"
  have "opt_static ot" by (rule bspec [OF opttab_static [unfolded list_all_iff] ot])
  moreover have "oval ot = dflt ot" by (rule bspec [OF opttab_dflt [unfolded list_all_iff] ot])
  ultimately show "in_range ot" unfolding in_range_def opt_static_def by simp
qed

lemma opts_ok_map:
  assumes "opts_ok os" "\<And>ot. opt_static ot \<Longrightarrow> in_range ot \<Longrightarrow> shape (f ot) = shape ot \<and> in_range (f ot)"
  shows "opts_ok (map f os)"
proof -
  have "shape (f ot) = shape ot \<and> in_range (f ot)" if "ot \<in> set os" for ot
    using assms that opts_ok_static [OF assms(1) that] by (simp add: opts_ok_def)
  then have "map shape (map f os) = map shape os" and r: "\<forall>ot\<in>set (map f os). in_range ot" by auto
  moreover have "map shape os = map shape opttab" by (rule opts_okD [OF assms(1)])
  ultimately show ?thesis unfolding opts_ok_def by simp
qed

section \<open>The switches as pointwise updates\<close>

lemma fold_update:
  assumes "\<And>ot. lng (f ot) = lng ot" "\<And>ot. f (f ot) = f ot"
  shows "fold (\<lambda>NAME. map (\<lambda>ot. if lng ot = NAME then f ot else ot)) ns os =
    map (\<lambda>ot. if lng ot \<in> set ns then f ot else ot) os"
  by (induction ns arbitrary: os) (auto simp: assms)

definition zeroed :: "string list \<Rightarrow> Opt \<Rightarrow> Opt" where
  "zeroed ns ot = (if lng ot \<in> set ns then ot\<lparr>oval := 0\<rparr> else ot)"

definition dfltd :: "string list \<Rightarrow> Opt \<Rightarrow> Opt" where
  "dfltd ns ot = (if lng ot \<in> set ns then ot\<lparr>oval := dflt ot\<rparr> else ot)"

lemma fold_set_zero: "fold set_zero ns os = map (zeroed ns) os"
  using fold_update [of "\<lambda>ot. ot\<lparr>oval := 0\<rparr>" ns os]
  unfolding set_zero_def [abs_def] zeroed_def [abs_def] by simp

lemma fold_set_dflt: "fold set_dflt ns os = map (dfltd ns) os"
  using fold_update [of "\<lambda>ot. ot\<lparr>oval := dflt ot\<rparr>" ns os]
  unfolding set_dflt_def [abs_def] dfltd_def [abs_def] by simp

lemma SETPLAIN_cases: "SETPLAIN v = (if v \<noteq> 0 then set_zero else set_dflt)"
  by (auto simp: SETPLAIN_def fun_eq_iff)

lemma SETWAIT_cases: "SETWAIT v = (if v \<noteq> 0 then set_dflt else set_zero)"
  by (auto simp: SETWAIT_def fun_eq_iff)

lemma switches:
  "lglsetplain v os = map (if v \<noteq> 0 then zeroed plain_names else dfltd plain_names) os"
  "lglforcedruplig v os = map (if v \<noteq> 0 then zeroed drup_names else dfltd drup_names) os"
  "lglsetwait v os = map (if v \<noteq> 0 then dfltd wait_names else zeroed wait_names) os"
  by (simp_all add: lglsetplain_def lglforcedruplig_def lglsetwait_def SETPLAIN_cases SETWAIT_cases
      fold_set_zero fold_set_dflt)

lemma zeroed_fields [simp]:
  "lng (zeroed ns ot) = lng ot" "omin (zeroed ns ot) = omin ot" "omax (zeroed ns ot) = omax ot"
  "dflt (zeroed ns ot) = dflt ot" "oval (zeroed ns ot) = (if lng ot \<in> set ns then 0 else oval ot)"
  by (simp_all add: zeroed_def)

lemma dfltd_fields [simp]:
  "lng (dfltd ns ot) = lng ot" "omin (dfltd ns ot) = omin ot" "omax (dfltd ns ot) = omax ot"
  "dflt (dfltd ns ot) = dflt ot" "oval (dfltd ns ot) = (if lng ot \<in> set ns then dflt ot else oval ot)"
  by (simp_all add: dfltd_def)

lemma zeroed_ok:
  assumes "opt_static ot" "in_range ot" "set ns \<subseteq> set (plain_names @ drup_names @ wait_names)"
  shows "shape (zeroed ns ot) = shape ot \<and> in_range (zeroed ns ot)"
  using assms by (auto simp: shape_def in_range_def opt_static_def)

lemma dfltd_ok:
  assumes "opt_static ot" "in_range ot"
  shows "shape (dfltd ns ot) = shape ot \<and> in_range (dfltd ns ot)"
  using assms by (auto simp: shape_def in_range_def opt_static_def)

lemma switches_ok:
  assumes "opts_ok os"
  shows "opts_ok (lglsetplain v os)" "opts_ok (lglforcedruplig v os)" "opts_ok (lglsetwait v os)"
proof -
  have z: "set ns \<subseteq> set (plain_names @ drup_names @ wait_names) \<Longrightarrow> opts_ok (map (zeroed ns) os)" for ns
    by (rule opts_ok_map [OF assms zeroed_ok])
  have d: "opts_ok (map (dfltd ns) os)" for ns
    by (rule opts_ok_map [OF assms dfltd_ok])
  show "opts_ok (lglsetplain v os)" "opts_ok (lglforcedruplig v os)" "opts_ok (lglsetwait v os)"
    using z [of plain_names] z [of drup_names] z [of wait_names] d by (auto simp: switches)
qed

lemma set_val_ok:
  assumes "opts_ok os" "omin ot \<le> v" "v \<le> omax ot" "ot \<in> set os" "lng ot = opt"
  shows "opts_ok (set_val opt v os)"
proof -
  have inj: "inj_on lng (set os)" using opts_ok_distinct [OF assms(1)] by (simp add: distinct_map)
  have u: "x = ot" if "x \<in> set os" "lng x = opt" for x
    by (rule inj_onD [OF inj _ that(1) assms(4)]) (simp add: that(2) assms(5))
  have r: "\<forall>x\<in>set os. in_range x" by (rule opts_okD [OF assms(1)])
  have "in_range (x\<lparr>oval := v\<rparr>)" if "x \<in> set os" "lng x = opt" for x
    using u [OF that] assms(2,3) by (simp add: in_range_def)
  with r have "\<forall>x\<in>set (set_val opt v os). in_range x" unfolding set_val_def by auto
  moreover have "map shape (set_val opt v os) = map shape os"
    by (auto simp: set_val_def shape_def)
  moreover have "map shape os = map shape opttab" by (rule opts_okD [OF assms(1)])
  ultimately show ?thesis unfolding opts_ok_def by simp
qed

lemma toggle_ok:
  assumes "opts_ok os" "\<And>v os. opts_ok os \<Longrightarrow> opts_ok (f v os)"
  shows "opts_ok (toggle NAME f opt v old os)"
  using assms by (simp add: toggle_def)

lemma clamp_range: "omin ot \<le> omax ot \<Longrightarrow> omin ot \<le> clamp ot v \<and> clamp ot v \<le> omax ot"
  by (simp add: clamp_def)

lemma lgligetopt_Some: "lgligetopt os opt = Some ot \<Longrightarrow> ot \<in> set os \<and> lng ot = opt"
  by (auto simp: lgligetopt_def find_Some_iff)

lemma lglsetopt_ok:
  assumes ok: "opts_ok (opts lgl)"
  shows "opts_ok (opts (lglsetopt lgl opt v))"
proof (cases "lgligetopt (opts lgl) opt")
  case None
  then show ?thesis using ok by (simp add: lglsetopt_def)
next
  case (Some ot)
  note ot = lgligetopt_Some [OF Some]
  have "omin ot \<le> omax ot" using opts_ok_static [OF ok, of ot] ot unfolding opt_static_def by linarith
  then have "opts_ok (set_val opt (clamp ot v) (opts lgl))"
    using clamp_range ot by (intro set_val_ok [OF ok]) auto
  then show ?thesis using Some
    by (auto simp: lglsetopt_def Let_def lglsetdruplig_def intro!: toggle_ok switches_ok)
qed

section \<open>What setting an option does\<close>

lemma lgligetopt_map:
  assumes "\<And>ot. lng (f ot) = lng ot"
  shows "lgligetopt (map f os) n = map_option f (lgligetopt os n)"
  by (induction os) (auto simp: lgligetopt_def assms)

lemma lglgetopt_map:
  assumes "\<And>ot. lng (f ot) = lng ot" "lgligetopt os n = Some ot"
  shows "lglgetopt (map f os) n = oval (f ot)"
  using assms by (simp add: lglgetopt_def lgligetopt_map)

lemma lglgetopt_Some: "lgligetopt os n = Some ot \<Longrightarrow> lglgetopt os n = oval ot \<and> lgldefopt os n = dflt ot"
  by (simp add: lglgetopt_def lgldefopt_def)

definition valued :: "string \<Rightarrow> int \<Rightarrow> Opt \<Rightarrow> Opt" where
  "valued opt v ot = (if lng ot = opt then ot\<lparr>oval := v\<rparr> else ot)"

lemma valued_fields [simp]:
  "lng (valued opt v ot) = lng ot" "dflt (valued opt v ot) = dflt ot"
  "oval (valued opt v ot) = (if lng ot = opt then v else oval ot)"
  by (simp_all add: valued_def)

lemma set_val_map: "set_val opt v os = map (valued opt v) os"
  by (simp add: set_val_def valued_def)

text \<open>The effect of one switch on one option, old and v being the values before and after.\<close>

definition switched :: "string \<Rightarrow> string list \<Rightarrow> bool \<Rightarrow> string \<Rightarrow> int \<Rightarrow> int \<Rightarrow> Opt \<Rightarrow> Opt" where
  "switched NAME ns on opt v old =
     (if opt = NAME \<and> v > 0 \<and> old = 0 then (if on then zeroed ns else dfltd ns)
      else if opt = NAME \<and> v = 0 \<and> old \<noteq> 0 then (if on then dfltd ns else zeroed ns)
      else (\<lambda>ot. ot))"

lemma toggles:
  "toggle ''plain'' lglsetplain opt v old os = map (switched ''plain'' plain_names True opt v old) os"
  "toggle ''druplig'' lglsetdruplig opt v old os = map (switched ''druplig'' drup_names True opt v old) os"
  "toggle ''wait'' lglsetwait opt v old os = map (switched ''wait'' wait_names False opt v old) os"
  by (simp_all add: toggle_def switched_def lglsetdruplig_def switches Let_def)

lemma switched_lng [simp]:
  "lng (switched NAME ns on opt v old ot) = lng ot" "dflt (switched NAME ns on opt v old ot) = dflt ot"
  by (simp_all add: switched_def)

lemma switched_other: "lng ot \<notin> set ns \<Longrightarrow> oval (switched NAME ns on opt v old ot) = oval ot"
  by (simp add: switched_def)

lemma druplig_unswitched:
  "''druplig'' \<notin> set plain_names" "''druplig'' \<notin> set drup_names" "''druplig'' \<notin> set wait_names"
  "opt \<in> {''plain'', ''druplig'', ''wait''} \<Longrightarrow> opt \<notin> set plain_names \<union> set drup_names \<union> set wait_names"
  by (auto simp: plain_names_def drup_names_def wait_names_def)

text \<open>
  The value that option n has after lglsetopt of option opt: forced to zero under druplig,
  switched by plain, druplig and wait, clamped to the range if it is the option itself, and
  unchanged otherwise.
\<close>

definition setopt_spec :: "Opt list \<Rightarrow> Opt \<Rightarrow> int \<Rightarrow> string \<Rightarrow> int" where
  "setopt_spec os ot v n =
     (let opt = lng ot; w = clamp ot v; old = oval ot;
          on = w > 0 \<and> old = 0; off = w = 0 \<and> old \<noteq> 0;
          druplig = (if opt = ''druplig'' then w else lglgetopt os ''druplig'')
      in if druplig \<noteq> 0 \<and> n \<in> set drup_names then 0
         else if opt = ''plain'' \<and> on \<and> n \<in> set plain_names then 0
         else if opt = ''plain'' \<and> off \<and> n \<in> set plain_names then lgldefopt os n
         else if opt = ''druplig'' \<and> off \<and> n \<in> set drup_names then lgldefopt os n
         else if opt = ''wait'' \<and> on \<and> n \<in> set wait_names then lgldefopt os n
         else if opt = ''wait'' \<and> off \<and> n \<in> set wait_names then 0
         else if n = opt then w else lglgetopt os n)"

lemma lglsetopt_unknown: "lgligetopt (opts lgl) opt = None \<Longrightarrow> lglsetopt lgl opt v = lgl"
  by (simp add: lglsetopt_def)

definition toggled :: "string \<Rightarrow> int \<Rightarrow> int \<Rightarrow> Opt \<Rightarrow> Opt" where
  "toggled opt v old ot = switched ''wait'' wait_names False opt v old
     (switched ''druplig'' drup_names True opt v old
       (switched ''plain'' plain_names True opt v old (valued opt v ot)))"

lemma toggled_lng [simp]: "lng (toggled opt v old ot) = lng ot"
  by (simp add: toggled_def)

lemma lglsetopt_opts:
  assumes "lgligetopt (opts lgl) opt = Some ot"
  shows "opts (lglsetopt lgl opt v) =
    (let os = map (toggled opt (clamp ot v) (oval ot)) (opts lgl)
     in if lglgetopt os ''druplig'' \<noteq> 0 then map (zeroed drup_names) os else os)"
  by (simp add: lglsetopt_def assms Let_def toggles set_val_map switches(2) toggled_def [abs_def] comp_def)

lemma toggled_druplig:
  assumes "lng d = ''druplig''"
  shows "oval (toggled opt v old d) = (if opt = ''druplig'' then v else oval d)"
  using assms druplig_unswitched by (simp add: toggled_def switched_other)

lemma lglsetopt_get_map:
  assumes ok: "opts_ok (opts lgl)" and ot: "lgligetopt (opts lgl) opt = Some ot"
    and k: "lgligetopt (opts lgl) n = Some k" and d: "lgligetopt (opts lgl) ''druplig'' = Some d"
  shows "lglgetopt (opts (lglsetopt lgl opt v)) n =
    (if (if opt = ''druplig'' then clamp ot v else oval d) \<noteq> 0 \<and> n \<in> set drup_names then 0
     else oval (toggled opt (clamp ot v) (oval ot) k))"
proof -
  let ?os = "map (toggled opt (clamp ot v) (oval ot)) (opts lgl)"
  have "lng d = ''druplig''" "lng k = n" using d k lgligetopt_Some by blast+
  then have dr: "lglgetopt ?os ''druplig'' = (if opt = ''druplig'' then clamp ot v else oval d)"
    using lglgetopt_map [OF toggled_lng d] toggled_druplig by simp
  have n: "lglgetopt ?os n = oval (toggled opt (clamp ot v) (oval ot) k)"
    by (rule lglgetopt_map [OF toggled_lng k])
  have "lgligetopt ?os n = Some (toggled opt (clamp ot v) (oval ot) k)"
    using lgligetopt_map [OF toggled_lng] k by simp
  then have z: "lglgetopt (map (zeroed drup_names) ?os) n =
      oval (zeroed drup_names (toggled opt (clamp ot v) (oval ot) k))"
    by (intro lglgetopt_map) simp_all
  show ?thesis
    unfolding lglsetopt_opts [OF ot] Let_def dr using n z \<open>lng k = n\<close> by simp
qed

lemma opts_ok_lookup: "opts_ok os \<Longrightarrow> n \<in> set (map lng opttab) \<Longrightarrow> \<exists>ot. lgligetopt os n = Some ot"
proof -
  assume ok: "opts_ok os" and n: "n \<in> set (map lng opttab)"
  have "n \<in> set (map lng os)" using n unfolding opts_ok_names [OF ok] .
  then have "List.find (\<lambda>ot. lng ot = n) os \<noteq> None" by (auto simp: find_None_iff)
  then show ?thesis by (auto simp: lgligetopt_def)
qed

lemma lglsetopt_spec:
  assumes ok: "opts_ok (opts lgl)" and ot: "lgligetopt (opts lgl) opt = Some ot"
    and n: "n \<in> set (map lng opttab)"
  shows "lglgetopt (opts (lglsetopt lgl opt v)) n = setopt_spec (opts lgl) ot v n"
proof -
  obtain k where k: "lgligetopt (opts lgl) n = Some k" using opts_ok_lookup [OF ok n] by blast
  have "''druplig'' \<in> set (map lng opttab)" by (rule subsetD [OF special_names_exist]) (simp add: special_names_def)
  then obtain d where d: "lgligetopt (opts lgl) ''druplig'' = Some d" using opts_ok_lookup [OF ok] by blast
  have l: "lng k = n" "lng ot = opt" using k ot lgligetopt_Some by blast+
  note g = lglgetopt_Some [OF k] lglgetopt_Some [OF d]
  show ?thesis
    unfolding lglsetopt_get_map [OF ok ot k d] setopt_spec_def Let_def toggled_def switched_def
    using l g druplig_unswitched by auto
qed

section \<open>Sequences of settings\<close>

definition lglsetopts :: "olgl \<Rightarrow> (string \<times> int) list \<Rightarrow> olgl" where
  "lglsetopts lgl kvs = fold (\<lambda>(n, v) l. lglsetopt l n v) kvs lgl"

text \<open>While druplig is on, what it cannot check is off.\<close>

definition drup_inv :: "Opt list \<Rightarrow> bool" where
  "drup_inv os \<longleftrightarrow> (lglgetopt os ''druplig'' \<noteq> 0 \<longrightarrow> (\<forall>n\<in>set drup_names. lglgetopt os n = 0))"

lemma special_in_table: "n \<in> set special_names \<Longrightarrow> n \<in> set (map lng opttab)"
  using special_names_exist by (rule subsetD)

lemma drup_inv_setopt:
  assumes ok: "opts_ok (opts lgl)" and d: "drup_inv (opts lgl)"
  shows "drup_inv (opts (lglsetopt lgl opt v))"
proof (cases "lgligetopt (opts lgl) opt")
  case None
  then show ?thesis using d by (simp add: lglsetopt_unknown)
next
  case (Some ot)
  have t: "''druplig'' \<in> set (map lng opttab)" "n \<in> set drup_names \<Longrightarrow> n \<in> set (map lng opttab)" for n
    by (intro special_in_table; simp add: special_names_def)+
  have l: "lng ot = opt" using lgligetopt_Some [OF Some] by blast
  have "lglgetopt (opts (lglsetopt lgl opt v)) ''druplig'' =
      (if opt = ''druplig'' then clamp ot v else lglgetopt (opts lgl) ''druplig'')"
    unfolding lglsetopt_spec [OF ok Some t(1)] setopt_spec_def Let_def l
    using druplig_unswitched by auto
  then show ?thesis
    unfolding drup_inv_def
    using lglsetopt_spec [OF ok Some t(2)] l by (simp add: setopt_spec_def Let_def)
qed

lemma lglsetopts_inv:
  "opts_ok (opts lgl) \<Longrightarrow> drup_inv (opts lgl) \<Longrightarrow>
     opts_ok (opts (lglsetopts lgl kvs)) \<and> drup_inv (opts (lglsetopts lgl kvs))"
  unfolding lglsetopts_def
  by (induction kvs arbitrary: lgl) (auto simp: lglsetopt_ok drup_inv_setopt)

lemma drup_inv_opttab: "drup_inv opttab"
proof -
  have d: "''druplig'' \<in> set (map lng opttab)" by (rule special_in_table) (simp add: special_names_def)
  have "lgligetopt opttab1 ''druplig'' = Some (OPT ''druplig'' 0 0 1)"
    by (simp add: lgligetopt_def opttab1_def OPT_def)
  then have "lgligetopt opttab ''druplig'' = Some (OPT ''druplig'' 0 0 1)"
    unfolding opttab_def lgligetopt_def by (auto simp: find_Some_iff nth_append)
  then show ?thesis unfolding drup_inv_def by (simp add: lglgetopt_def OPT_def)
qed

section \<open>Printing and reading numbers and options\<close>

text \<open>The format of %d.\<close>

fun dec_nat :: "nat \<Rightarrow> string" where
  "dec_nat n = (if n < 10 then [char_of (48 + n)] else dec_nat (n div 10) @ [char_of (48 + n mod 10)])"

declare dec_nat.simps [simp del]

definition dec_int :: "int \<Rightarrow> string" where
  "dec_int i = (if i < 0 then CHR ''-'' # dec_nat (nat (- i)) else dec_nat (nat i))"

lemma digit_code: "k < 10 \<Longrightarrow> of_char (char_of (48 + k) :: char) = (48 + k :: nat)"
  by (simp add: of_char_of)

lemma digits_append: "list_all is_digit xs \<Longrightarrow> digits n (xs @ ys) = digits (digits n xs) ys"
  by (induction n xs rule: digits.induct) auto

lemma of_char_int: "(of_char c :: int) = int (of_char c)"
  by (cases c) (simp add: of_char_def)

lemma dec_nat_digits: "list_all is_digit (dec_nat n) \<and> dec_nat n \<noteq> [] \<and> digits 0 (dec_nat n) = int n"
proof (induction n rule: dec_nat.induct)
  case (1 n)
  have one: "is_digit (char_of (48 + k))" "digits i [char_of (48 + k)] = 10 * i + int k" if "k < 10" for k i
    using digit_code [OF that] that by (simp_all add: is_digit_def of_char_int)
  show ?case
  proof (cases "n < 10")
    case True
    then show ?thesis using one [of n] by (subst (1 2 3) dec_nat.simps) simp
  next
    case False
    have "10 * int (n div 10) + int (n mod 10) = int n" by presburger
    then show ?thesis using 1 False one [of "n mod 10"]
      by (subst (1 2 3) dec_nat.simps) (simp add: digits_append)
  qed
qed

lemma digit_not:
  "is_digit c \<Longrightarrow> \<not> is_space c" "is_digit c \<Longrightarrow> \<not> lglws c" "is_digit c \<Longrightarrow> c \<noteq> CHR ''-''"
  "is_digit c \<Longrightarrow> c \<noteq> CHR ''+''" "is_digit c \<Longrightarrow> c \<noteq> CHR 0x00"
  by (auto simp: is_digit_def is_space_def lglws_def)

lemma atoi_dec_int: "atoi (dec_int i) = i"
proof (cases "i < 0")
  case True
  then show ?thesis using dec_nat_digits [of "nat (- i)"] by (simp add: atoi_def dec_int_def is_space_def)
next
  case False
  note d = dec_nat_digits [of "nat i"]
  then obtain c cs where c: "dec_nat (nat i) = c # cs" by (cases "dec_nat (nat i)") auto
  then have "is_digit c" using d by simp
  then show ?thesis using c d False digit_not [of c] by (simp add: atoi_def dec_int_def)
qed

lemma dec_nat_length: "n < 10 ^ Suc k \<Longrightarrow> length (dec_nat n) \<le> Suc k"
proof (induction k arbitrary: n)
  case 0
  then show ?case by (subst dec_nat.simps) simp
next
  case (Suc k)
  have "n div 10 < 10 ^ Suc k" using Suc.prems by (simp add: less_mult_imp_div_less)
  then show ?case using Suc.IH [of "n div 10"] by (subst dec_nat.simps) simp
qed

definition c_int :: "int \<Rightarrow> bool" where
  "c_int i \<longleftrightarrow> INT_MIN \<le> i \<and> i \<le> INT_MAX"

lemma dec_int_word:
  assumes "c_int i"
  shows "dec_int i \<noteq> []" "list_all (\<lambda>c. \<not> lglws c \<and> c \<noteq> CHR 0x00) (dec_int i)" "length (dec_int i) \<le> 39"
proof -
  have d: "list_all (\<lambda>c. \<not> lglws c \<and> c \<noteq> CHR 0x00) (dec_nat n)" "dec_nat n \<noteq> []" for n
    using dec_nat_digits [of n] digit_not by (auto simp: list_all_iff)
  show "dec_int i \<noteq> []" "list_all (\<lambda>c. \<not> lglws c \<and> c \<noteq> CHR 0x00) (dec_int i)"
    using d by (auto simp: dec_int_def lglws_def)
  have "length (dec_nat (nat \<bar>i\<bar>)) \<le> Suc 9"
    using assms by (intro dec_nat_length) (auto simp: c_int_def c_int_limits nat_less_iff)
  then show "length (dec_int i) \<le> 39" by (auto simp: dec_int_def)
qed

text \<open>The words that fit the buffers of lglreadopts.\<close>

definition word_ok :: "string \<Rightarrow> bool" where
  "word_ok w \<longleftrightarrow> w \<noteq> [] \<and> list_all (\<lambda>c. \<not> lglws c \<and> c \<noteq> CHR 0x00) w \<and> length w \<le> 39"

lemma read_opt_word:
  "list_all (\<lambda>c. \<not> lglws c) w \<Longrightarrow> length buf + length w \<le> 39 \<Longrightarrow> lglws s \<Longrightarrow>
     read_opt buf (w @ s # rest) = Some (buf @ w, rest)"
  by (induction w arbitrary: buf) auto

lemma read_val_word:
  "list_all (\<lambda>c. \<not> lglws c) w \<Longrightarrow> length buf + length w \<le> 39 \<Longrightarrow> lglws s \<Longrightarrow>
     read_val buf (w @ s # rest) = (buf @ w, rest)"
  by (induction w arbitrary: buf) auto

lemma c_str_word: "list_all (\<lambda>c. \<not> lglws c \<and> c \<noteq> CHR 0x00) w \<Longrightarrow> c_str w = w"
  by (simp add: c_str_def list_all_iff)

definition option_line :: "string \<times> int \<Rightarrow> string" where
  "option_line = (\<lambda>(n, v). n @ '' '' @ dec_int v @ [CHR 0x0A])"

lemma lglreadopts_line:
  assumes "word_ok n" "c_int v"
  shows "lglreadopts lgl (option_line (n, v) @ rest) res = lglreadopts (lglsetopt lgl n v) rest (Suc res)"
proof -
  note w = dec_int_word [OF assms(2)]
  obtain c cs d ds where n: "n = c # cs" and i: "dec_int v = d # ds"
    using assms(1) w(1) by (metis neq_Nil_conv word_ok_def)
  have nw: "\<not> lglws c" "list_all (\<lambda>c. \<not> lglws c) cs" "length cs \<le> 38"
    and iw: "\<not> lglws d" "list_all (\<lambda>c. \<not> lglws c) ds" "length ds \<le> 38"
    using assms(1) w n i by (auto simp: word_ok_def list_all_iff)
  have s: "lglws CHR '' ''" "lglws CHR 0x0A" by (simp_all add: lglws_def)
  have t: "option_line (n, v) @ rest = c # cs @ CHR '' '' # d # ds @ CHR 0x0A # rest"
    by (simp add: option_line_def n i)
  have r: "read_opt [c] (cs @ CHR '' '' # d # ds @ CHR 0x0A # rest) = Some (n, d # ds @ CHR 0x0A # rest)"
    "read_val [d] (ds @ CHR 0x0A # rest) = (dec_int v, rest)"
    using read_opt_word [OF nw(2) _ s(1), of "[c]"] read_val_word [OF iw(2) _ s(2), of "[d]"] nw(3) iw(3)
    by (simp_all add: n i)
  have c: "c_str n = n" "c_str (dec_int v) = dec_int v"
    using c_str_word assms(1) w(2) by (simp_all add: word_ok_def)
  show ?thesis unfolding t
    by (subst lglreadopts.simps) (simp add: nw(1) iw(1) r c atoi_dec_int)
qed

lemma lglreadopts_lines:
  "\<forall>(n, v)\<in>set kvs. word_ok n \<and> c_int v \<Longrightarrow>
     lglreadopts lgl (concat (map option_line kvs)) res = (lglsetopts lgl kvs, res + length kvs)"
proof (induction kvs arbitrary: lgl res)
  case Nil
  then show ?case by (subst lglreadopts.simps) (simp add: lglsetopts_def)
next
  case (Cons kv kvs)
  then show ?case using lglreadopts_line [of "fst kv" "snd kv"]
    by (cases kv) (simp add: lglsetopts_def)
qed

section \<open>Walking over the options\<close>

text \<open>
  The names that the client loop of lglmbt.c and lglddtrace.c, it = lglfirstopt (); while
  ((it = lglnextopt (it, ...))), is given.
\<close>

function nextopt_names :: "Opt list \<Rightarrow> nat \<Rightarrow> string list" where
  "nextopt_names os i =
     (case lglnextopt os i of None \<Rightarrow> [] | Some (j, n, _) \<Rightarrow> n # nextopt_names os j)"
  by pat_completeness auto
termination
  by (relation "measure (\<lambda>(os, i). length os - i)") (auto simp: lglnextopt_def Let_def split: if_splits)

declare nextopt_names.simps [simp del]

lemma nextopt_names_from: "nextopt_names os i = map lng (butlast (drop i os))"
proof (induction os i rule: nextopt_names.induct)
  case (1 os i)
  show ?case
  proof (cases "Suc i > length os - 1")
    case True
    then have "length (drop i os) \<le> 1" by simp
    then have "butlast (drop i os) = []" by (cases "drop i os") auto
    then show ?thesis using True by (subst nextopt_names.simps) (simp add: lglnextopt_def)
  next
    case False
    then have "drop i os = os ! i # drop (Suc i) os" "drop (Suc i) os \<noteq> []"
      by (simp_all add: Cons_nth_drop_Suc)
    then show ?thesis using 1 False by (subst nextopt_names.simps) (simp add: lglnextopt_def Let_def)
  qed
qed

lemma lglgetenv_ok:
  assumes "opt_static ot" "in_range ot"
  shows "shape (fst (lglgetenv env ot cl)) = shape ot \<and> in_range (fst (lglgetenv env ot cl))"
proof -
  have "omin ot \<le> omax ot" using assms(2) unfolding in_range_def by linarith
  then show ?thesis using assms(2)
    by (auto simp: lglgetenv_def Let_def in_range_def split: option.splits)
qed

lemma lglpcs_values:
  assumes st: "opt_static ot" and p: "lglpcs mixed ot = PValues vs d"
  shows "d = dflt ot \<and> d \<in> set vs \<and> sorted_wrt (<) vs \<and> hd vs = omin ot \<and> last vs = omax ot"
proof -
  have r: "omin ot \<le> dflt ot" "dflt ot \<le> omax ot" using st by (simp_all add: opt_static_def)
  let ?range = "omax ot - omin ot"
  show ?thesis
  proof (cases "?range < 7")
    case True
    then have vs: "vs = [omin ot .. omax ot]" "d = dflt ot" using p r
      by (auto simp: lglpcs_def Let_def upto.simps [of "omin ot"] split: if_splits)
    have ne: "[omin ot .. omax ot] \<noteq> []" using r by simp
    have le: "omin ot \<le> omax ot" using r by linarith
    have "hd vs = omin ot" "last vs = omax ot" unfolding vs using upto_rec1 [OF le] upto_rec2 [OF le] by (metis list.sel(1), metis last_snoc)
    moreover have "sorted_wrt (<) [omin ot .. omax ot]" by (rule sorted_wrt_upto)
    ultimately show ?thesis using r unfolding vs by simp
  next
    case False
    define r1 r2 r3 where "r1 = (1 * ?range + 3) div 4" and "r2 = (2 * ?range + 3) div 4" and "r3 = (3 * ?range + 3) div 4"
    define h1 h2 where "h1 = (omax ot - dflt ot) div 2" and "h2 = (dflt ot - omin ot) div 2"
    have "vs = [omin ot, omin ot + (1 * ?range + 3) div 4, omin ot + (2 * ?range + 3) div 4,
          omin ot + (3 * ?range + 3) div 4, omax ot] \<and> (dflt ot = omin ot \<or> dflt ot = omax ot) \<or>
        vs = [omin ot, dflt ot, dflt ot + (omax ot - dflt ot) div 2, omax ot] \<and> dflt ot = omin ot + 1 \<or>
        vs = [omin ot, omin ot + (dflt ot - omin ot) div 2, dflt ot, omax ot] \<and> dflt ot + 1 = omax ot \<or>
        vs = [omin ot, omin ot + (dflt ot - omin ot) div 2, dflt ot,
          dflt ot + (omax ot - dflt ot) div 2, omax ot] \<and> omin ot + 1 < dflt ot \<and> dflt ot + 1 < omax ot"
      and d: "d = dflt ot"
      using p r False by (auto simp: lglpcs_def Let_def split: if_splits)
    then have "vs = [omin ot, omin ot + r1, omin ot + r2, omin ot + r3, omax ot] \<and> (dflt ot = omin ot \<or> dflt ot = omax ot) \<or>
        vs = [omin ot, dflt ot, dflt ot + h1, omax ot] \<and> dflt ot = omin ot + 1 \<or>
        vs = [omin ot, omin ot + h2, dflt ot, omax ot] \<and> dflt ot + 1 = omax ot \<or>
        vs = [omin ot, omin ot + h2, dflt ot, dflt ot + h1, omax ot] \<and> omin ot + 1 < dflt ot \<and> dflt ot + 1 < omax ot"
      unfolding r1_def r2_def r3_def h1_def h2_def by blast
    moreover have div4: "4 * (x div 4) \<le> x" "x < 4 * (x div 4) + 4" for x :: int by presburger+
    have "4 * r1 \<le> ?range + 3" "?range + 3 < 4 * r1 + 4" "4 * r2 \<le> 2 * ?range + 3" "2 * ?range + 3 < 4 * r2 + 4"
      "4 * r3 \<le> 3 * ?range + 3" "3 * ?range + 3 < 4 * r3 + 4"
      using div4 [of "1 * ?range + 3"] div4 [of "2 * ?range + 3"] div4 [of "3 * ?range + 3"]
      by (simp_all only: r1_def r2_def r3_def mult_1)
    moreover have div2: "2 * (x div 2) \<le> x" "x < 2 * (x div 2) + 2" for x :: int by presburger+
    have "2 * h1 \<le> omax ot - dflt ot" "omax ot - dflt ot < 2 * h1 + 2" "2 * h2 \<le> dflt ot - omin ot" "dflt ot - omin ot < 2 * h2 + 2"
      using div2 [of "omax ot - dflt ot"] div2 [of "dflt ot - omin ot"] by (simp_all only: h1_def h2_def)
    moreover have "7 \<le> ?range" using False by simp
    ultimately show ?thesis using d r by (elim disjE conjE) simp_all
  qed
qed

section \<open>The properties of the options\<close>

text \<open>
  C32: Initialisation.  Whatever the environment holds, after lglinitopts every option of the
  table is present, in order and with its range and default, and its value lies in its range.
  The assertions of lglinitopts and lglgetenv on the table hold: the default is in the range,
  the name fits the buffer; and no name occurs twice.
\<close>
theorem lglinitopts_wf:
  "opts_ok (lglinitopts env) \<and> distinct (map lng (lglinitopts env)) \<and> list_all opt_static (lglinitopts env)"
proof -
  have ok: "opts_ok (lglinitopts env)"
    unfolding lglinitopts_def by (rule opts_ok_map [OF opts_ok_opttab lglgetenv_ok])
  then show ?thesis using opts_ok_distinct [OF ok] opts_ok_static [OF ok] by (simp only: list_all_iff) blast
qed

text \<open>
  C31: Setting an option.  lglsetopt of a known option changes exactly what setopt_spec says
  of every option of the table: the option itself gets the value clamped to its range;
  switching plain on or off zeroes the fourteen preprocessors or puts them back to their
  defaults, wait the eleven waiting options the other way round, druplig its five; and as long
  as druplig is on, its five options are zero.  All other options keep their values.
\<close>
theorem lglsetopt_correct:
  assumes "opts_ok (opts lgl)" "lgligetopt (opts lgl) opt = Some ot" "n \<in> set (map lng opttab)"
  shows "lglgetopt (opts (lglsetopt lgl opt v)) n = setopt_spec (opts lgl) ot v n"
  by (rule lglsetopt_spec [OF assms])

theorem lglsetopt_correct_witness:
  "lglgetopt (opts (lglsetopt \<lparr>opts = opttab, state = UNUSED, flushphases = False\<rparr> ''plain'' 7)) ''bca'' = 0"
proof -
  let ?l = "\<lparr>opts = opttab, state = UNUSED, flushphases = False\<rparr>"
  obtain ot where ot: "lgligetopt (opts ?l) ''plain'' = Some ot"
    using opts_ok_lookup [OF opts_ok_opttab special_in_table, of "''plain''"] by (auto simp: special_names_def)
  have n: "''bca'' \<in> set (map lng opttab)" "''druplig'' \<in> set (map lng opttab)"
    by (intro special_in_table; simp add: special_names_def plain_names_def)+
  have l: "lng ot = ''plain''" "ot \<in> set opttab" using lgligetopt_Some [OF ot] by auto
  have "opt_static ot" "oval ot = dflt ot" using opts_ok_static [OF opts_ok_opttab l(2)]
    opttab_dflt [unfolded list_all_iff] l(2) by blast+
  then have "clamp ot 7 = 1" using l(1) by (simp add: clamp_def opt_static_def)
  moreover have "oval ot = 0"
  proof -
    have "ot \<in> set opttab2"
      using l opttab_letters by (fastforce simp: opttab_def list_all_iff first_char_def)
    then show ?thesis using l(1) by (auto simp: opttab2_def OPT_def)
  qed
  ultimately show ?thesis
    using lglsetopt_correct [of ?l "''plain''" ot "''bca''" 7] opts_ok_opttab ot n(1) l(1)
    by (simp add: setopt_spec_def Let_def plain_names_def)
qed

text \<open>
  C14: The invariant of the options survives every sequence of calls of lglsetopt, with known
  and unknown names and arbitrary values: the table keeps its shape, every value stays in its
  range, and whenever druplig is on the options it excludes are zero.
\<close>
theorem lglsetopt_invariant:
  assumes "opts_ok (opts lgl)" "drup_inv (opts lgl)"
  shows "opts_ok (opts (lglsetopts lgl kvs)) \<and> drup_inv (opts (lglsetopts lgl kvs))"
  by (rule lglsetopts_inv [OF assms])

theorem lglsetopt_invariant_witness:
  "drup_inv (opts (lglsetopts \<lparr>opts = opttab, state = UNUSED, flushphases = False\<rparr>
     [(''druplig'', 1), (''gauss'', 1), (''plain'', 1), (''plain'', 0), (''nosuch'', 5)]))"
  using lglsetopt_invariant [of "\<lparr>opts = opttab, state = UNUSED, flushphases = False\<rparr>"]
    opts_ok_opttab drup_inv_opttab by simp

text \<open>
  C33: An option file is read back.  For options whose names fit the buffer and values that
  are ints, reading the lines "name value" in decimal sets exactly these options in this order
  and counts them.
\<close>
theorem lglreadopts_roundtrip:
  assumes "\<forall>(n, v)\<in>set kvs. word_ok n \<and> c_int v"
  shows "lglreadopts lgl (concat (map option_line kvs)) 0 = (lglsetopts lgl kvs, length kvs)"
  using lglreadopts_lines [OF assms, of lgl 0] by simp

theorem lglreadopts_roundtrip_witness:
  "lglreadopts \<lparr>opts = opttab, state = UNUSED, flushphases = False\<rparr>
     (concat (map option_line [(''seed'', 42), (''phase'', -1)])) 0 =
   (lglsetopts \<lparr>opts = opttab, state = UNUSED, flushphases = False\<rparr> [(''seed'', 42), (''phase'', -1)], 2)"
  using lglreadopts_roundtrip [of "[(''seed'', 42), (''phase'', -1)]"]
  by (simp add: word_ok_def lglws_def c_int_def c_int_limits)

text \<open>
  The values printed for a parameter tuner.  Whenever lglpcs prints a list of values for
  an option of the table, the list is strictly increasing from the minimum to the maximum of
  the option and contains the default that follows it in brackets.
\<close>
theorem lglpcs_sorted:
  assumes "opt_static ot" "lglpcs mixed ot = PValues vs d"
  shows "d = dflt ot \<and> d \<in> set vs \<and> sorted_wrt (<) vs \<and> hd vs = omin ot \<and> last vs = omax ot"
  by (rule lglpcs_values [OF assms])

theorem lglpcs_sorted_witness:
  "sorted_wrt (<) [0, 250, 500, 750, (1000::int)]"
  using lglpcs_sorted [of "OPT ''penx'' 0 0 1000" 1 "[0, 250, 500, 750, 1000]" 0]
  by (simp add: OPT_def opt_static_def plain_names_def drup_names_def wait_names_def c_int_limits lglpcs_def lglignopt_def)

text \<open>
  The iteration over the options misses the last one.  The client loop of lglfirstopt and
  lglnextopt is given the names of all options but the last: lglnextopt returns 0 for the last
  option before it has stored its name and values.
\<close>
theorem lglnextopt_misses_last:
  "nextopt_names os (lglfirstopt os) = map lng (butlast os)"
  by (simp add: lglfirstopt_def nextopt_names_from)

end
