(* ===== verification/Pl_Lingeling.thy ===== *)
theory Pl_Lingeling
  imports Lgl_Opts Pl_Sharing
begin

text \<open>
  The wrapper of lingeling in painless, src/painless-v2/painless-src/solvers/Lingeling.cpp: the
  options it sets, and the callbacks by which the solver exports and imports clauses, with the two
  arrays in which imported literals are handed over.  Shared clauses are those of Pl_Sharing,
  options those of lingeling itself (Lgl_Opts); a ClauseBuffer is the list of its clauses.  An
  array has the length that was allocated, and a write behind its end is None.
\<close>

section \<open>Options\<close>

text \<open>The options of a new solver: its own, read from the environment, and three that are switched off.\<close>

definition Lingeling_opts :: "(string \<Rightarrow> string option) \<Rightarrow> olgl" where
  "Lingeling_opts getenv =
     lglsetopts \<lparr>opts = lglinitopts getenv, state = UNUSED, flushphases = False\<rparr> [(''druplig'', 0), (''bca'', 0), (''profile'', 0)]"

definition native_settings :: "int \<Rightarrow> (string \<times> int) list" where
  "native_settings k =
     (if k = 1 then [(''plain'', 1), (''decompose'', 1)]
      else if k = 2 then [(''restartint'', 1000)]
      else if k = 3 then [(''elmresched'', 7)]
      else if k = 4 then [(''scincincmin'', 250)]
      else if k = 5 then [(''block'', 0), (''cce'', 0)]
      else if k = 6 then [(''scincinc'', 50)]
      else if k = 7 then [(''phase'', -1)]
      else if k = 8 then [(''phase'', 1)]
      else if k = 9 then [(''sweeprtc'', 1)]
      else if k = 10 then [(''restartint'', 100)]
      else if k = 11 then [(''reduceinit'', 10000), (''reducefixed'', 1)]
      else if k = 12 then [(''restartint'', 4)]
      else [])"

definition diversify :: "nat \<Rightarrow> olgl \<Rightarrow> olgl" where
  "diversify num lgl = lglsetopts lgl ([(''seed'', int num), (''classify'', 0)] @ native_settings (int (num mod 13)))"

section \<open>Exchange of clauses\<close>

record Lingeling =
  lp_id :: nat
  glueLimit :: int
  lp_export :: "nat list"
  lp_units :: "nat list"
  lp_clauses :: "nat list"
  unitsBufferSize :: nat
  clsBufferSize :: nat
  unitsBuffer :: "int list"
  clsBuffer :: "int list"

definition Lingeling_new :: "nat \<Rightarrow> int \<Rightarrow> Lingeling" where
  "Lingeling_new num limit =
     \<lparr>lp_id = num, glueLimit = limit, lp_export = [], lp_units = [], lp_clauses = [], unitsBufferSize = 100, clsBufferSize = 100,
      unitsBuffer = replicate 100 0, clsBuffer = replicate 100 0\<rparr>"

text \<open>realloc keeps the front of an array.\<close>

definition realloc :: "nat \<Rightarrow> int list \<Rightarrow> int list" where
  "realloc n b = take n b @ replicate (n - length b) 0"

definition produceUnit :: "int \<Rightarrow> Lingeling \<Rightarrow> store \<Rightarrow> Lingeling \<times> store" where
  "produceUnit lit lp h =
     (let (ncls, h) = allocClause 1 h
      in (lp\<lparr>lp_export := lp_export lp @ [ncls]\<rparr>,
          h[ncls := map_option (\<lambda>c. c\<lparr>lits := [lit], origin := lp_id lp\<rparr>) (h ! ncls)]))"

text \<open>cls is an array that is terminated by 0.\<close>

definition produce :: "int list \<Rightarrow> int \<Rightarrow> Lingeling \<Rightarrow> store \<Rightarrow> Lingeling \<times> store" where
  "produce cls glue lp h =
     (if cls ! 1 = 0 then produceUnit (cls ! 0) lp h
      else if glue > glueLimit lp \<or> glueLimit lp < 0 then (lp, h)
      else
        let ls = takeWhile (\<lambda>l. l \<noteq> 0) cls; (ncls, h) = allocClause (length ls) h
        in (lp\<lparr>lp_export := lp_export lp @ [ncls]\<rparr>,
            h[ncls := map_option (\<lambda>c. c\<lparr>lits := ls, lbd := glue, origin := lp_id lp\<rparr>) (h ! ncls)]))"

fun write_units :: "nat \<Rightarrow> nat list \<Rightarrow> int list \<Rightarrow> store \<Rightarrow> (int list \<times> store) option" where
  "write_units i [] b h = Some (b, h)"
| "write_units i (p # ps) b h =
     (case (deref p h, releaseClause p h) of
        (Some c, Some h) \<Rightarrow> if i < length b then write_units (i + 1) ps (b[i := lits c ! 0]) h else None
      | _ \<Rightarrow> None)"

text \<open>The array between start and end, and the state.\<close>

definition consumeUnits :: "Lingeling \<Rightarrow> store \<Rightarrow> (int list \<times> Lingeling \<times> store) option" where
  "consumeUnits lp h =
     (let tmp = lp_units lp; lp = lp\<lparr>lp_units := []\<rparr>
      in if tmp = [] then Some ([], lp, h)
         else
           let lp = (if length tmp \<ge> unitsBufferSize lp
                     then let n = 16 * length tmp div 10 in lp\<lparr>unitsBufferSize := n, unitsBuffer := realloc n (unitsBuffer lp)\<rparr> else lp)
           in map_option (\<lambda>(b, h). (take (length tmp) b, lp\<lparr>unitsBuffer := b\<rparr>, h)) (write_units 0 tmp (unitsBuffer lp) h))"

definition write_clause :: "int list \<Rightarrow> int list \<Rightarrow> int list option" where
  "write_clause ls b = (if length ls + 1 \<le> length b then Some (ls @ 0 # drop (length ls + 1) b) else None)"

text \<open>The array with the clause and its glue, or none.\<close>

definition consumeCls :: "Lingeling \<Rightarrow> store \<Rightarrow> ((int list \<times> int) option \<times> Lingeling \<times> store) option" where
  "consumeCls lp h =
     (case lp_clauses lp of
        [] \<Rightarrow> Some (None, lp, h)
      | p # ps \<Rightarrow>
          (case (deref p h, releaseClause p h) of
             (Some c, Some h) \<Rightarrow>
               let lp = lp\<lparr>lp_clauses := ps\<rparr>;
                   lp = (if csize c + 1 \<ge> clsBufferSize lp
                         then let n = 16 * csize c div 10 in lp\<lparr>clsBufferSize := n, clsBuffer := realloc n (clsBuffer lp)\<rparr> else lp)
               in map_option (\<lambda>b. (Some (b, lbd c), lp\<lparr>clsBuffer := b\<rparr>, h)) (write_clause (take (csize c) (lits c)) (clsBuffer lp))
           | _ \<Rightarrow> None))"

definition Lingeling_addLearnedClause :: "store \<Rightarrow> nat \<Rightarrow> Lingeling \<Rightarrow> Lingeling option" where
  "Lingeling_addLearnedClause h p lp =
     (case deref p h of
        None \<Rightarrow> None
      | Some c \<Rightarrow> Some (if csize c = 1 then lp\<lparr>lp_units := lp_units lp @ [p]\<rparr> else lp\<lparr>lp_clauses := lp_clauses lp @ [p]\<rparr>))"

section \<open>Blocked clause addition stays off\<close>

definition bca_off :: "olgl \<Rightarrow> bool" where
  "bca_off lgl \<longleftrightarrow> opts_ok (opts lgl) \<and> lglgetopt (opts lgl) ''bca'' = 0 \<and> lglgetopt (opts lgl) ''druplig'' = 0"

lemma bca_names:
  "''bca'' \<in> set (map lng opttab)" "''druplig'' \<in> set (map lng opttab)"
  by (intro special_in_table; simp add: special_names_def drup_names_def)+

lemma bca_switches:
  "''bca'' \<notin> set wait_names" "''druplig'' \<notin> set wait_names" "''druplig'' \<notin> set plain_names" "''druplig'' \<notin> set drup_names"
  by (simp_all add: wait_names_def plain_names_def drup_names_def)

lemma bca_off_setopt:
  assumes b: "bca_off lgl" and n: "n \<noteq> ''bca''" "n \<noteq> ''druplig''" "n = ''plain'' \<longrightarrow> v > 0"
  shows "bca_off (lglsetopt lgl n v)"
proof (cases "lgligetopt (opts lgl) n")
  case None
  then show ?thesis using b by (simp add: lglsetopt_unknown)
next
  case (Some ot)
  have ok: "opts_ok (opts lgl)" using b by (simp add: bca_off_def)
  have l: "lng ot = n" "ot \<in> set (opts lgl)" using lgligetopt_Some [OF Some] by auto
  have "\<not> (n = ''plain'' \<and> clamp ot v = 0)"
  proof
    assume p: "n = ''plain'' \<and> clamp ot v = 0"
    then have "omax ot = 1" using opts_ok_static [OF ok l(2)] l(1) by (simp add: opt_static_def)
    then show False using p n(3) by (auto simp: clamp_def Let_def split: if_splits)
  qed
  then have "lglgetopt (opts (lglsetopt lgl n v)) ''bca'' = 0" "lglgetopt (opts (lglsetopt lgl n v)) ''druplig'' = 0"
    unfolding lglsetopt_spec [OF ok Some bca_names(1)] lglsetopt_spec [OF ok Some bca_names(2)] setopt_spec_def Let_def
    using b n l(1) bca_switches by (auto simp: bca_off_def)
  then show ?thesis using lglsetopt_ok [OF ok] by (simp add: bca_off_def)
qed

lemma bca_off_setopts:
  "bca_off lgl \<Longrightarrow> list_all (\<lambda>(n, v). n \<noteq> ''bca'' \<and> n \<noteq> ''druplig'' \<and> (n = ''plain'' \<longrightarrow> v > 0)) kvs \<Longrightarrow> bca_off (lglsetopts lgl kvs)"
  unfolding lglsetopts_def by (induction kvs arbitrary: lgl) (auto simp: bca_off_setopt)

lemma bca_off_new: "bca_off (Lingeling_opts getenv)"
proof -
  let ?l0 = "\<lparr>opts = lglinitopts getenv, state = UNUSED, flushphases = False\<rparr>"
  let ?l1 = "lglsetopt ?l0 ''druplig'' 0"
  let ?l2 = "lglsetopt ?l1 ''bca'' 0"
  have ok: "opts_ok (opts ?l0)" unfolding lglinitopts_def olgl.simps by (rule opts_ok_map [OF opts_ok_opttab lglgetenv_ok])
  obtain d where d: "lgligetopt (opts ?l0) ''druplig'' = Some d" using opts_ok_lookup [OF ok bca_names(2)] by blast
  have dl: "lng d = ''druplig''" "d \<in> set (opts ?l0)" using lgligetopt_Some [OF d] by auto
  have "clamp d 0 = 0" using opts_ok_static [OF ok dl(2)] dl(1) by (simp add: opt_static_def clamp_def)
  then have drup: "lglgetopt (opts ?l1) ''druplig'' = 0"
    unfolding lglsetopt_spec [OF ok d bca_names(2)] setopt_spec_def Let_def using dl(1) bca_switches by simp
  have ok1: "opts_ok (opts ?l1)" by (rule lglsetopt_ok [OF ok])
  obtain b where b: "lgligetopt (opts ?l1) ''bca'' = Some b" using opts_ok_lookup [OF ok1 bca_names(1)] by blast
  have bl: "lng b = ''bca''" "b \<in> set (opts ?l1)" using lgligetopt_Some [OF b] by auto
  have "clamp b 0 = 0" using opts_ok_static [OF ok1 bl(2)] bl(1) by (simp add: opt_static_def clamp_def drup_names_def)
  then have "lglgetopt (opts ?l2) ''bca'' = 0" "lglgetopt (opts ?l2) ''druplig'' = 0"
    unfolding lglsetopt_spec [OF ok1 b bca_names(1)] lglsetopt_spec [OF ok1 b bca_names(2)] setopt_spec_def Let_def
    using drup bl(1) by simp_all
  then have "bca_off ?l2" using lglsetopt_ok [OF ok1] by (simp add: bca_off_def)
  then have "bca_off (lglsetopts ?l2 [(''profile'', 0)])" by (rule bca_off_setopts) simp
  then show ?thesis by (simp add: Lingeling_opts_def lglsetopts_def)
qed

lemma native_settings_ok:
  "list_all (\<lambda>(n, v). n \<noteq> ''bca'' \<and> n \<noteq> ''druplig'' \<and> (n = ''plain'' \<longrightarrow> v > 0)) (native_settings k)"
  by (simp add: native_settings_def)

section \<open>The arrays\<close>

definition arrays_ok :: "Lingeling \<Rightarrow> bool" where
  "arrays_ok lp \<longleftrightarrow> length (unitsBuffer lp) = unitsBufferSize lp \<and> length (clsBuffer lp) = clsBufferSize lp \<and>
     100 \<le> unitsBufferSize lp \<and> 100 \<le> clsBufferSize lp"

lemma length_realloc [simp]: "length (realloc n b) = n"
  by (simp add: realloc_def)

lemma arrays_ok_new: "arrays_ok (Lingeling_new num limit)"
  by (simp add: arrays_ok_def Lingeling_new_def)

lemma release_keeps_lits:
  assumes "releaseClause p h = Some h'" "deref q h' = Some c'"
  shows "\<exists>c. deref q h = Some c \<and> lits c = lits c'"
proof -
  obtain c where c: "deref p h = Some c" using assms(1) by (auto simp: releaseClause_def split: option.splits)
  have h': "h' = (if nbRefs c - 1 \<le> 0 then h[p := Some (c\<lparr>nbRefs := nbRefs c - 1\<rparr>), p := None] else h[p := Some (c\<lparr>nbRefs := nbRefs c - 1\<rparr>)])"
    using assms(1) c by (simp add: releaseClause_def Let_def split: if_splits)
  have p: "p < length h" using c by (simp add: deref_def split: if_splits)
  show ?thesis
  proof (cases "q = p")
    case True
    then have "c' = c\<lparr>nbRefs := nbRefs c - 1\<rparr>" using assms(2) p unfolding h' by (auto simp: deref_def split: if_splits)
    then show ?thesis using c True by simp
  next
    case False
    then have "deref q h = Some c'" using assms(2) unfolding h' by (auto simp: deref_def split: if_splits)
    then show ?thesis by blast
  qed
qed

lemma write_units_spec:
  "release_all ps h = Some h' \<Longrightarrow> i + length ps \<le> length b \<Longrightarrow>
     \<exists>b'. write_units i ps b h = Some (b', h') \<and> length b' = length b \<and> take i b' = take i b \<and>
       take (length ps) (drop i b') = map (\<lambda>p. lits (the (deref p h)) ! 0) ps"
proof (induction ps arbitrary: i b h)
  case (Cons p ps)
  obtain h1 where h1: "releaseClause p h = Some h1" "release_all ps h1 = Some h'" using Cons.prems(1) by (auto split: option.splits)
  obtain c where c: "deref p h = Some c" using h1(1) by (auto simp: releaseClause_def split: option.splits)
  have i: "i < length b" using Cons.prems(2) by simp
  obtain b' where b': "write_units (i + 1) ps (b[i := lits c ! 0]) h1 = Some (b', h')" "length b' = length b"
    "take (i + 1) b' = take (i + 1) (b[i := lits c ! 0])" "take (length ps) (drop (i + 1) b') = map (\<lambda>p. lits (the (deref p h1)) ! 0) ps"
    using Cons.IH [OF h1(2), of "i + 1" "b[i := lits c ! 0]"] Cons.prems(2) by auto
  have same: "lits (the (deref q h1)) ! 0 = lits (the (deref q h)) ! 0" if q: "q \<in> set ps" for q
  proof -
    have "\<exists>c'. deref q h1 = Some c'" using h1(2) q
    proof (induction ps arbitrary: h1)
      case (Cons r rs)
      obtain h2 where h2: "releaseClause r h1 = Some h2" "release_all rs h2 = Some h'" using Cons.prems(1) by (auto split: option.splits)
      show ?case
      proof (cases "q = r")
        case True
        then show ?thesis using h2(1) by (auto simp: releaseClause_def split: option.splits)
      next
        case False
        then obtain c' where "deref q h2 = Some c'" using Cons.IH [OF h2(2)] Cons.prems(2) by auto
        then show ?thesis using release_keeps_lits [OF h2(1)] by blast
      qed
    qed simp
    then show ?thesis using release_keeps_lits [OF h1(1)] by force
  qed
  have "b' ! i = lits c ! 0"
  proof -
    have "take (i + 1) b' ! i = take (i + 1) (b[i := lits c ! 0]) ! i" by (simp only: b'(3))
    then show ?thesis using i by simp
  qed
  moreover have "drop i b' = b' ! i # drop (i + 1) b'" using i b'(2) by (simp add: Cons_nth_drop_Suc)
  moreover have "map (\<lambda>p. lits (the (deref p h1)) ! 0) ps = map (\<lambda>p. lits (the (deref p h)) ! 0) ps" using same by simp
  moreover have "take i b' = take i b"
  proof -
    have "take i (take (i + 1) b') = take i (take (i + 1) (b[i := lits c ! 0]))" by (simp only: b'(3))
    then show ?thesis by simp
  qed
  ultimately show ?case using b' c h1(1) i by simp
qed simp

lemma takeWhile_terminated: "0 \<notin> set ls \<Longrightarrow> takeWhile (\<lambda>l. l \<noteq> 0) (ls @ 0 # rest) = (ls :: int list)"
  by (induction ls) auto

lemma consumeCls_spec:
  assumes ok: "arrays_ok lp" and p: "lp_clauses lp = p # ps" "deref p h = Some c" "releaseClause p h = Some h'"
    and c: "csize c = length (lits c)" "0 \<notin> set (lits c)"
  shows "\<exists>b lp'. consumeCls lp h = Some (Some (b, lbd c), lp', h') \<and> takeWhile (\<lambda>l. l \<noteq> 0) b = lits c \<and>
    arrays_ok lp' \<and> lp_clauses lp' = ps \<and> lp_units lp' = lp_units lp"
proof -
  define lp1 where "lp1 = (if csize c + 1 \<ge> clsBufferSize lp
      then lp\<lparr>lp_clauses := ps, clsBufferSize := 16 * csize c div 10, clsBuffer := realloc (16 * csize c div 10) (clsBuffer lp)\<rparr>
      else lp\<lparr>lp_clauses := ps\<rparr>)"
  have lp1: "arrays_ok lp1" "length (lits c) + 1 \<le> length (clsBuffer lp1)" "lp_clauses lp1 = ps" "lp_units lp1 = lp_units lp"
    using ok c(1) by (auto simp: lp1_def arrays_ok_def)
  let ?b = "lits c @ 0 # drop (length (lits c) + 1) (clsBuffer lp1)"
  have w: "write_clause (take (csize c) (lits c)) (clsBuffer lp1) = Some ?b" using lp1(2) c(1) by (simp add: write_clause_def)
  have e: "consumeCls lp h = Some (Some (?b, lbd c), lp1\<lparr>clsBuffer := ?b\<rparr>, h')"
    using p w by (simp add: consumeCls_def Let_def lp1_def split: if_splits)
  moreover have "arrays_ok (lp1\<lparr>clsBuffer := ?b\<rparr>)" using lp1(1,2) by (simp add: arrays_ok_def)
  ultimately show ?thesis using takeWhile_terminated [OF c(2)] lp1(3,4) by (intro exI [of _ ?b] exI [of _ "lp1\<lparr>clsBuffer := ?b\<rparr>"]) simp
qed

section \<open>The properties\<close>


text \<open>
  the units to import fit the array of lingeling, however many there are: when the references
  can be given back, consumeUnits returns the first literal of every clause in order, gives the
  references back, and never writes behind the end of the array.
\<close>

theorem consumeUnits_correct:
  assumes "arrays_ok lp" "release_all (lp_units lp) h = Some h'"
  shows "\<exists>lp'. consumeUnits lp h = Some (map (\<lambda>p. lits (the (deref p h)) ! 0) (lp_units lp), lp', h') \<and> arrays_ok lp' \<and> lp_units lp' = []"
proof (cases "lp_units lp = []")
  case True
  then show ?thesis using assms by (simp add: consumeUnits_def arrays_ok_def)
next
  case False
  let ?n = "length (lp_units lp)"
  define lp1 where "lp1 = (if ?n \<ge> unitsBufferSize lp
      then lp\<lparr>lp_units := [], unitsBufferSize := 16 * ?n div 10, unitsBuffer := realloc (16 * ?n div 10) (unitsBuffer lp)\<rparr>
      else lp\<lparr>lp_units := []\<rparr>)"
  have lp1: "arrays_ok lp1" "0 + ?n \<le> length (unitsBuffer lp1)" "lp_units lp1 = []" using assms(1) by (auto simp: lp1_def arrays_ok_def)
  obtain b where b: "write_units 0 (lp_units lp) (unitsBuffer lp1) h = Some (b, h')" "length b = length (unitsBuffer lp1)"
    "take ?n b = map (\<lambda>p. lits (the (deref p h)) ! 0) (lp_units lp)"
    using write_units_spec [OF assms(2) lp1(2)] by auto
  have "consumeUnits lp h = Some (take ?n b, lp1\<lparr>unitsBuffer := b\<rparr>, h')"
    using False b(1) by (simp add: consumeUnits_def Let_def lp1_def split: if_splits)
  then show ?thesis using b lp1 by (simp add: arrays_ok_def)
qed

theorem consumeUnits_correct_witness:
  "\<exists>lp' h'. consumeUnits ((Lingeling_new 0 2)\<lparr>lp_units := [0]\<rparr>) [Some \<lparr>nbRefs = 1, lbd = 0, origin = 1, csize = 1, lits = [5]\<rparr>] = Some ([5], lp', h') \<and>
    arrays_ok lp'"
proof -
  let ?lp = "(Lingeling_new 0 2)\<lparr>lp_units := [0]\<rparr>" and ?h = "[Some \<lparr>nbRefs = 1, lbd = 0, origin = 1, csize = 1, lits = [5]\<rparr>]"
  have ok: "arrays_ok ?lp" using arrays_ok_new [of 0 2] by (simp add: arrays_ok_def)
  have "release_all (lp_units ?lp) ?h = Some [None]" by (simp add: releaseClause_def deref_def)
  from consumeUnits_correct [OF ok this] show ?thesis by (auto simp: deref_def)
qed



end
