(* ===== verification/Lgl_Flt.thy ===== *)
theory Lgl_Flt
  imports Lsq_Prelude
begin

text \<open>
  The integer logarithms and the software floating point numbers of
  src/painless-v2/lingeling/lglib.c (lglfloorld to lglshflt), in which the solver keeps
  its variable scores.  A number of C type Flt is a 64 bit word: bit 63 is clear, bits
  32 to 62 hold the exponent offset by EXPZRO and bits 0 to 31 the mantissa without its
  leading one.  The all-zero word FLTMIN stands for zero and FLTMAX for infinity.  Exp is
  a C int, modelled as an unbounded integer (the theorems show that no intermediate value
  leaves the range of int), Mnt a 64 bit word.

  The lemmas relate the operations to the exact value of a number, scaled by
  2 to the EXPZRO so that it is an integer.
\<close>

section \<open>Integer logarithms\<close>

text \<open>The static table, with the macro LT (sixteen copies) written with replicate.\<close>

definition LT :: "int \<Rightarrow> int list" where
  "LT n = replicate 16 n"

definition lglfloorldtab :: "int list" where
  "lglfloorldtab =
     [-1, 0, 1, 1, 2, 2, 2, 2, 3, 3, 3, 3, 3, 3, 3, 3] @
     LT 4 @ LT 5 @ LT 5 @ LT 6 @ LT 6 @ LT 6 @ LT 6 @
     LT 7 @ LT 7 @ LT 7 @ LT 7 @ LT 7 @ LT 7 @ LT 7 @ LT 7"

definition lglfloorld :: "int \<Rightarrow> int" where
  "lglfloorld n =
     (if n < 2 ^ 8 then lglfloorldtab ! nat n
      else if n < 2 ^ 16 then 8 + lglfloorldtab ! nat (drop_bit 8 n)
      else if n < 2 ^ 24 then 16 + lglfloorldtab ! nat (drop_bit 16 n)
      else 24 + lglfloorldtab ! nat (drop_bit 24 n))"

definition lglispow2 :: "int \<Rightarrow> bool" where
  "lglispow2 n \<longleftrightarrow> n AND (n - 1) = 0"

definition lglceild :: "int \<Rightarrow> int" where
  "lglceild n = (let res = lglfloorld n in if \<not> lglispow2 n then res + 1 else res)"

lemma lglfloorldtab_range:
  assumes "0 < i" "i < 256"
  shows "0 \<le> lglfloorldtab ! i \<and> 2 ^ nat (lglfloorldtab ! i) \<le> int i \<and>
    int i < 2 ^ Suc (nat (lglfloorldtab ! i)) \<and> lglfloorldtab ! i \<le> 7"
proof -
  let ?P = "\<lambda>(i, r). 0 \<le> r \<and> 2 ^ nat r \<le> i \<and> i < 2 ^ Suc (nat r) \<and> (r::int) \<le> 7"
  have "list_all ?P (zip [1..255] (tl lglfloorldtab))" by code_simp
  moreover have len: "length [1::int..255] = 255" "length (tl lglfloorldtab) = 255"
    by (simp_all add: lglfloorldtab_def LT_def)
  ultimately have "?P ([1..255] ! (i - 1), tl lglfloorldtab ! (i - 1))"
    using assms unfolding list_all_length by (auto simp del: nth_upto)
  moreover have "[1..255] ! (i - 1) = int i" "tl lglfloorldtab ! (i - 1) = lglfloorldtab ! i"
    using assms len by (simp_all add: nth_tl)
  ultimately show ?thesis by simp
qed

lemma floorld_shift:
  assumes "2 ^ k \<le> n" "n < 2 ^ (k + 8)"
  shows "let r = lglfloorldtab ! nat (drop_bit k n) in
    0 \<le> r \<and> 2 ^ nat (int k + r) \<le> n \<and> n < 2 ^ Suc (nat (int k + r)) \<and> r \<le> 7"
proof -
  have d: "drop_bit k n = n div 2 ^ k" by (simp add: drop_bit_eq_div)
  have "2 ^ k div 2 ^ k \<le> n div 2 ^ k" using assms(1) by (rule zdiv_mono1) simp
  then have 1: "1 \<le> n div 2 ^ k" by simp
  have "n < 2 ^ 8 * 2 ^ k" using assms(2) by (simp add: power_add)
  then have 2: "n div 2 ^ k < 2 ^ 8" by (rule int_div_pow_less)
  define r where "r = lglfloorldtab ! nat (n div 2 ^ k)"
  have r: "0 \<le> r" "2 ^ nat r \<le> n div 2 ^ k" "n div 2 ^ k < 2 ^ Suc (nat r)" "r \<le> 7"
    using lglfloorldtab_range [of "nat (n div 2 ^ k)"] 1 2 unfolding r_def by auto
  have e: "nat (int k + r) = k + nat r" using r(1) by (simp add: nat_add_distrib)
  have "2 ^ nat r * 2 ^ k \<le> n div 2 ^ k * 2 ^ k" using r(2) by (rule mult_right_mono) simp
  also have "\<dots> \<le> n" by (rule int_div_pow)
  finally have lo: "2 ^ nat (int k + r) \<le> n" unfolding e by (simp add: power_add mult.commute)
  have "n < (n div 2 ^ k + 1) * 2 ^ k" using int_div_pow(2) [of n k] by (simp add: algebra_simps)
  also have "\<dots> \<le> 2 ^ Suc (nat r) * 2 ^ k" using r(3) by (intro mult_right_mono) auto
  finally have hi: "n < 2 ^ Suc (nat (int k + r))" unfolding e by (simp add: power_add ac_simps)
  show ?thesis using r lo hi unfolding d r_def [symmetric] Let_def by blast
qed

lemma lglfloorld_correct:
  assumes "0 < n" "n \<le> INT_MAX"
  shows "0 \<le> lglfloorld n \<and> 2 ^ nat (lglfloorld n) \<le> n \<and> n < 2 ^ Suc (nat (lglfloorld n)) \<and>
    lglfloorld n \<le> 31"
proof -
  consider "n < 2 ^ 8" | "2 ^ 8 \<le> n" "n < 2 ^ 16" | "2 ^ 16 \<le> n" "n < 2 ^ 24" | "2 ^ 24 \<le> n"
    by linarith
  then show ?thesis
  proof cases
    case 1
    then show ?thesis using lglfloorldtab_range [of "nat n"] assms(1) by (auto simp: lglfloorld_def nat_less_iff)
  next
    case 2
    then show ?thesis using floorld_shift [of 8 n] by (auto simp: lglfloorld_def Let_def)
  next
    case 3
    then show ?thesis using floorld_shift [of 16 n] by (auto simp: lglfloorld_def Let_def)
  next
    case 4
    then show ?thesis using floorld_shift [of 24 n] assms by (auto simp: lglfloorld_def Let_def INT_MAX_def)
  qed
qed

lemma lglispow2_rec:
  assumes "0 < n"
  shows "lglispow2 (2 * n) = lglispow2 n" "lglispow2 (2 * n + 1) \<longleftrightarrow> False"
proof -
  have h: "(2 * n - 1) div 2 = n - 1" by presburger
  have "2 * n AND (2 * n - 1) = 2 * (n AND (n - 1))"
    by (subst and_int_rec) (simp add: h)
  then show "lglispow2 (2 * n) = lglispow2 n" by (simp add: lglispow2_def)
  have "(2 * n + 1) AND (2 * n) = 2 * n"
    by (subst and_int_rec) simp
  then show "lglispow2 (2 * n + 1) \<longleftrightarrow> False" using assms by (simp add: lglispow2_def)
qed

lemma lglispow2_correct:
  assumes "0 < n"
  shows "lglispow2 n \<longleftrightarrow> (\<exists>k. n = 2 ^ k)"
  using assms
proof (induction "nat n" arbitrary: n rule: less_induct)
  case less
  consider "n = 1" | m where "n = 2 * m" "0 < m" | m where "n = 2 * m + 1" "0 < m"
  proof (cases "even n")
    case True then obtain m where "n = 2 * m" by blast
    with less.prems that(2) show ?thesis by auto
  next
    case False then obtain m where "n = 2 * m + 1" using oddE by blast
    with less.prems that(1,3) show ?thesis by (cases "m = 0") auto
  qed
  then show ?case
  proof cases
    case 1 then show ?thesis by (auto simp: lglispow2_def intro: exI [of _ 0])
  next
    case 2
    have "lglispow2 m \<longleftrightarrow> (\<exists>k. m = 2 ^ k)" using less.hyps [of m] 2 by auto
    moreover have "(\<exists>k. 2 * m = 2 ^ k) \<longleftrightarrow> (\<exists>k. m = 2 ^ k)"
    proof
      assume "\<exists>k. 2 * m = 2 ^ k"
      then obtain k where k: "2 * m = 2 ^ k" by blast
      then obtain j where "k = Suc j" by (cases k) (simp, presburger, blast)
      with k show "\<exists>k. m = 2 ^ k" by auto
    next
      assume "\<exists>k. m = 2 ^ k"
      then show "\<exists>k. 2 * m = 2 ^ k" by (metis power_Suc)
    qed
    ultimately show ?thesis using 2 lglispow2_rec(1) by simp
  next
    case 3
    have "\<nexists>k. n = 2 ^ k"
    proof
      assume "\<exists>k. n = 2 ^ k"
      then obtain k where "n = 2 ^ k" by blast
      moreover from this 3 have "k \<noteq> 0" by (intro notI) simp
      ultimately have "even n" by simp
      with 3 show False by simp
    qed
    then show ?thesis using 3 lglispow2_rec(2) by simp
  qed
qed

lemma lglceild_correct:
  assumes "0 < n" "n \<le> INT_MAX"
  shows "0 \<le> lglceild n \<and> n \<le> 2 ^ nat (lglceild n) \<and> (\<forall>k. n \<le> 2 ^ k \<longrightarrow> nat (lglceild n) \<le> k)"
proof -
  let ?f = "nat (lglfloorld n)"
  note f = lglfloorld_correct [OF assms]
  show ?thesis
  proof (cases "lglispow2 n")
    case True
    then obtain j where j: "n = 2 ^ j" using lglispow2_correct [OF assms(1)] by blast
    have "(2::int) ^ ?f \<le> 2 ^ j" "(2::int) ^ j < 2 ^ Suc ?f" using f j by auto
    then have "?f = j" by (simp add: power_strict_increasing_iff less_Suc_eq_le del: power_Suc)
    then show ?thesis using True f j by (auto simp: lglceild_def power_increasing_iff)
  next
    case False
    have s: "nat (lglceild n) = Suc ?f" "0 \<le> lglceild n" using False f by (auto simp: lglceild_def Let_def)
    have "Suc ?f \<le> k" if "n \<le> 2 ^ k" for k
    proof -
      have "n \<noteq> 2 ^ ?f" using False lglispow2_correct [OF assms(1)] by blast
      with f that have "(2::int) ^ ?f < 2 ^ k" by linarith
      then show ?thesis by (simp add: power_strict_increasing_iff)
    qed
    then show ?thesis using s f by (auto simp del: power_Suc)
  qed
qed

section \<open>Software floating point numbers\<close>

definition EXPMIN :: int where "EXPMIN = 0x00000000"
definition EXPZRO :: int where "EXPZRO = 0x10000000"
definition EXPMAX :: int where "EXPMAX = 0x7fffffff"
definition MNTBIT :: u64 where "MNTBIT = 0x0000000100000000"
definition MNTMAX :: u64 where "MNTMAX = 0x00000001ffffffff"
definition FLTMIN :: u64 where "FLTMIN = 0x0000000000000000"
definition FLTMAX :: u64 where "FLTMAX = 0x7fffffffffffffff"

text \<open>lglchkflt asserts this of every argument: the sign bit is clear.\<close>

definition lglchkflt :: "u64 \<Rightarrow> bool" where
  "lglchkflt a \<longleftrightarrow> 0 \<le> sint a \<and> a \<le> FLTMAX"

text \<open>Reading the exponent shifts arithmetically, as C does on the signed type Flt.\<close>

definition lglexp :: "u64 \<Rightarrow> int" where
  "lglexp a = sint (signed_drop_bit 32 a) - EXPZRO"

definition lglmnt :: "u64 \<Rightarrow> u64" where
  "lglmnt a = (a AND MNTMAX) OR MNTBIT"

text \<open>
  The two normalisation loops of lglflt: the mantissa moves up until bit 32 is set, or
  down until it is the highest bit.  Each stops when the exponent is the least int.
\<close>

function lglflt_up :: "int \<Rightarrow> u64 \<Rightarrow> int \<times> u64" where
  "lglflt_up e m =
     (if m AND MNTBIT = 0
      then (let m' = push_bit 1 m in if e > INT_MIN then lglflt_up (e - 1) m' else (e, m'))
      else (e, m))"
  by pat_completeness auto
termination by (relation "measure (\<lambda>(e, m). nat (e - INT_MIN))") auto

function lglflt_down :: "int \<Rightarrow> u64 \<Rightarrow> int \<times> u64" where
  "lglflt_down e m =
     (if m > MNTMAX
      then (let m' = drop_bit 1 m in if e > INT_MIN then lglflt_down (e + 1) m' else (e, m'))
      else (e, m))"
  by pat_completeness auto
termination
proof (relation "measure (\<lambda>(e, m). unat m)", goal_cases)
  case (2 e m m')
  then show ?case
   by (simp add: MNTMAX_def drop_bit_eq_div unat_div word_less_nat_alt)
qed auto
declare lglflt_up.simps [simp del] lglflt_down.simps [simp del]

definition lglflt :: "int \<Rightarrow> u64 \<Rightarrow> u64" where
  "lglflt e m =
     (if m = 0 then FLTMIN
      else
        let (e, m) = (if m < MNTBIT then lglflt_up e m else lglflt_down e m)
        in if e < - EXPZRO then FLTMIN
           else if e > EXPMAX - EXPZRO then FLTMAX
           else (m AND NOT MNTBIT) OR push_bit 32 (word_of_int (e + EXPZRO)))"

text \<open>
  The normalisation loop of lglrat ends only for a mantissa that is not 0, which the
  caller guarantees, so the loop is an option: None is an endless loop.
\<close>

partial_function (option) lglrat_up :: "int \<Rightarrow> u64 \<Rightarrow> (int \<times> u64) option" where
  "lglrat_up e m =
     (if m AND 0x8000000000000000 = 0 then lglrat_up (e - 1) (push_bit 1 m) else Some (e, m))"

definition lglrat :: "u32 \<Rightarrow> u32 \<Rightarrow> u64 option" where
  "lglrat n d =
     (if n = 0 then Some FLTMIN
      else if d = 0 then Some FLTMAX
      else
        (case lglrat_up 0 (ucast n) of
           None \<Rightarrow> None
         | Some (e, m) \<Rightarrow> Some (lglflt e (m div ucast d))))"

definition lgladdflt :: "u64 \<Rightarrow> u64 \<Rightarrow> u64" where
  "lgladdflt a b =
     (if a = FLTMAX then FLTMAX
      else if b = FLTMAX then FLTMAX
      else if a = FLTMIN then b
      else if b = FLTMIN then a
      else
        let e = lglexp a; f = lglexp b;
            (e, f, a, b) = (if e < f then (f, e, b, a) else (e, f, a, b));
            m = lglmnt a; n = lglmnt b;
            m = (if e - f < 64 then m + drop_bit (nat (e - f)) n else m)
        in lglflt e m)"

definition lglmulflt :: "u64 \<Rightarrow> u64 \<Rightarrow> u64" where
  "lglmulflt a b =
     (if a = FLTMAX then FLTMAX
      else if b = FLTMAX then FLTMAX
      else if a = FLTMIN then FLTMIN
      else if b = FLTMIN then FLTMIN
      else
        let ea = lglexp a; eb = lglexp b
        in if ea > 0 \<and> eb > 0 \<and> INT_MAX - ea < eb then FLTMAX
           else
             let e = ea + eb
             in if e > EXPMAX - EXPZRO - 32 then FLTMAX
                else
                  let e = e + 32;
                      ma = drop_bit 1 (lglmnt a); mb = drop_bit 1 (lglmnt b);
                      m = drop_bit 30 (ma * mb)
                  in lglflt e m)"

definition lglshflt :: "u64 \<Rightarrow> int \<Rightarrow> u64" where
  "lglshflt a s =
     (if a = FLTMAX then FLTMAX
      else if a = FLTMIN then FLTMIN
      else
        let e = lglexp a
        in if e < INT_MIN + s then FLTMIN else lglflt (e - s) (lglmnt a))"

section \<open>Bits and words\<close>

lemma bit_MNTMAX: "bit MNTMAX n \<longleftrightarrow> n < 33"
proof -
  have h: "MNTMAX = mask 33" by (simp add: MNTMAX_def mask_eq_exp_minus_1)
  show ?thesis unfolding h bit_mask_iff by auto
qed

lemma bit_MNTBIT: "bit MNTBIT n \<longleftrightarrow> n = 32"
proof -
  have h: "MNTBIT = 2 ^ 32" by (simp add: MNTBIT_def)
  show ?thesis unfolding h bit_exp_iff by auto
qed

lemma uint_lglmnt: "uint (lglmnt a) = 2 ^ 32 + uint a mod 2 ^ 32"
proof -
  have 1: "lglmnt a = take_bit 32 a OR MNTBIT"
    by (rule bit_word_eqI) (auto simp: lglmnt_def bit_MNTMAX bit_MNTBIT bit_simps)
  have "lglmnt a = take_bit 32 a + MNTBIT"
    unfolding 1 by (rule disjunctive_add_eq_or [symmetric]) (rule bit_word_eqI, auto simp: bit_MNTBIT bit_simps)
  moreover have "uint (take_bit 32 a) = uint a mod 2 ^ 32" 
    by (metis take_bit_eq_mod unsigned_take_bit_eq)
  ultimately show ?thesis by (simp add: uint_word_ariths MNTBIT_def)
qed
lemma sint_uint_pos: assumes "uint (a::u64) < 2 ^ 63" shows "sint a = uint a"
proof -
  have "signed_take_bit 63 (uint a) = uint a"
    by (rule signed_take_bit_int_eq_self) (use assms uint_ge_0 [of a] in linarith)+
  then show ?thesis by (simp add: sint_uint)
qed
lemma lglexp_nonneg: assumes "uint a < 2 ^ 63" shows "lglexp a = uint a div 2 ^ 32 - EXPZRO"
  using sint_uint_pos [OF assms] by (simp add: lglexp_def sint_signed_drop_bit_eq drop_bit_eq_div)

lemma and_MNTBIT_0: "m AND MNTBIT = 0 \<longleftrightarrow> \<not> bit m 32"
proof
  assume "m AND MNTBIT = 0" then have "\<not> bit (m AND MNTBIT) 32" by simp
  then show "\<not> bit m 32" by (simp add: bit_and_iff bit_MNTBIT)
next
  assume "\<not> bit m 32" then show "m AND MNTBIT = 0" by (auto intro!: bit_word_eqI simp: bit_and_iff bit_MNTBIT)
qed
lemma bit32_iff: "uint (m::u64) < 2 ^ 33 \<Longrightarrow> bit m 32 \<longleftrightarrow> 2 ^ 32 \<le> uint m"
proof -
  assume a: "uint m < 2 ^ 33"
  have "bit m 32 \<longleftrightarrow> odd (uint m div 2 ^ 32)"
    using bit_uint_iff [of m 32] unfolding bit_iff_odd [of "uint m"] by simp
  moreover have "uint m div 2 ^ 32 = (if 2 ^ 32 \<le> uint m then 1 else 0)"
    using a uint_ge_0 [of m] by (auto simp: div_eq_0_iff not_le intro!: div_pos_pos_trivial) 
  ultimately show ?thesis by auto
qed

lemma lglflt_up_spec:
  assumes "0 < uint m" "uint m < 2 ^ 33" "2 ^ 32 \<le> uint m * 2 ^ n" "e - int n \<ge> INT_MIN"
  shows "\<exists>k\<le>n. lglflt_up e m = (e - int k, push_bit k m) \<and> 2 ^ 32 \<le> uint m * 2 ^ k \<and> uint m * 2 ^ k < 2 ^ 33 \<and> uint (push_bit k m) = uint m * 2 ^ k"
  using assms
proof (induction n arbitrary: e m)
  case 0
  then have "bit m 32" by (simp add: bit32_iff)
  with 0 show ?case by (subst lglflt_up.simps) (simp add: and_MNTBIT_0)
next
  case (Suc n)
  show ?case
  proof (cases "bit m 32")
    case True
    then have "2 ^ 32 \<le> uint m" using Suc.prems bit32_iff by blast
    with True Suc.prems show ?thesis
      by (intro exI [of _ 0]) (subst lglflt_up.simps, simp add: and_MNTBIT_0)
  next
    case False
    let ?m = "push_bit 1 m"
    have lt: "uint m < 2 ^ 32" using False Suc.prems bit32_iff [of m] by auto
    have u: "uint ?m = 2 * uint m" using lt by (simp add: push_bit_eq_mult uint_word_ariths)
    obtain k where k: "k \<le> n" "lglflt_up (e - 1) ?m = (e - 1 - int k, push_bit k ?m)"
       "2 ^ 32 \<le> uint ?m * 2 ^ k" "uint ?m * 2 ^ k < 2 ^ 33" "uint (push_bit k ?m) = uint ?m * 2 ^ k"
      using Suc.IH [of ?m "e - 1"] Suc.prems lt u by auto
    have "lglflt_up e m = lglflt_up (e - 1) ?m"
      using False Suc.prems by (subst lglflt_up.simps) (simp add: and_MNTBIT_0)
    with k u show ?thesis
      by (intro exI [of _ "Suc k"]) (simp add: push_bit_push_bit algebra_simps)
  qed
qed

lemma lglflt_down_spec:
  assumes "2 ^ 32 \<le> uint m" "uint m < 2 ^ (33 + n)" "e > INT_MIN" 
  shows "\<exists>k\<le>n. lglflt_down e m = (e + int k, drop_bit k m) \<and> 2 ^ 32 \<le> uint m div 2 ^ k \<and> uint m div 2 ^ k < 2 ^ 33"
  using assms
proof (induction n arbitrary: e m)
  case 0
  then have "\<not> m > MNTMAX" by (simp add: MNTMAX_def word_less_def)
  with 0 show ?case by (subst lglflt_down.simps) simp
next
  case (Suc n)
  show ?case
  proof (cases "m > MNTMAX")
    case False
    then have "uint m < 2 ^ 33" by (simp add: MNTMAX_def word_less_def)
    with False Suc.prems show ?thesis
      by (intro exI [of _ 0]) (subst lglflt_down.simps, simp)
  next
    case True
    let ?m = "drop_bit 1 m"
    have ge: "uint m \<ge> 2 ^ 33" using True by (simp add: MNTMAX_def word_less_def)
    have u: "uint ?m = uint m div 2" by (simp add: drop_bit_eq_div uint_div)
    have "2 ^ 32 \<le> uint ?m" using ge u by auto
    moreover have "uint ?m < 2 ^ (33 + n)" unfolding u by (rule int_div2_less) (use Suc.prems in \<open>simp add: power_add\<close>)
    ultimately
    obtain k where k: "k \<le> n" "lglflt_down (e + 1) ?m = (e + 1 + int k, drop_bit k ?m)"
       "2 ^ 32 \<le> uint ?m div 2 ^ k" "uint ?m div 2 ^ k < 2 ^ 33"
      using Suc.IH [of ?m "e + 1"] Suc.prems(3) by auto
    have "lglflt_down e m = lglflt_down (e + 1) ?m"
      using True Suc.prems(3) by (subst lglflt_down.simps) simp
    moreover have "uint ?m div 2 ^ k = uint m div 2 ^ Suc k"
      unfolding u by (simp add: zdiv_zmult2_eq [symmetric])
    ultimately show ?thesis using k
      by (intro exI [of _ "Suc k"]) simp
  qed
qed

definition flt_ok :: "u64 \<Rightarrow> bool" where "flt_ok a \<longleftrightarrow> uint a < 2 ^ 63"

lemma uint_pack:
  assumes "2 ^ 32 \<le> uint m" "uint m < 2 ^ 33" "0 \<le> e" "e < 2 ^ 31"
  shows "uint ((m AND NOT MNTBIT) OR push_bit 32 (word_of_int e)) = uint m - 2 ^ 32 + e * 2 ^ 32"
proof -
  let ?w = "word_of_int e :: u64"
  have b: "bit m n \<Longrightarrow> n < 33" for n 
  proof -
    assume "bit m n"
    then have "bit (uint m) n" by (auto dest: bit_imp_le_length simp: bit_uint_iff)
    moreover have "take_bit 33 (uint m) = uint m" using assms by (simp add: take_bit_int_eq_self)
    ultimately show "n < 33" by (metis bit_take_bit_iff)
  qed
  have 1: "m AND NOT MNTBIT = take_bit 32 m"
  proof (rule bit_word_eqI)
    fix n assume "n < LENGTH(64)"
    then show "bit (m AND NOT MNTBIT) n = bit (take_bit 32 m) n"
      using b [of n] by (auto simp: bit_simps bit_MNTBIT)
  qed
  have "take_bit 32 m OR push_bit 32 ?w = take_bit 32 m + push_bit 32 ?w"
    by (rule disjunctive_add_eq_or [symmetric]) (rule bit_word_eqI, auto simp: bit_simps)
  moreover have "uint (take_bit 32 m) = uint m mod 2 ^ 32" 
    by (metis take_bit_eq_mod unsigned_take_bit_eq)
  moreover have "uint m mod 2 ^ 32 = uint m - 2 ^ 32"
  proof -
    have "uint m mod 2 ^ 32 = (uint m - 2 ^ 32) mod 2 ^ 32" by (rule minus_mod_self2 [symmetric])
    also have "\<dots> = uint m - 2 ^ 32" by (rule mod_pos_pos_trivial) (use assms in simp_all)
    finally show ?thesis .
  qed
  moreover have "uint (push_bit 32 ?w) = e * 2 ^ 32"
  proof -
    have "uint ?w = e" unfolding uint_word_of_int by (rule mod_pos_pos_trivial) (use assms in simp_all)
    then have "uint (push_bit 32 ?w) = (2 ^ 32 * e) mod 2 ^ 64"
      by (simp add: push_bit_eq_mult uint_word_ariths mult.commute)
    also have "\<dots> = 2 ^ 32 * e" by (rule mod_pos_pos_trivial) (use assms in simp_all)
    finally show ?thesis by simp
  qed
  moreover have "(uint m - 2 ^ 32 + e * 2 ^ 32) mod 2 ^ 64 = uint m - 2 ^ 32 + e * 2 ^ 32"
    by (rule mod_pos_pos_trivial) (use assms in simp_all)
  ultimately show ?thesis unfolding 1
    by (simp add: uint_word_ariths)
qed

section \<open>The exact value of a number\<close>

definition fltnum :: "u64 \<Rightarrow> int" where
  "fltnum a = (if a = FLTMIN then 0 else uint (lglmnt a) * 2 ^ nat (lglexp a + EXPZRO))"

definition fltpack :: "int \<Rightarrow> int \<Rightarrow> u64" where
  "fltpack E m = word_of_int (m - 2 ^ 32 + E * 2 ^ 32)"

lemma uint_fltpack:
  assumes "2 ^ 32 \<le> m" "m < 2 ^ 33" "0 \<le> E" "E < 2 ^ 31"
  shows "uint (fltpack E m) = m - 2 ^ 32 + E * 2 ^ 32"
  unfolding fltpack_def uint_word_of_int
  by (rule mod_pos_pos_trivial) (use assms in simp_all)

lemma fltpack_parts:
  assumes "2 ^ 32 \<le> m" "m < 2 ^ 33" "0 \<le> E" "E < 2 ^ 31"
  shows "flt_ok (fltpack E m)" "lglexp (fltpack E m) = E - EXPZRO" "uint (lglmnt (fltpack E m)) = m"
proof -
  note u = uint_fltpack [OF assms]
  show ok: "flt_ok (fltpack E m)" using assms u by (simp add: flt_ok_def)
  have "uint (fltpack E m) div 2 ^ 32 = E" unfolding u using assms by (simp add: div_eq_0_iff)
  then show "lglexp (fltpack E m) = E - EXPZRO" using ok by (simp add: flt_ok_def lglexp_nonneg)
  have "(m - 2 ^ 32 + E * 2 ^ 32) mod 2 ^ 32 = (m - 2 ^ 32) mod 2 ^ 32" by (rule mod_mult_self1)
  also have "\<dots> = m - 2 ^ 32" by (rule mod_pos_pos_trivial) (use assms in simp_all)
  finally have "uint (fltpack E m) mod 2 ^ 32 = m - 2 ^ 32" unfolding u .
  then show "uint (lglmnt (fltpack E m)) = m" by (simp add: uint_lglmnt)
qed


lemma uint_drop_bit_div: "uint (drop_bit k (m::u64)) = uint m div 2 ^ k"
  using uint_ge_0 [of m] uint_lt2p [of m]
  by (simp add: unsigned_drop_bit_eq take_bit_int_eq_self) (simp add: drop_bit_eq_div)

lemma lglflt_norm:
  assumes "2 ^ 32 \<le> uint m" "e > INT_MIN"
  obtains k where "k \<le> 31" "2 ^ 32 \<le> uint m div 2 ^ k" "uint m div 2 ^ k < 2 ^ 33"
    "lglflt e m =
       (if e + int k < - EXPZRO then FLTMIN
        else if e + int k > EXPMAX - EXPZRO then FLTMAX
        else fltpack (e + int k + EXPZRO) (uint m div 2 ^ k))"
proof -
  have "uint m < 2 ^ (33 + 31)" using uint_lt2p [of m] by simp
  then obtain k where k: "k \<le> 31" "lglflt_down e m = (e + int k, drop_bit k m)"
     "2 ^ 32 \<le> uint m div 2 ^ k" "uint m div 2 ^ k < 2 ^ 33"
    using lglflt_down_spec [OF assms(1) _ assms(2), of 31] by blast
  have u: "uint (drop_bit k m) = uint m div 2 ^ k"
    using uint_ge_0 [of m] uint_lt2p [of m]
    by (simp add: unsigned_drop_bit_eq take_bit_int_eq_self) (simp add: drop_bit_eq_div)
  have n: "m \<noteq> 0" "\<not> m < MNTBIT" using assms(1) by (auto simp: MNTBIT_def word_less_def)
  have "(drop_bit k m AND NOT MNTBIT) OR push_bit 32 (word_of_int (e + int k + EXPZRO))
        = fltpack (e + int k + EXPZRO) (uint m div 2 ^ k)"
    if "\<not> e + int k < - EXPZRO" "\<not> e + int k > EXPMAX - EXPZRO"
  proof -
    have r: "0 \<le> e + int k + EXPZRO" "e + int k + EXPZRO < 2 ^ 31"
      using that by (auto simp: EXPMAX_def)
    show ?thesis
      using uint_pack [of "drop_bit k m", OF _ _ r] uint_fltpack [OF k(3,4) r] k(3,4)
      by (simp only: word_uint_eq_iff u)
  qed
  then show ?thesis using that [of k] k n by (simp add: lglflt_def)
qed

lemma flt_unpack:
  assumes "flt_ok a"
  shows "a = fltpack (lglexp a + EXPZRO) (uint (lglmnt a))"
    "2 ^ 32 \<le> uint (lglmnt a)" "uint (lglmnt a) < 2 ^ 33"
    "0 \<le> lglexp a + EXPZRO" "lglexp a + EXPZRO < 2 ^ 31"
proof -
  have e: "lglexp a + EXPZRO = uint a div 2 ^ 32" using assms by (simp add: flt_ok_def lglexp_nonneg)
  show m: "2 ^ 32 \<le> uint (lglmnt a)" "uint (lglmnt a) < 2 ^ 33"
    unfolding uint_lglmnt by simp_all
  show r: "0 \<le> lglexp a + EXPZRO" "lglexp a + EXPZRO < 2 ^ 31"
    using assms uint_ge_0 [of a] unfolding e flt_ok_def by (simp_all add: pos_imp_zdiv_nonneg_iff)
  show "a = fltpack (lglexp a + EXPZRO) (uint (lglmnt a))"
    unfolding word_uint_eq_iff uint_fltpack [OF m r] unfolding e uint_lglmnt by simp
qed


lemma lglflt_exact:
  assumes "2 ^ 32 \<le> uint m" "uint m < 2 ^ 33"
  shows "lglflt e m =
     (if e < - EXPZRO then FLTMIN else if e > EXPMAX - EXPZRO then FLTMAX
      else fltpack (e + EXPZRO) (uint m))"
proof -
  have "lglflt_down e m = (e, m)"
    using assms by (subst lglflt_down.simps) (simp add: MNTMAX_def word_less_def)
  moreover have "(m AND NOT MNTBIT) OR push_bit 32 (word_of_int (e + EXPZRO)) = fltpack (e + EXPZRO) (uint m)"
    if "\<not> e < - EXPZRO" "\<not> e > EXPMAX - EXPZRO"
  proof -
    have r: "0 \<le> e + EXPZRO" "e + EXPZRO < 2 ^ 31" using that by (auto simp: EXPMAX_def)
    show ?thesis using uint_pack [OF assms r] uint_fltpack [OF assms r] by (simp add: word_uint_eq_iff)
  qed
  ultimately show ?thesis using assms by (auto simp: lglflt_def MNTBIT_def word_less_def)
qed

lemma lglflt_roundtrip: "flt_ok a \<Longrightarrow> lglflt (lglexp a) (lglmnt a) = a"
proof -
  assume a: "flt_ok a"
  note u = flt_unpack [OF a]
  show ?thesis unfolding lglflt_exact [OF u(2,3)] using u by (auto simp: EXPMAX_def)
qed

lemma fltnum_pack:
  assumes "2 ^ 32 \<le> m" "m < 2 ^ 33" "0 \<le> E" "E < 2 ^ 31" "0 < E \<or> 2 ^ 32 < m"
  shows "fltnum (fltpack E m) = m * 2 ^ nat E"
proof -
  have "uint (fltpack E m) \<noteq> 0" unfolding uint_fltpack [OF assms(1-4)] using assms by auto
  then have "fltpack E m \<noteq> FLTMIN" unfolding FLTMIN_def by auto
  then show ?thesis by (simp add: fltnum_def fltpack_parts [OF assms(1-4)])
qed

lemma fltnum_less:
  assumes "flt_ok a" "flt_ok b" "sint a < sint b"
  shows "fltnum a < fltnum b"
proof -
  note ua = flt_unpack [OF assms(1)] and ub = flt_unpack [OF assms(2)]
  have lt: "uint a < uint b" using assms by (simp add: flt_ok_def sint_uint_pos)
  have b0: "b \<noteq> FLTMIN" using lt uint_ge_0 [of a] by (auto simp: FLTMIN_def)
  let ?A = "lglexp a + EXPZRO" and ?B = "lglexp b + EXPZRO"
  let ?m = "uint (lglmnt a)" and ?n = "uint (lglmnt b)"
  have lt2: "?m + ?A * 2 ^ 32 < ?n + ?B * 2 ^ 32"
    using lt uint_fltpack [OF ua(2-5)] uint_fltpack [OF ub(2-5)] ua(1) ub(1) by simp
  have "?m * 2 ^ nat ?A < ?n * 2 ^ nat ?B"
  proof (cases "?A = ?B")
    case True
    then show ?thesis using lt2 by simp
  next
    case False
    then have le: "nat ?A + 1 \<le> nat ?B" using lt2 ua ub by simp
    have "?m * 2 ^ nat ?A < 2 ^ 33 * 2 ^ nat ?A" using ua by simp
    also have "\<dots> = 2 ^ 32 * 2 ^ (nat ?A + 1)" by simp
    also have "\<dots> \<le> ?n * 2 ^ nat ?B" using le ub by (intro mult_mono power_increasing) auto
    finally show ?thesis .
  qed
  moreover have "0 < ?n" using ub by simp
  ultimately show ?thesis using b0 by (simp add: fltnum_def)
qed

lemma lgladdflt_commute: "lgladdflt a b = lgladdflt b a"
proof (cases "lglexp a = lglexp b")
  case True
  then show ?thesis by (simp add: lgladdflt_def Let_def add.commute)
next
  case False
  then show ?thesis by (auto simp: lgladdflt_def Let_def)
qed

lemma fltpack_ok: "flt_ok (fltpack E m)" if "2 ^ 32 \<le> m" "m < 2 ^ 33" "0 \<le> E" "E < 2 ^ 31"
  using fltpack_parts(1) [OF that] .

lemma flt_ok_consts [simp]: "flt_ok FLTMIN" "flt_ok FLTMAX"
  by (simp_all add: flt_ok_def FLTMIN_def FLTMAX_def)

lemma lglflt_ok: assumes "2 ^ 32 \<le> uint m" "e > INT_MIN" shows "flt_ok (lglflt e m)"
proof -
  obtain k where k: "k \<le> 31" "2 ^ 32 \<le> uint m div 2 ^ k" "uint m div 2 ^ k < 2 ^ 33"
    "lglflt e m =
       (if e + int k < - EXPZRO then FLTMIN
        else if e + int k > EXPMAX - EXPZRO then FLTMAX
        else fltpack (e + int k + EXPZRO) (uint m div 2 ^ k))"
    using lglflt_norm [OF assms] by blast
  then show ?thesis by (auto simp: EXPMAX_def intro!: fltpack_ok)
qed

text \<open>
  A mantissa of at least 33 bits is cut to its 33 leading bits: the value loses what is
  below 2 to the k, for the number k of steps of the loop.
\<close>

lemma lglflt_shape:
  assumes m: "2 ^ 32 < uint m \<or> 2 ^ 32 \<le> uint m \<and> - EXPZRO < e" and e: "- EXPZRO \<le> e"
    and r: "lglflt e m \<noteq> FLTMAX"
  obtains k where "2 ^ 32 \<le> uint m div 2 ^ k"
    "fltnum (lglflt e m) = uint m div 2 ^ k * 2 ^ k * 2 ^ nat (e + EXPZRO)"
proof -
  have e': "e > INT_MIN" using e by (simp add: EXPZRO_def INT_MIN_def)
  obtain k where k: "k \<le> 31" "2 ^ 32 \<le> uint m div 2 ^ k" "uint m div 2 ^ k < 2 ^ 33"
    "lglflt e m =
       (if e + int k < - EXPZRO then FLTMIN
        else if e + int k > EXPMAX - EXPZRO then FLTMAX
        else fltpack (e + int k + EXPZRO) (uint m div 2 ^ k))"
    using lglflt_norm [OF _ e'] m by (metis less_imp_le)
  let ?q = "uint m div 2 ^ k"
  have b: "lglflt e m = fltpack (e + int k + EXPZRO) ?q" and E: "e + int k + EXPZRO < 2 ^ 31"
    using k(4) e r by (auto split: if_splits simp: EXPMAX_def)
  have nz: "0 < e + int k + EXPZRO \<or> 2 ^ 32 < ?q"
    using m e by (cases "k = 0") auto
  have "fltnum (lglflt e m) = ?q * 2 ^ nat (e + int k + EXPZRO)"
    unfolding b using k e E nz by (intro fltnum_pack) auto
  also have "nat (e + int k + EXPZRO) = k + nat (e + EXPZRO)" using e by (simp add: nat_add_distrib)
  finally show ?thesis using that [OF k(2)] by (simp add: power_add)
qed

lemma lglflt_num:
  assumes m: "2 ^ 32 < uint m \<or> 2 ^ 32 \<le> uint m \<and> - EXPZRO < e" and e: "- EXPZRO \<le> e"
    and r: "lglflt e m \<noteq> FLTMAX"
  shows "fltnum (lglflt e m) \<le> uint m * 2 ^ nat (e + EXPZRO)"
    and "uint m * 2 ^ nat (e + EXPZRO) * 2 ^ 32 < fltnum (lglflt e m) * (2 ^ 32 + 1)"
    and "\<And>x. x \<le> uint m \<Longrightarrow> x < 2 ^ 33 \<Longrightarrow> x * 2 ^ nat (e + EXPZRO) \<le> fltnum (lglflt e m)"
proof -
  let ?E = "nat (e + EXPZRO)"
  obtain k where k: "2 ^ 32 \<le> uint m div 2 ^ k"
    and v: "fltnum (lglflt e m) = uint m div 2 ^ k * 2 ^ k * 2 ^ ?E"
    using lglflt_shape [OF assms] by blast
  let ?q = "uint m div 2 ^ k"
  show "fltnum (lglflt e m) \<le> uint m * 2 ^ ?E"
    unfolding v by (intro mult_right_mono int_div_pow) simp
  have "uint m < ?q * 2 ^ k + 2 ^ k" by (rule int_div_pow)
  then have "uint m * 2 ^ 32 < (?q * 2 ^ k + 2 ^ k) * 2 ^ 32" by simp
  also have "\<dots> = (?q * 2 ^ 32 + 2 ^ 32) * 2 ^ k" by (simp add: algebra_simps)
  also have "\<dots> \<le> (?q * 2 ^ 32 + ?q) * 2 ^ k" using k by simp
  finally have "uint m * 2 ^ 32 < ?q * 2 ^ k * (2 ^ 32 + 1)" by (simp add: algebra_simps)
  then show "uint m * 2 ^ ?E * 2 ^ 32 < fltnum (lglflt e m) * (2 ^ 32 + 1)"
    unfolding v by (simp add: algebra_simps)
  fix x
  assume x: "x \<le> uint m" "x < 2 ^ 33"
  have "x \<le> ?q * 2 ^ k"
  proof (cases "k = 0")
    case True then show ?thesis using x by simp
  next
    case False
    then have "(2::int) ^ 1 \<le> 2 ^ k" by (intro power_increasing) auto
    then have "2 ^ 32 * 2 \<le> ?q * 2 ^ k" using k by (intro mult_mono) auto
    then show ?thesis using x(2) by simp
  qed
  then show "x * 2 ^ ?E \<le> fltnum (lglflt e m)" unfolding v by (rule mult_right_mono) simp
qed

lemma lglmnt_gt:
  assumes "flt_ok a" "a \<noteq> FLTMIN" "lglexp a = - EXPZRO"
  shows "2 ^ 32 < uint (lglmnt a)"
proof (rule ccontr)
  assume "\<not> ?thesis"
  then have "uint (lglmnt a) = 2 ^ 32" using flt_unpack(2) [OF assms(1)] by linarith
  then have "uint a = 0"
    using uint_fltpack [OF flt_unpack(2-5) [OF assms(1)]] flt_unpack(1) [OF assms(1)] assms(3) by simp
  then show False using assms(2) by (simp add: FLTMIN_def word_uint_eq_iff)
qed

section \<open>Addition\<close>

definition flt_regular :: "u64 \<Rightarrow> bool" where
  "flt_regular a \<longleftrightarrow> flt_ok a \<and> a \<noteq> FLTMIN \<and> a \<noteq> FLTMAX"

lemma lgladdflt_eq:
  assumes a: "flt_regular a" and b: "flt_regular b" and le: "lglexp b \<le> lglexp a"
  obtains m where "lgladdflt a b = lglflt (lglexp a) m"
    "uint m = uint (lglmnt a) + uint (lglmnt b) div 2 ^ nat (lglexp a - lglexp b)"
    "2 ^ 32 < uint m \<or> 2 ^ 32 \<le> uint m \<and> - EXPZRO < lglexp a"
proof -
  note ua = flt_unpack [of a] and ub = flt_unpack [of b]
  have ok: "flt_ok a" "flt_ok b" and nz: "a \<noteq> FLTMIN" using a b by (simp_all add: flt_regular_def)
  note ua = flt_unpack [OF ok(1)] and ub = flt_unpack [OF ok(2)]
  let ?d = "nat (lglexp a - lglexp b)"
  have q: "uint (lglmnt b) div 2 ^ ?d \<le> uint (lglmnt b)" by (rule int_div_pow) simp
  have q0: "0 \<le> uint (lglmnt b) div 2 ^ ?d" by (simp add: pos_imp_zdiv_nonneg_iff)
  have gt: "2 ^ 32 < uint (lglmnt a) \<or> 2 ^ 32 \<le> uint (lglmnt a) \<and> - EXPZRO < lglexp a"
    using lglmnt_gt [OF ok(1) nz] ua(2,4) by (cases "lglexp a = - EXPZRO") auto
  show ?thesis
  proof (cases "lglexp a - lglexp b < 64")
    case True
    have "uint (lglmnt a + drop_bit ?d (lglmnt b)) = uint (lglmnt a) + uint (lglmnt b) div 2 ^ ?d"
      using q q0 ua ub uint_drop_bit_div [of ?d "lglmnt b"] by (simp add: uint_word_ariths)
    with True le a b q0 gt show ?thesis
      by (intro that [of "lglmnt a + drop_bit ?d (lglmnt b)"]) (auto simp: lgladdflt_def Let_def flt_regular_def)
  next
    case False
    then have "64 \<le> ?d" by simp
    then have "(2::int) ^ 64 \<le> 2 ^ ?d" by (intro power_increasing) auto
    then have "uint (lglmnt b) div 2 ^ ?d = 0" using ub by (intro div_pos_pos_trivial) auto
    with False le a b gt show ?thesis
      by (intro that [of "lglmnt a"]) (auto simp: lgladdflt_def Let_def flt_regular_def)
  qed
qed

definition sum_spec :: "u64 \<Rightarrow> u64 \<Rightarrow> u64 \<Rightarrow> bool" where
  "sum_spec a b r \<longleftrightarrow> fltnum a \<le> fltnum r \<and> fltnum b \<le> fltnum r \<and> fltnum r \<le> fltnum a + fltnum b \<and>
    (fltnum a + fltnum b) * 2 ^ 64 \<le> fltnum r * (2 ^ 32 + 1) ^ 2"

lemma lgladdflt_regular:
  assumes a: "flt_regular a" and b: "flt_regular b" and le: "lglexp b \<le> lglexp a"
  shows "flt_ok (lgladdflt a b)" "lgladdflt a b \<noteq> FLTMAX \<Longrightarrow> sum_spec a b (lgladdflt a b)"
proof -
  have ok: "flt_ok a" "flt_ok b" and nz: "a \<noteq> FLTMIN" "b \<noteq> FLTMIN" using a b by (simp_all add: flt_regular_def)
  note ua = flt_unpack [OF ok(1)] and ub = flt_unpack [OF ok(2)]
  define d where "d = nat (lglexp a - lglexp b)"
  define B where "B = nat (lglexp b + EXPZRO)"
  define na where "na = uint (lglmnt a)"
  define nb where "nb = uint (lglmnt b)"
  obtain m where m: "lgladdflt a b = lglflt (lglexp a) m" "uint m = na + nb div 2 ^ d"
    and gt: "2 ^ 32 < uint m \<or> 2 ^ 32 \<le> uint m \<and> - EXPZRO < lglexp a"
    using lgladdflt_eq [OF a b le] unfolding na_def nb_def d_def by blast
  have e: "- EXPZRO \<le> lglexp a" using ua(4) by simp
  show "flt_ok (lgladdflt a b)"
    unfolding m(1) using gt e by (intro lglflt_ok) (auto simp: EXPZRO_def INT_MIN_def)
  assume nm: "lgladdflt a b \<noteq> FLTMAX"
  define r where "r = fltnum (lgladdflt a b)"
  have A: "nat (lglexp a + EXPZRO) = B + d" using le ua ub by (simp add: B_def d_def)
  have q0: "0 \<le> nb div 2 ^ d" by (simp add: nb_def pos_imp_zdiv_nonneg_iff)
  have num: "fltnum a = na * 2 ^ (B + d)" "fltnum b = nb * 2 ^ B"
    using nz A by (simp_all add: fltnum_def na_def nb_def B_def)
  have L: "r \<le> uint m * 2 ^ (B + d)" "uint m * 2 ^ (B + d) * 2 ^ 32 < r * (2 ^ 32 + 1)"
    "\<And>x. x \<le> uint m \<Longrightarrow> x < 2 ^ 33 \<Longrightarrow> x * 2 ^ (B + d) \<le> r"
    using lglflt_num [OF gt e, folded m(1), OF nm] unfolding A r_def by blast+
  have 1: "fltnum a \<le> r" unfolding num by (rule L) (use q0 ua m na_def in simp_all)
  have 2: "fltnum b \<le> r"
  proof (cases "d = 0")
    case True
    then show ?thesis using L(3) [of nb] ub m(2) ua unfolding num nb_def na_def by simp
  next
    case False
    then have "(2::int) ^ 1 \<le> 2 ^ d" by (intro power_increasing) auto
    then have "nb \<le> 2 ^ 32 * 2 ^ d" using ub(3) unfolding nb_def by simp
    then have "nb * 2 ^ B \<le> 2 ^ 32 * 2 ^ d * 2 ^ B" by (rule mult_right_mono) simp
    also have "\<dots> = 2 ^ 32 * 2 ^ (B + d)" by (simp only: power_add ac_simps)
    also have "\<dots> \<le> r" by (rule L) (use gt in auto)
    finally show ?thesis unfolding num .
  qed
  have sum: "fltnum a + fltnum b = (na * 2 ^ d + nb) * 2 ^ B"
    unfolding num by (simp add: power_add algebra_simps)
  have "uint m * 2 ^ (B + d) = (na * 2 ^ d + nb div 2 ^ d * 2 ^ d) * 2 ^ B"
    unfolding m(2) by (simp add: power_add algebra_simps)
  also have "\<dots> \<le> (na * 2 ^ d + nb) * 2 ^ B"
    using int_div_pow(1) [of nb d] by (intro mult_right_mono add_left_mono) auto
  finally have 3: "r \<le> fltnum a + fltnum b" using L(1) unfolding sum by linarith
  have "na * 2 ^ d + nb \<le> (uint m + 1) * 2 ^ d"
    using int_div_pow(2) [of nb d] unfolding m(2) by (simp add: algebra_simps)
  then have "(na * 2 ^ d + nb) * 2 ^ 32 * 2 ^ B \<le> (uint m + 1) * 2 ^ d * 2 ^ 32 * 2 ^ B"
    by (intro mult_right_mono) auto
  also have "\<dots> \<le> uint m * (2 ^ 32 + 1) * (2 ^ d * 2 ^ B)"
  proof -
    have "(uint m + 1) * 2 ^ 32 \<le> uint m * (2 ^ 32 + 1)" using gt by auto
    then have "(uint m + 1) * 2 ^ 32 * (2 ^ d * 2 ^ B) \<le> uint m * (2 ^ 32 + 1) * (2 ^ d * 2 ^ B)"
      by (rule mult_right_mono) simp
    then show ?thesis by (simp only: ac_simps)
  qed
  finally have "(fltnum a + fltnum b) * 2 ^ 32 \<le> uint m * 2 ^ (B + d) * (2 ^ 32 + 1)"
    unfolding sum by (simp only: power_add ac_simps)
  then have "(fltnum a + fltnum b) * 2 ^ 32 * 2 ^ 32 \<le> uint m * 2 ^ (B + d) * (2 ^ 32 + 1) * 2 ^ 32"
    by (rule mult_right_mono) simp
  also have "\<dots> = uint m * 2 ^ (B + d) * 2 ^ 32 * (2 ^ 32 + 1)" by (simp only: ac_simps)
  also have "\<dots> < r * (2 ^ 32 + 1) * (2 ^ 32 + 1)" using L(2) by (rule mult_strict_right_mono) simp
  finally have 4: "(fltnum a + fltnum b) * 2 ^ 64 \<le> r * (2 ^ 32 + 1) ^ 2" by (simp add: power2_eq_square)
  show "sum_spec a b (lgladdflt a b)" using 1 2 3 4 by (simp add: sum_spec_def r_def)
qed

lemma sum_spec_commute: "sum_spec a b r = sum_spec b a r"
  by (auto simp: sum_spec_def add.commute)

lemma fltnum_nonneg: "0 \<le> fltnum a"
  by (simp add: fltnum_def)

lemma fltnum_FLTMIN [simp]: "fltnum FLTMIN = 0"
  by (simp add: fltnum_def)

lemma sint_le_FLTMAX: "flt_ok a \<Longrightarrow> sint a \<le> sint FLTMAX"
  by (simp add: flt_ok_def sint_uint_pos FLTMAX_def)

lemma fltnum_le_sint: "flt_ok a \<Longrightarrow> flt_ok b \<Longrightarrow> fltnum a \<le> fltnum b \<longleftrightarrow> sint a \<le> sint b"
  using fltnum_less [of a b] fltnum_less [of b a]
  by (cases "sint a" "sint b" rule: linorder_cases) (auto dest: signed_word_eqI)

lemma sum_spec_zero: "sum_spec a FLTMIN a" "sum_spec FLTMIN b b"
  using fltnum_nonneg [of a] fltnum_nonneg [of b] by (auto simp: sum_spec_def)

lemma lgladdflt_sum:
  assumes "flt_ok a" "flt_ok b"
  shows "flt_ok (lgladdflt a b) \<and> sint a \<le> sint (lgladdflt a b) \<and> sint b \<le> sint (lgladdflt a b) \<and>
    (lgladdflt a b \<noteq> FLTMAX \<longrightarrow> sum_spec a b (lgladdflt a b))"
proof -
  have spec: "flt_ok (lgladdflt a b) \<and> (lgladdflt a b \<noteq> FLTMAX \<longrightarrow> sum_spec a b (lgladdflt a b))"
  proof (cases "flt_regular a \<and> flt_regular b")
    case True
    then show ?thesis
      using lgladdflt_regular [of a b] lgladdflt_regular [of b a] lgladdflt_commute [of a b]
        sum_spec_commute [of a b] by (metis linear)
  next
    case False
    then show ?thesis using assms sum_spec_zero by (auto simp: lgladdflt_def flt_regular_def)
  qed
  then show ?thesis
    using assms fltnum_le_sint [of _ "lgladdflt a b"] sint_le_FLTMAX
    by (cases "lgladdflt a b = FLTMAX") (auto simp: sum_spec_def)
qed

section \<open>Multiplication and shifting\<close>

lemma lglmulflt_eq:
  assumes a: "flt_regular a" and b: "flt_regular b" and nm: "lglmulflt a b \<noteq> FLTMAX"
  obtains m where "lglmulflt a b = lglflt (lglexp a + lglexp b + 32) m"
    "uint m = (uint (lglmnt a) div 2) * (uint (lglmnt b) div 2) div 2 ^ 30" "2 ^ 32 \<le> uint m"
proof -
  have ok: "flt_ok a" "flt_ok b" using a b by (simp_all add: flt_regular_def)
  note ua = flt_unpack [OF ok(1)] and ub = flt_unpack [OF ok(2)]
  let ?x = "uint (lglmnt a) div 2" and ?y = "uint (lglmnt b) div 2"
  have x: "2 ^ 31 \<le> ?x" "?x < 2 ^ 32" and y: "2 ^ 31 \<le> ?y" "?y < 2 ^ 32"
    using ua(2,3) ub(2,3) by auto
  have u: "uint (drop_bit 1 (lglmnt a)) = ?x" "uint (drop_bit 1 (lglmnt b)) = ?y"
    using uint_drop_bit_div [of 1] by simp_all
  have "?x * ?y < 2 ^ 32 * 2 ^ 32" using x y by (intro mult_strict_mono) auto
  moreover have ge: "2 ^ 31 * 2 ^ 31 \<le> ?x * ?y" using x y by (intro mult_mono) auto
  ultimately have "?x * ?y mod 2 ^ 64 = ?x * ?y" by (intro mod_pos_pos_trivial) auto
  then have p: "uint (drop_bit 1 (lglmnt a) * drop_bit 1 (lglmnt b)) = ?x * ?y"
    unfolding uint_word_ariths u by simp
  have m: "uint (drop_bit 30 (drop_bit 1 (lglmnt a) * drop_bit 1 (lglmnt b))) = ?x * ?y div 2 ^ 30"
    unfolding uint_drop_bit_div p ..
  have "2 ^ 31 * 2 ^ 31 div 2 ^ 30 \<le> ?x * ?y div 2 ^ 30" using ge by (rule zdiv_mono1) simp
  then have "2 ^ 32 \<le> ?x * ?y div 2 ^ 30" by simp
  with m a b nm show ?thesis
    by (intro that [of "drop_bit 30 (drop_bit 1 (lglmnt a) * drop_bit 1 (lglmnt b))"])
      (auto simp: lglmulflt_def Let_def flt_regular_def split: if_splits)
qed

lemma half_bound: "2 ^ 32 \<le> (x::int) \<Longrightarrow> x * 2 ^ 32 \<le> 2 * (x div 2) * (2 ^ 32 + 1)"
  by (cases "even x") (auto elim!: evenE oddE)

lemma lglmulflt_regular:
  assumes a: "flt_regular a" and b: "flt_regular b"
    and lo: "- EXPZRO < lglexp a + lglexp b + 32" and nm: "lglmulflt a b \<noteq> FLTMAX"
  shows "fltnum (lglmulflt a b) * 2 ^ nat EXPZRO \<le> fltnum a * fltnum b \<and>
    fltnum a * fltnum b * 2 ^ 128 \<le> fltnum (lglmulflt a b) * 2 ^ nat EXPZRO * (2 ^ 32 + 1) ^ 4"
proof -
  have ok: "flt_ok a" "flt_ok b" and nz: "a \<noteq> FLTMIN" "b \<noteq> FLTMIN"
    using a b by (simp_all add: flt_regular_def)
  note ua = flt_unpack [OF ok(1)] and ub = flt_unpack [OF ok(2)]
  define na where "na = uint (lglmnt a)"
  define nb where "nb = uint (lglmnt b)"
  define A where "A = nat (lglexp a + EXPZRO)"
  define B where "B = nat (lglexp b + EXPZRO)"
  define Z where "Z = nat EXPZRO"
  define r where "r = fltnum (lglmulflt a b)"
  define c where "c = (2::int) ^ 32 + 1"
  obtain m where m: "lglmulflt a b = lglflt (lglexp a + lglexp b + 32) m"
    "uint m = (na div 2) * (nb div 2) div 2 ^ 30" "2 ^ 32 \<le> uint m"
    using lglmulflt_eq [OF a b nm] unfolding na_def nb_def by blast
  define E where "E = nat (lglexp a + lglexp b + 32 + EXPZRO)"
  have EZ: "E + Z = A + B + 32"
    using ua(4) ub(4) lo by (simp add: E_def A_def B_def Z_def nat_add_distrib [symmetric] EXPZRO_def)
  have num: "fltnum a = na * 2 ^ A" "fltnum b = nb * 2 ^ B"
    using nz by (simp_all add: fltnum_def na_def nb_def A_def B_def)
  have "2 ^ 32 < uint m \<or> 2 ^ 32 \<le> uint m \<and> - EXPZRO < lglexp a + lglexp b + 32"
    using m(3) lo by blast
  from lglflt_num(1,2) [OF this, folded m(1) E_def, OF less_imp_le [OF lo] nm]
  have L: "r \<le> uint m * 2 ^ E" "uint m * 2 ^ E * 2 ^ 32 \<le> r * c"
    unfolding r_def c_def by simp_all
  define p where "p = (na div 2) * (nb div 2)"
  have na: "2 ^ 32 \<le> na" "2 * (na div 2) \<le> na" and nb: "2 ^ 32 \<le> nb" "2 * (nb div 2) \<le> nb"
    using ua(2) ub(2) by (simp_all add: na_def nb_def)
  have "4 * p = (2 * (na div 2)) * (2 * (nb div 2))" by (simp add: p_def)
  also have "\<dots> \<le> na * nb" using na nb by (intro mult_mono) auto
  finally have p4: "4 * p \<le> na * nb" .
  have mp: "uint m * 2 ^ 30 \<le> p" "p * 2 ^ 32 \<le> uint m * 2 ^ 30 * c"
  proof -
    show "uint m * 2 ^ 30 \<le> p" unfolding m(2) p_def [symmetric] by (rule int_div_pow)
    have "p < uint m * 2 ^ 30 + 2 ^ 30" unfolding m(2) p_def [symmetric] by (rule int_div_pow)
    then show "p * 2 ^ 32 \<le> uint m * 2 ^ 30 * c" using m(3) by (simp add: c_def algebra_simps)
  qed
  have prod: "fltnum a * fltnum b = na * nb * 2 ^ (A + B)"
    unfolding num by (simp add: power_add ac_simps)
  have "r * 2 ^ Z \<le> uint m * 2 ^ E * 2 ^ Z" using L(1) by (rule mult_right_mono) simp
  also have "\<dots> = uint m * 2 ^ 30 * 4 * 2 ^ (A + B)"
    using EZ by (simp add: mult.assoc power_add [symmetric]) (simp add: power_add)
  also have "\<dots> \<le> na * nb * 2 ^ (A + B)" using mp(1) p4 by (intro mult_right_mono) auto
  finally have 1: "r * 2 ^ Z \<le> fltnum a * fltnum b" unfolding prod .
  have "(na * 2 ^ 32) * (nb * 2 ^ 32) \<le> (2 * (na div 2) * c) * (2 * (nb div 2) * c)"
    using mult_mono [OF half_bound half_bound, OF na(1) nb(1)] na nb unfolding c_def by simp
  also have "\<dots> = 4 * p * c ^ 2" by (simp add: p_def power2_eq_square)
  finally have "na * nb * 2 ^ 64 * 2 ^ 32 \<le> 4 * p * c ^ 2 * 2 ^ 32" by simp
  also have "\<dots> = 4 * c ^ 2 * (p * 2 ^ 32)" by simp
  also have "\<dots> \<le> 4 * c ^ 2 * (uint m * 2 ^ 30 * c)" using mp(2) by (intro mult_left_mono) (auto simp: c_def)
  also have "\<dots> = uint m * 2 ^ 32 * c ^ 3" by (simp add: power3_eq_cube power2_eq_square)
  finally have "na * nb * 2 ^ 96 * (2 ^ (A + B) * 2 ^ 32) \<le> uint m * 2 ^ 32 * c ^ 3 * (2 ^ (A + B) * 2 ^ 32)"
    by (intro mult_right_mono) auto
  then have "fltnum a * fltnum b * 2 ^ 128 \<le> uint m * (2 ^ 32 * 2 ^ (A + B)) * 2 ^ 32 * c ^ 3"
    unfolding prod by (simp add: ac_simps)
  also have "2 ^ 32 * 2 ^ (A + B) = (2::int) ^ (E + Z)" unfolding EZ by (simp add: power_add ac_simps)
  also have "uint m * 2 ^ (E + Z) * 2 ^ 32 * c ^ 3 = (uint m * 2 ^ E * 2 ^ 32) * (2 ^ Z * c ^ 3)"
    by (simp add: power_add ac_simps)
  also have "\<dots> \<le> (r * c) * (2 ^ Z * c ^ 3)"
    using L(2) by (rule mult_right_mono) (simp add: c_def)
  also have "\<dots> = r * 2 ^ Z * c ^ 4" by (simp add: power_numeral_reduce ac_simps)
  finally have 2: "fltnum a * fltnum b * 2 ^ 128 \<le> r * 2 ^ Z * c ^ 4" .
  show ?thesis using 1 2 unfolding r_def Z_def c_def by blast
qed

lemma lglmulflt_ok: assumes "flt_ok a" "flt_ok b" shows "flt_ok (lglmulflt a b)"
proof (cases "flt_regular a \<and> flt_regular b \<and> lglmulflt a b \<noteq> FLTMAX")
  case True
  then obtain m where m: "lglmulflt a b = lglflt (lglexp a + lglexp b + 32) m" "2 ^ 32 \<le> uint m"
    using lglmulflt_eq by blast
  have "lglexp a + lglexp b + 32 > INT_MIN"
    using flt_unpack(4) [OF assms(1)] flt_unpack(4) [OF assms(2)] by (simp add: EXPZRO_def INT_MIN_def)
  then show ?thesis unfolding m(1) using m(2) by (rule lglflt_ok [rotated])
next
  case False
  then show ?thesis using assms by (auto simp: lglmulflt_def flt_regular_def)
qed

text \<open>Dividing by a power of two is exact as long as the exponent does not leave its range.\<close>

lemma lglshflt_exact:
  assumes a: "flt_regular a" and s: "0 \<le> s" "s < lglexp a + EXPZRO"
  shows "flt_ok (lglshflt a s) \<and> fltnum (lglshflt a s) * 2 ^ nat s = fltnum a"
proof -
  have ok: "flt_ok a" using a by (simp add: flt_regular_def)
  note u = flt_unpack [OF ok]
  define E where "E = nat (lglexp a - s + EXPZRO)"
  have A: "nat (lglexp a + EXPZRO) = E + nat s" using s by (simp add: E_def)
  have r: "0 \<le> lglexp a - s + EXPZRO" "lglexp a - s + EXPZRO < 2 ^ 31" "0 < lglexp a - s + EXPZRO"
    using s u(5) by auto
  have "lglflt (lglexp a - s) (lglmnt a) = fltpack (lglexp a - s + EXPZRO) (uint (lglmnt a))"
    unfolding lglflt_exact [OF u(2,3)] using r s u by (auto simp: EXPMAX_def)
  then have e: "lglshflt a s = fltpack (lglexp a - s + EXPZRO) (uint (lglmnt a))"
    using a s u by (auto simp: lglshflt_def flt_regular_def EXPZRO_def INT_MIN_def)
  have "fltnum (lglshflt a s) = uint (lglmnt a) * 2 ^ E"
    unfolding e E_def using u r by (intro fltnum_pack) auto
  then have "fltnum (lglshflt a s) * 2 ^ nat s = uint (lglmnt a) * 2 ^ nat (lglexp a + EXPZRO)"
    unfolding A by (simp add: power_add)
  then show ?thesis using a fltpack_ok [OF u(2,3) r(1,2)] unfolding e by (simp add: fltnum_def flt_regular_def)
qed

lemma lglshflt_underflow:
  assumes "flt_regular a" and s: "lglexp a + EXPZRO < s"
  shows "lglshflt a s = FLTMIN"
proof -
  have ok: "flt_ok a" using assms by (simp add: flt_regular_def)
  note u = flt_unpack [OF ok]
  show ?thesis using assms by (auto simp: lglshflt_def Let_def lglflt_exact [OF u(2,3)] flt_regular_def)
qed

section \<open>Rationals\<close>

lemma and_bit63_0: "m AND 0x8000000000000000 = (0::u64) \<longleftrightarrow> \<not> bit m 63"
proof -
  have h: "(0x8000000000000000::u64) = 2 ^ 63" by simp
  show ?thesis unfolding h by (rule and_exp_eq_0_iff_not_bit)
qed

lemma bit63_iff: "bit (m::u64) 63 \<longleftrightarrow> 2 ^ 63 \<le> uint m"
proof -
  have "bit m 63 \<longleftrightarrow> odd (uint m div 2 ^ 63)"
    using bit_uint_iff [of m 63] unfolding bit_iff_odd [of "uint m"] by simp
  moreover have "uint m div 2 ^ 63 = (if 2 ^ 63 \<le> uint m then 1 else 0)"
    using uint_ge_0 [of m] uint_lt2p [of m] by (auto simp: not_le intro!: div_pos_pos_trivial)
  ultimately show ?thesis by auto
qed

lemma lglrat_up_spec:
  assumes "0 < uint m" "2 ^ 63 \<le> uint m * 2 ^ n"
  shows "\<exists>k\<le>n. lglrat_up e m = Some (e - int k, push_bit k m) \<and>
    2 ^ 63 \<le> uint m * 2 ^ k \<and> uint (push_bit k m) = uint m * 2 ^ k"
  using assms
proof (induction n arbitrary: e m)
  case 0
  then have "bit m 63" by (simp add: bit63_iff)
  then show ?case using 0 by (subst lglrat_up.simps) (simp add: and_bit63_0)
next
  case (Suc n)
  show ?case
  proof (cases "bit m 63")
    case True
    then show ?thesis using Suc.prems bit63_iff [of m]
      by (intro exI [of _ 0]) (subst lglrat_up.simps, simp add: and_bit63_0)
  next
    case False
    let ?m = "push_bit 1 m"
    have lt: "uint m < 2 ^ 63" using False bit63_iff [of m] by auto
    have u: "uint ?m = 2 * uint m" using lt by (simp add: push_bit_eq_mult uint_word_ariths)
    obtain k where k: "k \<le> n" "lglrat_up (e - 1) ?m = Some (e - 1 - int k, push_bit k ?m)"
       "2 ^ 63 \<le> uint ?m * 2 ^ k" "uint (push_bit k ?m) = uint ?m * 2 ^ k"
      using Suc.IH [of ?m "e - 1"] Suc.prems u by auto
    have "lglrat_up e m = lglrat_up (e - 1) ?m"
      using False by (subst lglrat_up.simps) (simp add: and_bit63_0)
    with k u show ?thesis
      by (intro exI [of _ "Suc k"]) (simp add: push_bit_push_bit algebra_simps)
  qed
qed

lemma lglrat_eq:
  assumes "n \<noteq> 0" "d \<noteq> 0"
  obtains k m where "k \<le> 63" "lglrat n d = Some (lglflt (- int k) m)"
    "uint m = uint n * 2 ^ k div uint d" "2 ^ 63 \<le> uint n * 2 ^ k"
proof -
  have n0: "0 < uint n"
    using assms(1) uint_ge_0 [of n] by (metis order_le_less uint_0_iff)
  have "uint n < 2 ^ 64" "uint d < 2 ^ 64"
    using uint_lt2p [of n] uint_lt2p [of d] by auto
  then have n: "uint (ucast n :: u64) = uint n" and d: "uint (ucast d :: u64) = uint d"
    by (simp_all only: unsigned_ucast_eq) (simp_all add: take_bit_int_eq_self)
  have "2 ^ 63 \<le> uint (ucast n :: u64) * 2 ^ 63" using n n0 by simp
  then obtain k where k: "k \<le> 63" "lglrat_up 0 (ucast n) = Some (0 - int k, push_bit k (ucast n))"
    "2 ^ 63 \<le> uint (ucast n :: u64) * 2 ^ k" "uint (push_bit k (ucast n) :: u64) = uint (ucast n :: u64) * 2 ^ k"
    using lglrat_up_spec [of "ucast n" 63 0] n n0 by auto
  show ?thesis
    by (rule that [of k "push_bit k (ucast n) div ucast d"])
      (use assms k n d in \<open>simp_all add: lglrat_def uint_div\<close>)
qed

lemma fltpack_not_FLTMAX:
  assumes "2 ^ 32 \<le> m" "m < 2 ^ 33" "0 \<le> E" "E < 2 ^ 31 - 1"
  shows "fltpack E m \<noteq> FLTMAX"
proof -
  have "uint (fltpack E m) \<noteq> uint FLTMAX"
    using uint_fltpack [OF assms(1-3)] assms by (simp add: FLTMAX_def)
  then show ?thesis by auto
qed

lemma lglflt_small:
  assumes e: "- EXPZRO \<le> e" "e \<le> 0" and m: "2 ^ 31 \<le> uint m" and z: "0 < e + EXPZRO - 1"
  shows "flt_ok (lglflt e m) \<and> fltnum (lglflt e m) \<le> uint m * 2 ^ nat (e + EXPZRO) \<and>
    uint m * 2 ^ nat (e + EXPZRO) * 2 ^ 32 \<le> fltnum (lglflt e m) * (2 ^ 32 + 1)"
proof (cases "2 ^ 32 \<le> uint m")
  case True
  have e': "e > INT_MIN" using e by (simp add: EXPZRO_def INT_MIN_def)
  obtain k where "k \<le> 31" "2 ^ 32 \<le> uint m div 2 ^ k" "uint m div 2 ^ k < 2 ^ 33"
    "lglflt e m =
       (if e + int k < - EXPZRO then FLTMIN
        else if e + int k > EXPMAX - EXPZRO then FLTMAX
        else fltpack (e + int k + EXPZRO) (uint m div 2 ^ k))"
    using lglflt_norm [OF True e'] by blast
  moreover from this have "e + int k + EXPZRO < 2 ^ 31 - 1" using e by (simp add: EXPZRO_def)
  ultimately have "lglflt e m \<noteq> FLTMAX"
    using fltpack_not_FLTMAX [of "uint m div 2 ^ k" "e + int k + EXPZRO"] e
    by (auto simp: FLTMIN_def FLTMAX_def EXPMAX_def)
  then show ?thesis
    using lglflt_num [of m e] True e z lglflt_ok [OF True e'] by auto
next
  case False
  have e': "INT_MIN \<le> e - int 1" using e by (simp add: EXPZRO_def INT_MIN_def)
  obtain j where j: "j \<le> 1" "lglflt_up e m = (e - int j, push_bit j m)" "2 ^ 32 \<le> uint m * 2 ^ j"
    "uint m * 2 ^ j < 2 ^ 33" "uint (push_bit j m) = uint m * 2 ^ j"
    using lglflt_up_spec [of m 1 e] m False e' by auto
  have j1: "j = 1" using j False by (cases "j = 0") auto
  have h: "2 ^ 32 \<le> uint (push_bit j m)" "uint (push_bit j m) < 2 ^ 33"
    "0 \<le> e - int j + EXPZRO" "e - int j + EXPZRO < 2 ^ 31"
    using j j1 z e by (simp_all add: EXPZRO_def)
  have nz: "m \<noteq> 0" "m < MNTBIT" using m False by (auto simp: MNTBIT_def word_less_def)
  have "lglflt e m = (push_bit j m AND NOT MNTBIT) OR push_bit 32 (word_of_int (e - int j + EXPZRO))"
    using nz j(2) h(3,4) by (auto simp: lglflt_def EXPMAX_def)
  then have eq: "lglflt e m = fltpack (e - int j + EXPZRO) (uint (push_bit j m))"
    using uint_pack [OF h] uint_fltpack [OF h] by (simp add: word_uint_eq_iff)
  have "nat (e + EXPZRO) = Suc (nat (e - int j + EXPZRO))" using z j1 by simp
  then have "fltnum (lglflt e m) = uint m * 2 ^ nat (e + EXPZRO)"
    unfolding eq using fltnum_pack [OF h] z j j1 by simp
  moreover have "0 \<le> uint m * 2 ^ nat (e + EXPZRO)" by simp
  ultimately show ?thesis using fltpack_ok [OF h] unfolding eq by simp
qed

lemma lglrat_quotient:
  assumes "n \<noteq> 0" "d \<noteq> 0"
  shows "\<exists>r. lglrat n d = Some r \<and> flt_ok r \<and>
    fltnum r * uint d \<le> uint n * 2 ^ nat EXPZRO \<and>
    uint n * 2 ^ nat EXPZRO * 2 ^ 63 \<le> fltnum r * uint d * ((2 ^ 31 + 1) * (2 ^ 32 + 1))"
proof -
  obtain k m where k: "k \<le> 63" "lglrat n d = Some (lglflt (- int k) m)"
    and m: "uint m = uint n * 2 ^ k div uint d" "2 ^ 63 \<le> uint n * 2 ^ k"
    using lglrat_eq [OF assms] by blast
  define D where "D = uint d"
  define M where "M = uint n * 2 ^ k"
  define E where "E = nat (- int k + EXPZRO)"
  define r where "r = fltnum (lglflt (- int k) m)"
  define c where "c = (2::int) ^ 32 + 1"
  have D: "0 < D" "D < 2 ^ 32"
    using assms(2) uint_ge_0 [of d] uint_lt2p [of d] unfolding D_def by (metis order_le_less uint_0_iff, simp)
  have "2 ^ 63 div 2 ^ 32 \<le> M div 2 ^ 32" using m(2) unfolding M_def by (rule zdiv_mono1) simp
  also have "\<dots> \<le> M div D" using m(2) D unfolding M_def by (intro zdiv_mono2) auto
  finally have q: "2 ^ 31 \<le> uint m" unfolding m(1) M_def D_def by simp
  have dm: "uint m * D + M mod D = M" unfolding m(1) M_def D_def by (rule div_mult_mod_eq)
  have mod: "0 \<le> M mod D" "M mod D < D" using D by simp_all
  have Mlo: "uint m * D \<le> M" and Mhi: "M \<le> (uint m + 1) * D"
    using dm mod by (simp_all add: distrib_right)
  have s: "flt_ok (lglflt (- int k) m)" "r \<le> uint m * 2 ^ E" "uint m * 2 ^ E * 2 ^ 32 \<le> r * c"
    using lglflt_small [of "- int k" m] q k(1) unfolding r_def E_def c_def by (auto simp: EXPZRO_def)
  have Z: "nat EXPZRO = k + E" using k(1) by (simp add: E_def EXPZRO_def)
  have N: "uint n * 2 ^ nat EXPZRO = M * 2 ^ E" unfolding Z M_def by (simp add: power_add)
  have "r * D \<le> uint m * 2 ^ E * D" using s(2) D by (intro mult_right_mono) auto
  also have "\<dots> = uint m * D * 2 ^ E" by simp
  also have "\<dots> \<le> M * 2 ^ E" using Mlo by (rule mult_right_mono) simp
  finally have 1: "r * D \<le> M * 2 ^ E" .
  have "M * 2 ^ 31 \<le> (uint m + 1) * D * 2 ^ 31" using Mhi by (rule mult_right_mono) simp
  also have "\<dots> = (uint m * 2 ^ 31 + 2 ^ 31) * D" by (simp add: algebra_simps)
  also have "\<dots> \<le> (uint m * 2 ^ 31 + uint m) * D" using q D by (intro mult_right_mono add_left_mono) auto
  finally have "M * 2 ^ 31 * (2 ^ E * 2 ^ 32) \<le> (uint m * 2 ^ 31 + uint m) * D * (2 ^ E * 2 ^ 32)"
    by (rule mult_right_mono) simp
  also have "\<dots> = (uint m * 2 ^ E * 2 ^ 32) * (D * (2 ^ 31 + 1))" by (simp add: algebra_simps)
  also have "\<dots> \<le> (r * c) * (D * (2 ^ 31 + 1))" using s(3) D by (intro mult_right_mono) auto
  finally have "M * 2 ^ E * 2 ^ 63 \<le> r * D * ((2 ^ 31 + 1) * c)" by (simp add: ac_simps)
  then show ?thesis using 1 s(1) k(2) unfolding N r_def D_def c_def by auto
qed

section \<open>The properties of the scores\<close>

text \<open>
  The two binary logarithms.  For every positive int n, lglfloorld returns the position of
  the highest bit of n (in a table lookup, so at most 31), and lglceild the least exponent
  whose power of two is at least n.
\<close>
theorem lgl_logarithms:
  assumes "0 < n" "n \<le> INT_MAX"
  shows "0 \<le> lglfloorld n \<and> lglfloorld n \<le> 31 \<and> 2 ^ nat (lglfloorld n) \<le> n \<and>
    n < 2 ^ Suc (nat (lglfloorld n)) \<and>
    0 \<le> lglceild n \<and> n \<le> 2 ^ nat (lglceild n) \<and> (\<forall>k. n \<le> 2 ^ k \<longrightarrow> nat (lglceild n) \<le> k)"
  using lglfloorld_correct [OF assms] lglceild_correct [OF assms] by blast

theorem lgl_logarithms_witness: "lglfloorld 70000 = 16 \<and> lglceild 70000 = 17 \<and> (70000::int) < 2 ^ Suc (nat (lglfloorld 70000))"
  using lgl_logarithms [of 70000] by (simp add: INT_MAX_def lglfloorld_def lglceild_def lglispow2_def lglfloorldtab_def LT_def)

text \<open>
  C37: Comparing two packed numbers as signed 64 bit integers, which is how lgldcmp, lglecmp
  and lglscrcmp order scores, compares the numbers that they stand for.  In particular the
  packing is injective.
\<close>
theorem flt_order:
  assumes "flt_ok a" "flt_ok b"
  shows "(sint a < sint b \<longleftrightarrow> fltnum a < fltnum b) \<and> (a = b \<longleftrightarrow> fltnum a = fltnum b)"
  using fltnum_le_sint [OF assms] fltnum_le_sint [OF assms(2,1)] signed_word_eqI [of a b] by auto

theorem flt_order_witness: "fltnum 5 < fltnum 0x1000000000000000"
  using flt_order [of 5 "0x1000000000000000"] by (simp add: flt_ok_def)

text \<open>
  C29: Addition of scores.  The result is a well formed number that is at least each summand
  (adding never decreases a score), and unless it saturates at FLTMAX it is at most the exact
  sum and below it by a factor of at most (1 + 1/2^32)^2.
\<close>
theorem lgladdflt_correct:
  assumes "flt_ok a" "flt_ok b"
  shows "flt_ok (lgladdflt a b) \<and> sint a \<le> sint (lgladdflt a b) \<and> sint b \<le> sint (lgladdflt a b) \<and>
    (lgladdflt a b \<noteq> FLTMAX \<longrightarrow>
       fltnum (lgladdflt a b) \<le> fltnum a + fltnum b \<and>
       (fltnum a + fltnum b) * 2 ^ 64 \<le> fltnum (lgladdflt a b) * (2 ^ 32 + 1) ^ 2)"
  using lgladdflt_sum [OF assms] by (simp add: sum_spec_def)

theorem lgladdflt_correct_witness: "sint (0x1000000000000000::u64) \<le> sint (lgladdflt 0x1000000000000000 0x1000000080000000)"
  using lgladdflt_correct [of "0x1000000000000000" "0x1000000080000000"] by (simp add: flt_ok_def)

text \<open>
  Multiplication of scores.  For two finite nonzero numbers whose exponents do not add up
  to an underflow, a product that does not saturate is at most the exact product and below it
  by a factor of at most (1 + 1/2^32)^4.  fltnum is the value times 2^EXPZRO.
\<close>
theorem lglmulflt_correct:
  assumes "flt_regular a" "flt_regular b"
    and "- EXPZRO < lglexp a + lglexp b + 32" "lglmulflt a b \<noteq> FLTMAX"
  shows "fltnum (lglmulflt a b) * 2 ^ nat EXPZRO \<le> fltnum a * fltnum b \<and>
    fltnum a * fltnum b * 2 ^ 128 \<le> fltnum (lglmulflt a b) * 2 ^ nat EXPZRO * (2 ^ 32 + 1) ^ 4"
  using lglmulflt_regular [OF assms] .

theorem lglmulflt_correct_witness:
  "fltnum (lglmulflt 0x1000000000000000 0x1000000080000000) * 2 ^ nat EXPZRO
    \<le> fltnum 0x1000000000000000 * fltnum 0x1000000080000000"
proof -
  have "flt_regular 0x1000000000000000" "flt_regular 0x1000000080000000"
    "- EXPZRO < lglexp 0x1000000000000000 + lglexp 0x1000000080000000 + 32"
    "lglmulflt 0x1000000000000000 0x1000000080000000 \<noteq> FLTMAX"
    by code_simp+
  then show ?thesis by (rule lglmulflt_correct [THEN conjunct1])
qed

text \<open>
  C30: The quotient of two positive 32 bit integers.  lglrat terminates, its result is well
  formed, at most the exact quotient and below it by a factor of at most
  (1 + 1/2^31)(1 + 1/2^32).
\<close>
theorem lglrat_correct:
  assumes "n \<noteq> 0" "d \<noteq> 0"
  shows "\<exists>r. lglrat n d = Some r \<and> flt_ok r \<and>
    fltnum r * uint d \<le> uint n * 2 ^ nat EXPZRO \<and>
    uint n * 2 ^ nat EXPZRO * 2 ^ 63 \<le> fltnum r * uint d * ((2 ^ 31 + 1) * (2 ^ 32 + 1))"
  using lglrat_quotient [OF assms] .

theorem lglrat_correct_witness: "\<exists>r. lglrat 7 3 = Some r \<and> flt_ok r \<and> fltnum r * 3 \<le> 7 * 2 ^ nat EXPZRO"
  using lglrat_correct [of 7 3] by auto

end
