(* ===== verification/Lgl_Stk.thy ===== *)
theory Lgl_Stk
  imports Lsq_Prelude
begin

text \<open>
  The memory accounting and the growing arrays of src/painless-v2/lingeling/lglib.c:
  lglinc, lgldec, lglnew, lgldel and lglrsz, the integer stack Stk, the number stack Ftk
  and the control stack Ctk with the operations on the decision levels.

  An array is the list of its allocated cells (the empty list is the null pointer) and
  the number of cells below the pointer top.  A failed assertion of the source is None;
  running out of memory ends the process (lgldie) and is not modelled.
\<close>

section \<open>Memory accounting\<close>

record mem =
  current :: nat
  maxbytes :: nat

definition lglinc :: "mem \<Rightarrow> nat \<Rightarrow> mem" where
  "lglinc b bytes =
     (let b = b\<lparr>current := current b + bytes\<rparr>
      in if maxbytes b < current b then b\<lparr>maxbytes := current b\<rparr> else b)"

definition lgldec :: "mem \<Rightarrow> nat \<Rightarrow> mem option" where
  "lgldec b bytes =
     (if current b \<ge> bytes then Some (b\<lparr>current := current b - bytes\<rparr>) else None)"

text \<open>
  An array of n cells of sz bytes each; new cells are zeroed, z is the zeroed cell.
\<close>

definition lglnew :: "nat \<Rightarrow> 'a \<Rightarrow> mem \<Rightarrow> nat \<Rightarrow> mem \<times> 'a list" where
  "lglnew sz z b n = (if n * sz = 0 then (b, []) else (lglinc b (n * sz), replicate n z))"

definition lgldel :: "nat \<Rightarrow> mem \<Rightarrow> 'a list \<Rightarrow> mem option" where
  "lgldel sz b cs = (if cs = [] then Some b else lgldec b (length cs * sz))"

definition lglrsz :: "nat \<Rightarrow> 'a \<Rightarrow> mem \<Rightarrow> 'a list \<Rightarrow> nat \<Rightarrow> (mem \<times> 'a list) option" where
  "lglrsz sz z b cs new =
     (let old = length cs
      in if cs = [] then Some (lglnew sz z b new)
         else if new = 0 then map_option (\<lambda>b. (b, [])) (lgldel sz b cs)
         else if old = new then Some (b, cs)
         else do {
           b \<leftarrow> lgldec b (old * sz);
           let b = lglinc b (new * sz);
           Some (b, take new cs @ replicate (new - old) z)
         })"

definition mem_ok :: "mem \<Rightarrow> bool" where
  "mem_ok b \<longleftrightarrow> current b \<le> maxbytes b"

lemma lglinc_current [simp]: "current (lglinc b n) = current b + n"
  by (simp add: lglinc_def Let_def)

lemma lglinc_ok [simp]: "mem_ok b \<Longrightarrow> mem_ok (lglinc b n)"
  by (simp add: lglinc_def Let_def mem_ok_def)

text \<open>
  Resizing never fails for an array that the account holds, keeps the common prefix,
  zeroes the rest and moves the account by the difference in size.
\<close>

lemma lglrsz_spec:
  assumes "length cs * sz \<le> current b" "mem_ok b" "0 < sz"
  obtains b' where
    "lglrsz sz z b cs new = Some (b', take new cs @ replicate (new - length cs) z)"
    "current b' + length cs * sz = current b + new * sz" "mem_ok b'"
proof -
  consider "cs = []" | "cs \<noteq> []" "new = 0" | "cs \<noteq> []" "length cs = new"
    | "cs \<noteq> []" "new \<noteq> 0" "length cs \<noteq> new" by blast
  then show ?thesis
  proof cases
    case 1
    then show ?thesis
      using assms that [of "if new = 0 then b else lglinc b (new * sz)"]
      by (auto simp: lglrsz_def lglnew_def)
  next
    case 2
    then show ?thesis
      using assms that [of "b\<lparr>current := current b - length cs * sz\<rparr>"]
      by (auto simp: lglrsz_def lgldel_def lgldec_def mem_ok_def)
  next
    case 3
    then show ?thesis using assms that [of b] by (auto simp: lglrsz_def)
  next
    case 4
    then show ?thesis
      using assms that [of "lglinc (b\<lparr>current := current b - length cs * sz\<rparr>) (new * sz)"]
      lglinc_ok [of "b\<lparr>current := current b - length cs * sz\<rparr>" "new * sz"]
      by (auto simp: lglrsz_def lgldec_def Let_def mem_ok_def)
  qed
qed

section \<open>Growing arrays\<close>

record 'a stk =
  cells :: "'a list"
  ntop :: nat

type_synonym Stk = "int stk"

definition lglfullstk :: "'a stk \<Rightarrow> bool" where "lglfullstk s \<longleftrightarrow> ntop s = length (cells s)"
definition lglmtstk :: "'a stk \<Rightarrow> bool" where "lglmtstk s \<longleftrightarrow> ntop s = 0"
definition lglcntstk :: "'a stk \<Rightarrow> nat" where "lglcntstk s = ntop s"
definition lglszstk :: "'a stk \<Rightarrow> nat" where "lglszstk s = length (cells s)"

definition lglpeek :: "'a stk \<Rightarrow> nat \<Rightarrow> 'a option" where
  "lglpeek s pos = (if pos < lglszstk s then Some (cells s ! pos) else None)"

definition lglpoke :: "'a stk \<Rightarrow> nat \<Rightarrow> 'a \<Rightarrow> 'a stk option" where
  "lglpoke s pos val =
     (if pos < lglszstk s then Some (s\<lparr>cells := (cells s)[pos := val]\<rparr>) else None)"

text \<open>
  The three kinds of stack grow with the same code, over cells of different types; enl is
  that code for cells of sz bytes, lglenlstk, lglenlftk and lglenlctk its instances.
\<close>

definition enl :: "nat \<Rightarrow> 'a \<Rightarrow> mem \<Rightarrow> 'a stk \<Rightarrow> (mem \<times> 'a stk) option" where
  "enl sz z b s =
     (let old_size = length (cells s);
          new_size = (if old_size \<noteq> 0 then 2 * old_size else 1);
          count = ntop s
      in do {
        (b, cs) \<leftarrow> lglrsz sz z b (cells s) new_size;
        Some (b, \<lparr>cells = cs, ntop = count\<rparr>)
      })"

definition push :: "nat \<Rightarrow> 'a \<Rightarrow> mem \<Rightarrow> 'a stk \<Rightarrow> 'a \<Rightarrow> (mem \<times> 'a stk) option" where
  "push sz z b s x =
     do {
       (b, s) \<leftarrow> (if ntop s = length (cells s) then enl sz z b s else Some (b, s));
       Some (b, s\<lparr>cells := (cells s)[ntop s := x], ntop := Suc (ntop s)\<rparr>)
     }"

definition rel :: "nat \<Rightarrow> mem \<Rightarrow> 'a stk \<Rightarrow> (mem \<times> 'a stk) option" where
  "rel sz b s = map_option (\<lambda>b. (b, \<lparr>cells = [], ntop = 0\<rparr>)) (lgldel sz b (cells s))"

definition pop :: "'a stk \<Rightarrow> ('a \<times> 'a stk) option" where
  "pop s = (if ntop s = 0 then None else Some (cells s ! (ntop s - 1), s\<lparr>ntop := ntop s - 1\<rparr>))"

definition topmost :: "'a stk \<Rightarrow> 'a option" where
  "topmost s = (if ntop s = 0 then None else Some (cells s ! (ntop s - 1)))"

definition lglenlstk :: "mem \<Rightarrow> Stk \<Rightarrow> (mem \<times> Stk) option" where "lglenlstk = enl 4 0"
definition lglrelstk :: "mem \<Rightarrow> Stk \<Rightarrow> (mem \<times> Stk) option" where "lglrelstk = rel 4"
definition lglpushstk :: "mem \<Rightarrow> Stk \<Rightarrow> int \<Rightarrow> (mem \<times> Stk) option" where "lglpushstk = push 4 0"
definition lglpopstk :: "Stk \<Rightarrow> (int \<times> Stk) option" where "lglpopstk = pop"
definition lgltopstk :: "Stk \<Rightarrow> int option" where "lgltopstk = topmost"

definition shr :: "nat \<Rightarrow> 'a \<Rightarrow> mem \<Rightarrow> 'a stk \<Rightarrow> nat \<Rightarrow> (mem \<times> 'a stk) option" where
  "shr sz z b s new_size =
     (let count = lglcntstk s
      in if \<not> count \<le> new_size then None
         else if new_size > 0 then
           do {
             (b, cs) \<leftarrow> lglrsz sz z b (cells s) new_size;
             Some (b, \<lparr>cells = cs, ntop = count\<rparr>)
           }
         else rel sz b s)"

definition fit :: "nat \<Rightarrow> 'a \<Rightarrow> mem \<Rightarrow> 'a stk \<Rightarrow> (mem \<times> 'a stk) option" where
  "fit sz z b s = shr sz z b s (lglcntstk s)"

definition lglshrstk :: "mem \<Rightarrow> Stk \<Rightarrow> nat \<Rightarrow> (mem \<times> Stk) option" where "lglshrstk = shr 4 0"
definition lglfitstk :: "mem \<Rightarrow> Stk \<Rightarrow> (mem \<times> Stk) option" where "lglfitstk = fit 4 0"

text \<open>lglrmstk: the search for the first occurrence and the loop that closes the gap.\<close>

function rm_search :: "Stk \<Rightarrow> int \<Rightarrow> nat \<Rightarrow> nat" where
  "rm_search s elem p = (if p < ntop s \<and> cells s ! p \<noteq> elem then rm_search s elem (Suc p) else p)"
  by pat_completeness auto
termination by (relation "measure (\<lambda>(s, elem, p). ntop s - p)") auto

function rm_shift :: "'a list \<Rightarrow> nat \<Rightarrow> nat \<Rightarrow> nat \<Rightarrow> 'a list \<times> nat" where
  "rm_shift cs q p t = (if p < t then rm_shift (cs[q := cs ! p]) (Suc q) (Suc p) t else (cs, q))"
  by pat_completeness auto
termination by (relation "measure (\<lambda>(cs, q, p, t). t - p)") auto

declare rm_search.simps [simp del] rm_shift.simps [simp del]

definition lglrmstk :: "Stk \<Rightarrow> int \<Rightarrow> Stk option" where
  "lglrmstk s elem =
     (let p = rm_search s elem 0
      in if p < ntop s
         then (let (cs, q) = rm_shift (cells s) p (Suc p) (ntop s) in Some \<lparr>cells = cs, ntop = q\<rparr>)
         else None)"

definition lglrststk :: "'a stk \<Rightarrow> nat \<Rightarrow> 'a stk option" where
  "lglrststk s newsz = (if newsz \<le> lglcntstk s then Some (s\<lparr>ntop := newsz\<rparr>) else None)"

definition lglclnstk :: "'a stk \<Rightarrow> 'a stk option" where
  "lglclnstk s = lglrststk s 0"

section \<open>The abstract stack\<close>

definition contents :: "'a stk \<Rightarrow> 'a list" where
  "contents s = take (ntop s) (cells s)"

text \<open>
  A stack is well formed when top does not pass end, and accounted for when the account
  holds at least its cells.
\<close>

definition stk_ok :: "nat \<Rightarrow> mem \<Rightarrow> 'a stk \<Rightarrow> bool" where
  "stk_ok sz b s \<longleftrightarrow> ntop s \<le> length (cells s) \<and> length (cells s) * sz \<le> current b \<and> mem_ok b"

lemma length_contents: "stk_ok sz b s \<Longrightarrow> length (contents s) = ntop s"
  by (simp add: stk_ok_def contents_def)

lemma contents_snoc:
  "n < length cs \<Longrightarrow> take (Suc n) (cs[n := x]) = take n cs @ [x]"
  by (simp add: take_Suc_conv_app_nth)

definition account :: "nat \<Rightarrow> mem \<Rightarrow> 'a stk \<Rightarrow> int" where
  "account sz b s = int (current b) - int (length (cells s) * sz)"

lemma enl_spec:
  assumes ok: "stk_ok sz b s" and sz: "0 < sz"
  obtains b' s' where "enl sz z b s = Some (b', s')" "stk_ok sz b' s'" "contents s' = contents s"
    "ntop s' = ntop s" "length (cells s) < length (cells s')" "account sz b' s' = account sz b s"
proof -
  let ?new = "if length (cells s) \<noteq> 0 then 2 * length (cells s) else 1"
  have "length (cells s) * sz \<le> current b" "mem_ok b" using ok by (simp_all add: stk_ok_def)
  then obtain b' where b': "lglrsz sz z b (cells s) ?new =
      Some (b', take ?new (cells s) @ replicate (?new - length (cells s)) z)"
    "current b' + length (cells s) * sz = current b + ?new * sz" "mem_ok b'"
    by (rule lglrsz_spec [OF _ _ sz])
  let ?s = "\<lparr>cells = cells s @ replicate (?new - length (cells s)) z, ntop = ntop s\<rparr>"
  have le: "length (cells s) < ?new" by auto
  then have "enl sz z b s = Some (b', ?s)"
    using b'(1) by (simp add: enl_def Let_def)
  moreover have len: "length (cells ?s) = ?new" using le by simp
  moreover have "int (current b') + int (length (cells s) * sz) = int (current b) + int (?new * sz)"
    using b'(2) by (metis of_nat_add)
  then have "account sz b' ?s = account sz b s" unfolding account_def len by linarith
  moreover have "?new * sz \<le> current b'" using b'(2) ok by (simp only: stk_ok_def) linarith
  then have "stk_ok sz b' ?s" using ok b'(3) le unfolding stk_ok_def len by simp
  moreover have "contents ?s = contents s" using ok by (simp add: stk_ok_def contents_def)
  ultimately show ?thesis using le by (intro that [of b' ?s]) auto
qed

lemma push_spec:
  assumes ok: "stk_ok sz b s" and sz: "0 < sz"
  obtains b' s' where "push sz z b s x = Some (b', s')" "stk_ok sz b' s'"
    "contents s' = contents s @ [x]" "account sz b' s' = account sz b s"
proof (cases "ntop s = length (cells s)")
  case True
  obtain b' s' where e: "enl sz z b s = Some (b', s')" "stk_ok sz b' s'" "contents s' = contents s"
    "ntop s' = ntop s" "length (cells s) < length (cells s')" "account sz b' s' = account sz b s"
    using enl_spec [OF ok sz] by blast
  then show ?thesis using True
    by (intro that [of b' "s'\<lparr>cells := (cells s')[ntop s' := x], ntop := Suc (ntop s')\<rparr>"])
      (auto simp: push_def stk_ok_def contents_def account_def contents_snoc)
next
  case False
  then have "ntop s < length (cells s)" using ok by (simp add: stk_ok_def)
  then show ?thesis using ok False
    by (intro that [of b "s\<lparr>cells := (cells s)[ntop s := x], ntop := Suc (ntop s)\<rparr>"])
      (auto simp: push_def stk_ok_def contents_def account_def contents_snoc)
qed

lemma pop_spec:
  assumes "stk_ok sz b s" "contents s \<noteq> []"
  obtains s' where "pop s = Some (last (contents s), s')" "stk_ok sz b s'"
    "contents s' = butlast (contents s)" "account sz b s' = account sz b s"
proof -
  have "0 < ntop s" "ntop s \<le> length (cells s)" using assms by (auto simp: stk_ok_def contents_def)
  then show ?thesis using assms
    by (intro that [of "s\<lparr>ntop := ntop s - 1\<rparr>"])
      (auto simp: pop_def stk_ok_def contents_def account_def last_conv_nth butlast_take min_def)
qed

lemma push_ex:
  "stk_ok sz b s \<Longrightarrow> 0 < sz \<Longrightarrow>
    \<exists>b' s'. push sz z b s x = Some (b', s') \<and> stk_ok sz b' s' \<and> contents s' = contents s @ [x] \<and>
      account sz b' s' = account sz b s"
  by (metis push_spec)

text \<open>Fitting a stack to its size gives the memory back and keeps the contents.\<close>

lemma fit_spec:
  assumes ok: "stk_ok sz b s" and sz: "0 < sz"
  shows "\<exists>b' s'. fit sz z b s = Some (b', s') \<and> stk_ok sz b' s' \<and> contents s' = contents s \<and>
    account sz b' s' = account sz b s"
proof (cases "ntop s = 0")
  case True
  have "length (cells s) * sz \<le> current b" "mem_ok b" using ok by (simp_all add: stk_ok_def)
  moreover define b' where "b' = (if cells s = [] then b else b\<lparr>current := current b - length (cells s) * sz\<rparr>)"
  ultimately have "fit sz z b s = Some (b', \<lparr>cells = [], ntop = 0\<rparr>)" "mem_ok b'"
    "int (current b') = int (current b) - int (length (cells s) * sz)"
    using True by (auto simp: fit_def shr_def lglcntstk_def rel_def lgldel_def lgldec_def mem_ok_def of_nat_diff)
  then show ?thesis using True by (auto simp: stk_ok_def contents_def account_def)
next
  case False
  have a: "length (cells s) * sz \<le> current b" "mem_ok b" and n: "ntop s \<le> length (cells s)"
    using ok by (simp_all add: stk_ok_def)
  obtain b' where b': "lglrsz sz z b (cells s) (ntop s) =
      Some (b', take (ntop s) (cells s) @ replicate (ntop s - length (cells s)) z)"
    "current b' + length (cells s) * sz = current b + ntop s * sz" "mem_ok b'"
    by (rule lglrsz_spec [OF a sz])
  let ?s = "\<lparr>cells = take (ntop s) (cells s), ntop = ntop s\<rparr>"
  have "fit sz z b s = Some (b', ?s)" using b'(1) False n by (simp add: fit_def shr_def lglcntstk_def Let_def)
  moreover have "ntop s * sz \<le> current b'" using b'(2) a(1) by linarith
  then have "stk_ok sz b' ?s" using b'(3) n by (simp add: stk_ok_def)
  moreover have "int (current b') + int (length (cells s) * sz) = int (current b) + int (ntop s * sz)"
    using b'(2) by (metis of_nat_add)
  then have "account sz b' ?s = account sz b s" using n unfolding account_def by simp
  ultimately show ?thesis by (intro exI [of _ b'] exI [of _ ?s]) (simp add: contents_def)
qed

section \<open>The interface of a stack\<close>

text \<open>
  What the clients of the three kinds of stack rely on: an abstract sequence that grows
  and shrinks at its end, and an invariant that every operation keeps.  The memory and the
  array together are the state of the interface.
\<close>

text \<open>A sequence of pushes, and a sequence of pops with the values they return.\<close>

primrec pushes :: "('s \<Rightarrow> 'a \<Rightarrow> 's option) \<Rightarrow> 's \<Rightarrow> 'a list \<Rightarrow> 's option" where
  "pushes psh s [] = Some s"
| "pushes psh s (x # xs) = (case psh s x of None \<Rightarrow> None | Some s' \<Rightarrow> pushes psh s' xs)"

primrec pops :: "('s \<Rightarrow> ('a \<times> 's) option) \<Rightarrow> 's \<Rightarrow> nat \<Rightarrow> ('a list \<times> 's) option" where
  "pops pp s 0 = Some ([], s)"
| "pops pp s (Suc n) =
     (case pp s of
        None \<Rightarrow> None
      | Some (x, s') \<Rightarrow> (case pops pp s' n of None \<Rightarrow> None | Some (xs, s'') \<Rightarrow> Some (x # xs, s'')))"

locale stack_if =
  fixes inv :: "'s \<Rightarrow> bool"
    and absl :: "'s \<Rightarrow> 'a list"
    and psh :: "'s \<Rightarrow> 'a \<Rightarrow> 's option"
    and pp :: "'s \<Rightarrow> ('a \<times> 's) option"
    and isempty :: "'s \<Rightarrow> bool"
  assumes psh_ok: "inv s \<Longrightarrow> \<exists>s'. psh s x = Some s' \<and> inv s' \<and> absl s' = absl s @ [x]"
    and pp_ok: "inv s \<Longrightarrow> absl s \<noteq> [] \<Longrightarrow>
      \<exists>s'. pp s = Some (last (absl s), s') \<and> inv s' \<and> absl s' = butlast (absl s)"
    and isempty_ok: "inv s \<Longrightarrow> isempty s \<longleftrightarrow> absl s = []"
begin

lemma pushes_ok: "inv s \<Longrightarrow> \<exists>s'. pushes psh s xs = Some s' \<and> inv s' \<and> absl s' = absl s @ xs"
proof (induction xs arbitrary: s)
  case Nil then show ?case by simp
next
  case (Cons x xs)
  obtain s1 where "psh s x = Some s1" "inv s1" "absl s1 = absl s @ [x]"
    using psh_ok [OF Cons.prems] by blast
  then show ?case using Cons.IH [of s1] by auto
qed

lemma pops_ok:
  "inv s \<Longrightarrow> absl s = ys @ xs \<Longrightarrow>
     \<exists>s'. pops pp s (length xs) = Some (rev xs, s') \<and> inv s' \<and> absl s' = ys"
proof (induction xs arbitrary: s rule: rev_induct)
  case Nil then show ?case by simp
next
  case (snoc x xs)
  then have "absl s \<noteq> []" by simp
  then obtain s1 where "pp s = Some (last (absl s), s1)" "inv s1" "absl s1 = butlast (absl s)"
    using pp_ok [OF snoc.prems(1)] by blast
  moreover have "last (absl s) = x" "butlast (absl s) = ys @ xs"
    using snoc.prems(2) by (simp_all add: butlast_append)
  ultimately show ?case using snoc.IH [of s1] by auto
qed

lemma pushes_pops:
  assumes "inv s"
  shows "\<exists>s1 s2. pushes psh s xs = Some s1 \<and> pops pp s1 (length xs) = Some (rev xs, s2) \<and>
    inv s2 \<and> absl s2 = absl s"
proof -
  obtain s1 where "pushes psh s xs = Some s1" "inv s1" "absl s1 = absl s @ xs"
    using pushes_ok [OF assms] by blast
  then show ?thesis using pops_ok [of s1 "absl s" xs] by blast
qed

end

section \<open>Stacks of numbers and the control stack\<close>

type_synonym Ftk = "u64 stk"

definition lglmtftk :: "Ftk \<Rightarrow> bool" where "lglmtftk f \<longleftrightarrow> ntop f = 0"
definition lglfullftk :: "Ftk \<Rightarrow> bool" where "lglfullftk f \<longleftrightarrow> ntop f = length (cells f)"
definition lglsizeftk :: "Ftk \<Rightarrow> nat" where "lglsizeftk f = length (cells f)"
definition lglcntftk :: "Ftk \<Rightarrow> nat" where "lglcntftk f = ntop f"
definition lglrelftk :: "mem \<Rightarrow> Ftk \<Rightarrow> (mem \<times> Ftk) option" where "lglrelftk = rel 8"
definition lglenlftk :: "mem \<Rightarrow> Ftk \<Rightarrow> (mem \<times> Ftk) option" where "lglenlftk = enl 8 0"
definition lglpushftk :: "mem \<Rightarrow> Ftk \<Rightarrow> u64 \<Rightarrow> (mem \<times> Ftk) option" where "lglpushftk = push 8 0"
definition lgltopftk :: "Ftk \<Rightarrow> u64 option" where "lgltopftk = topmost"
definition lglpopftk :: "Ftk \<Rightarrow> (u64 \<times> Ftk) option" where "lglpopftk = pop"

text \<open>A frame of the control stack: bit fields of 28, 2 and 2 bits in one int.\<close>

record ctr =
  decision :: int
  used :: nat
  used2 :: nat

definition ctr0 :: ctr where
  "ctr0 = \<lparr>decision = 0, used = 0, used2 = 0\<rparr>"

type_synonym Ctk = "ctr stk"

definition lglfullctk :: "Ctk \<Rightarrow> bool" where "lglfullctk c \<longleftrightarrow> ntop c = length (cells c)"
definition lglsizectk :: "Ctk \<Rightarrow> nat" where "lglsizectk c = length (cells c)"
definition lglcntctk :: "Ctk \<Rightarrow> nat" where "lglcntctk c = ntop c"
definition lglrelctk :: "mem \<Rightarrow> Ctk \<Rightarrow> (mem \<times> Ctk) option" where "lglrelctk = rel 4"
definition lglenlctk :: "mem \<Rightarrow> Ctk \<Rightarrow> (mem \<times> Ctk) option" where "lglenlctk = enl 4 ctr0"

text \<open>The part of struct LGL that the decision levels live in.\<close>

record ctl =
  bytes :: mem
  control :: Ctk
  frames :: Stk

definition lglpushcontrol :: "ctl \<Rightarrow> int \<Rightarrow> ctl option" where
  "lglpushcontrol l dec =
     do {
       (b, c) \<leftarrow> push 4 ctr0 (bytes l) (control l)
                   \<lparr>decision = signed_take_bit 27 dec, used = 0, used2 = 0\<rparr>;
       Some (l\<lparr>bytes := b, control := c\<rparr>)
     }"

definition lglpopcontrol :: "ctl \<Rightarrow> ctl option" where
  "lglpopcontrol l =
     (if ntop (control l) > 0 then Some (l\<lparr>control := (control l)\<lparr>ntop := ntop (control l) - 1\<rparr>\<rparr>)
      else None)"

function lglrstcontrol :: "ctl \<Rightarrow> nat \<Rightarrow> ctl option" where
  "lglrstcontrol l count =
     (if lglcntctk (control l) > count
      then (case lglpopcontrol l of None \<Rightarrow> None | Some l \<Rightarrow> lglrstcontrol l count)
      else Some l)"
  by pat_completeness auto
termination
  by (relation "measure (\<lambda>(l, count). ntop (control l))")
    (auto simp: lglpopcontrol_def split: if_splits)

declare lglrstcontrol.simps [simp del]

definition lglctr :: "ctl \<Rightarrow> nat \<Rightarrow> ctr option" where
  "lglctr l level =
     (if 0 < level \<and> level < lglsizectk (control l) then Some (cells (control l) ! level) else None)"

definition lglevelused :: "ctl \<Rightarrow> nat \<Rightarrow> nat option" where
  "lglevelused l level = map_option used (lglctr l level)"

definition set_used :: "ctl \<Rightarrow> nat \<Rightarrow> nat \<Rightarrow> ctl" where
  "set_used l level u =
     l\<lparr>control := (control l)\<lparr>cells := (cells (control l))[level := (cells (control l) ! level)\<lparr>used := u\<rparr>]\<rparr>\<rparr>"

definition lgluselevel :: "ctl \<Rightarrow> nat \<Rightarrow> ctl option" where
  "lgluselevel l level =
     (if \<not> (0 < level \<and> level < lglsizectk (control l)) then None
      else
        let u = used (cells (control l) ! level)
        in if u = 0 then
             do {
               (b, f) \<leftarrow> lglpushstk (bytes l) (frames l) (int level);
               Some (set_used (l\<lparr>bytes := b, frames := f\<rparr>) level 1)
             }
           else if u = 1 then Some (set_used l level 2)
           else Some l)"

definition lglunuselevel :: "ctl \<Rightarrow> nat \<Rightarrow> ctl option" where
  "lglunuselevel l level =
     (if \<not> 0 < level then None
      else if level \<ge> lglcntctk (control l) then Some l
      else if \<not> used (cells (control l) ! level) > 0 then None
      else Some (set_used l level 0))"

section \<open>The instances of the interface\<close>

interpretation intstk: stack_if
  "\<lambda>(b, s). stk_ok 4 b s" "\<lambda>(b, s). contents s"
  "\<lambda>(b, s) x. lglpushstk b s x" "\<lambda>(b, s). map_option (\<lambda>(x, s'). (x, (b, s'))) (lglpopstk s)"
  "\<lambda>(b, s). lglmtstk s"
proof (unfold_locales, goal_cases)
  case (1 s x)
  then show ?case using push_ex [of 4 "fst s" "snd s" 0 x] by (auto simp: lglpushstk_def split: prod.splits)
next
  case (2 s)
  then show ?case using pop_spec [of 4 "fst s" "snd s"] by (auto simp: lglpopstk_def split: prod.splits)
next
  case (3 s)
  then show ?case by (auto simp: lglmtstk_def stk_ok_def contents_def split: prod.splits)
qed

interpretation fltstk: stack_if
  "\<lambda>(b, s). stk_ok 8 b s" "\<lambda>(b, s). contents s"
  "\<lambda>(b, s) x. lglpushftk b s x" "\<lambda>(b, s). map_option (\<lambda>(x, s'). (x, (b, s'))) (lglpopftk s)"
  "\<lambda>(b, s). lglmtftk s"
proof (unfold_locales, goal_cases)
  case (1 s x)
  then show ?case using push_ex [of 8 "fst s" "snd s" 0 x] by (auto simp: lglpushftk_def split: prod.splits)
next
  case (2 s)
  then show ?case using pop_spec [of 8 "fst s" "snd s"] by (auto simp: lglpopftk_def split: prod.splits)
next
  case (3 s)
  then show ?case by (auto simp: lglmtftk_def stk_ok_def contents_def split: prod.splits)
qed

section \<open>Closing the gap\<close>

lemma rm_search_spec:
  assumes "p \<le> ntop s" "ntop s \<le> length (cells s)"
  shows "p \<le> rm_search s e p \<and> rm_search s e p \<le> ntop s \<and>
    (\<forall>j. p \<le> j \<and> j < rm_search s e p \<longrightarrow> cells s ! j \<noteq> e) \<and>
    (rm_search s e p < ntop s \<longrightarrow> cells s ! rm_search s e p = e)"
  using assms
proof (induction s e p rule: rm_search.induct)
  case (1 s e p)
  show ?case
  proof (cases "p < ntop s \<and> cells s ! p \<noteq> e")
    case True
    then have "rm_search s e p = rm_search s e (Suc p)" by (subst rm_search.simps) simp
    moreover have "\<forall>j. p \<le> j \<and> j < r \<longrightarrow> cells s ! j \<noteq> e" if "\<forall>j. Suc p \<le> j \<and> j < r \<longrightarrow> cells s ! j \<noteq> e" for r
      using that True by (metis Suc_leI order_le_less)
    ultimately show ?thesis using 1 True by auto
  next
    case False
    then show ?thesis using 1 by (subst (1 2 3 4 5) rm_search.simps) auto
  qed
qed

lemma rm_shift_spec:
  assumes "p = Suc q" "p \<le> t" "t \<le> length cs"
  shows "take (t - 1) (fst (rm_shift cs q p t)) = take q cs @ drop p (take t cs) \<and>
    snd (rm_shift cs q p t) = t - 1 \<and> length (fst (rm_shift cs q p t)) = length cs"
  using assms
proof (induction cs q p t rule: rm_shift.induct)
  case (1 cs q p t)
  show ?case
  proof (cases "p < t")
    case True
    then have e: "rm_shift cs q p t = rm_shift (cs[q := cs ! p]) (Suc q) (Suc p) t"
      by (subst rm_shift.simps) simp
    have "take (Suc q) (cs[q := cs ! p]) = take q cs @ [cs ! p]"
      using 1 True by (intro contents_snoc) simp
    moreover have "drop (Suc p) (take t (cs[q := cs ! p])) = drop (Suc p) (take t cs)"
      using 1 by (simp add: take_update_swap drop_update_cancel)
    moreover have "drop p (take t cs) = cs ! p # drop (Suc p) (take t cs)"
      using 1 True by (simp add: Cons_nth_drop_Suc [symmetric])
    ultimately show ?thesis using 1 True unfolding e by simp
  next
    case False
    then show ?thesis using 1 by (subst (1 2 3) rm_shift.simps) auto
  qed
qed

lemma remove1_first:
  assumes "i < length xs" "xs ! i = x" "\<forall>j<i. xs ! j \<noteq> x"
  shows "remove1 x xs = take i xs @ drop (Suc i) xs"
proof -
  have xs: "xs = take i xs @ x # drop (Suc i) xs" using id_take_nth_drop [OF assms(1)] assms(2) by simp
  have "x \<notin> set (take i xs)" using assms(1,3) by (auto simp: in_set_conv_nth)
  then have "remove1 x (take i xs @ x # drop (Suc i) xs) = take i xs @ drop (Suc i) xs"
    by (simp add: remove1_append)
  then show ?thesis using xs by simp
qed

lemma lglrmstk_correct:
  assumes ok: "stk_ok 4 b s"
  shows "if elem \<in> set (contents s)
    then \<exists>s'. lglrmstk s elem = Some s' \<and> stk_ok 4 b s' \<and> contents s' = remove1 elem (contents s)
    else lglrmstk s elem = None"
proof -
  let ?p = "rm_search s elem 0"
  have n: "ntop s \<le> length (cells s)" using ok by (simp add: stk_ok_def)
  note p = rm_search_spec [of 0 s elem, OF _ n]
  show ?thesis
  proof (cases "?p < ntop s")
    case True
    have "contents s ! ?p = elem" "\<forall>j<?p. contents s ! j \<noteq> elem" "?p < length (contents s)"
      using p True n by (auto simp: contents_def)
    then have r: "remove1 elem (contents s) = take ?p (contents s) @ drop (Suc ?p) (contents s)"
      and mem: "elem \<in> set (contents s)"
      using remove1_first nth_mem by metis+
    obtain cs q where e: "rm_shift (cells s) ?p (Suc ?p) (ntop s) = (cs, q)" by (cases "rm_shift (cells s) ?p (Suc ?p) (ntop s)")
    have "take (ntop s - 1) cs = take ?p (cells s) @ drop (Suc ?p) (take (ntop s) (cells s))"
      "q = ntop s - 1" "length cs = length (cells s)"
      using rm_shift_spec [of "Suc ?p" ?p "ntop s" "cells s"] True n e by auto
    then show ?thesis using e True mem r ok
      by (auto simp: lglrmstk_def contents_def stk_ok_def)
  next
    case False
    then have "\<forall>j<ntop s. cells s ! j \<noteq> elem" using p by auto
    then have "elem \<notin> set (contents s)" using n by (auto simp: contents_def in_set_conv_nth)
    then show ?thesis using False by (simp add: lglrmstk_def)
  qed
qed

section \<open>Decision levels\<close>

text \<open>
  The control stack and the frames have their own arrays on one account; what every
  operation below keeps is that both are well formed and both are covered by it.
\<close>

definition ctl_ok :: "ctl \<Rightarrow> bool" where
  "ctl_ok l \<longleftrightarrow> ntop (control l) \<le> length (cells (control l)) \<and> ntop (frames l) \<le> length (cells (frames l)) \<and>
    (length (cells (control l)) + length (cells (frames l))) * 4 \<le> current (bytes l) \<and> mem_ok (bytes l)"

lemma lglrstcontrol_correct:
  assumes "ctl_ok l"
  shows "\<exists>l'. lglrstcontrol l count = Some l' \<and> ctl_ok l' \<and> frames l' = frames l \<and>
    contents (control l') = take count (contents (control l))"
  using assms
proof (induction l count rule: lglrstcontrol.induct)
  case (1 l count)
  show ?case
  proof (cases "lglcntctk (control l) > count")
    case True
    let ?l = "l\<lparr>control := (control l)\<lparr>ntop := ntop (control l) - 1\<rparr>\<rparr>"
    have p: "lglpopcontrol l = Some ?l" using True by (simp add: lglpopcontrol_def lglcntctk_def)
    have "ctl_ok ?l" using 1(2) by (auto simp: ctl_ok_def)
    then obtain l' where l': "lglrstcontrol ?l count = Some l'" "ctl_ok l'" "frames l' = frames l"
      "contents (control l') = take count (contents (control ?l))"
      using 1(1) [OF True p] by auto
    have "lglrstcontrol l count = Some l'"
      using True p l'(1) by (subst lglrstcontrol.simps) simp
    then show ?thesis using l' True by (auto simp: contents_def lglcntctk_def min_def)
  next
    case False
    then show ?thesis using 1(2)
      by (subst lglrstcontrol.simps) (auto simp: contents_def lglcntctk_def)
  qed
qed

lemma lglpushcontrol_correct:
  assumes ok: "ctl_ok l"
  shows "\<exists>l'. lglpushcontrol l dec = Some l' \<and> ctl_ok l' \<and> frames l' = frames l \<and>
    contents (control l') = contents (control l) @ [\<lparr>decision = signed_take_bit 27 dec, used = 0, used2 = 0\<rparr>]"
proof -
  have "stk_ok 4 (bytes l) (control l)" using ok by (simp add: ctl_ok_def stk_ok_def)
  then obtain b c where p: "push 4 ctr0 (bytes l) (control l)
      \<lparr>decision = signed_take_bit 27 dec, used = 0, used2 = 0\<rparr> = Some (b, c)" "stk_ok 4 b c"
    "contents c = contents (control l) @ [\<lparr>decision = signed_take_bit 27 dec, used = 0, used2 = 0\<rparr>]"
    "account 4 b c = account 4 (bytes l) (control l)"
    by (rule push_spec) simp
  have "ctl_ok (l\<lparr>bytes := b, control := c\<rparr>)"
    using p(2,4) ok unfolding account_def by (auto simp: ctl_ok_def stk_ok_def)
  then show ?thesis using p(1,3) by (simp add: lglpushcontrol_def)
qed

lemma pushcontrols_correct:
  "ctl_ok l \<Longrightarrow> \<exists>l'. pushes lglpushcontrol l ds = Some l' \<and> ctl_ok l' \<and> frames l' = frames l \<and>
     contents (control l') = contents (control l) @
       map (\<lambda>d. \<lparr>decision = signed_take_bit 27 d, used = 0, used2 = 0\<rparr>) ds"
proof (induction ds arbitrary: l)
  case (Cons d ds)
  obtain l1 where l1: "lglpushcontrol l d = Some l1" "ctl_ok l1" "frames l1 = frames l"
    "contents (control l1) = contents (control l) @ [\<lparr>decision = signed_take_bit 27 d, used = 0, used2 = 0\<rparr>]"
    using lglpushcontrol_correct [OF Cons.prems] by blast
  then show ?case using Cons.IH [of l1] by auto
qed simp

definition levels_used :: "ctl \<Rightarrow> nat \<Rightarrow> nat" where
  "levels_used l level = used (cells (control l) ! level)"

lemma set_used_props [simp]:
  "frames (set_used l level u) = frames l" "bytes (set_used l level u) = bytes l"
  "length (cells (control (set_used l level u))) = length (cells (control l))"
  "ntop (control (set_used l level u)) = ntop (control l)"
  by (simp_all add: set_used_def)

lemma levels_used_set [simp]:
  "level < length (cells (control l)) \<Longrightarrow>
     levels_used (set_used l level u) k = (if k = level then u else levels_used l k)"
  by (simp add: levels_used_def set_used_def)

lemma lgluselevel_step:
  assumes ok: "ctl_ok l" and lev: "0 < level" "level < length (cells (control l))"
  shows "\<exists>l'. lgluselevel l level = Some l' \<and> ctl_ok l' \<and>
    length (cells (control l')) = length (cells (control l)) \<and>
    contents (frames l') = contents (frames l) @ (if levels_used l level = 0 then [int level] else []) \<and>
    levels_used l' = (levels_used l)(level := (if levels_used l level = 0 then 1
      else if levels_used l level = 1 then 2 else levels_used l level))"
proof -
  have f: "stk_ok 4 (bytes l) (frames l)" using ok by (simp add: ctl_ok_def stk_ok_def)
  obtain b s where p: "push 4 0 (bytes l) (frames l) (int level) = Some (b, s)" "stk_ok 4 b s"
    "contents s = contents (frames l) @ [int level]" "account 4 b s = account 4 (bytes l) (frames l)"
    using push_spec [OF f] by (metis zero_less_numeral)
  have acc: "ctl_ok (l\<lparr>bytes := b, frames := s\<rparr>)"
    using p(2,4) ok unfolding account_def by (auto simp: ctl_ok_def stk_ok_def)
  have sok: "ctl_ok (set_used m k u) = ctl_ok m" for m k u by (simp add: ctl_ok_def)
  consider "levels_used l level = 0" | "levels_used l level = 1" | "levels_used l level > 1" by linarith
  then show ?thesis
  proof cases
    case 1
    then have "lgluselevel l level = Some (set_used (l\<lparr>bytes := b, frames := s\<rparr>) level 1)"
      using lev p(1) by (simp add: lgluselevel_def lglsizectk_def levels_used_def lglpushstk_def)
    moreover have "levels_used (set_used (l\<lparr>bytes := b, frames := s\<rparr>) level 1) = (levels_used l)(level := 1)"
      using lev by (auto simp: fun_eq_iff) (simp add: levels_used_def)
    ultimately show ?thesis using 1 p(3) acc sok by simp
  next
    case 2
    then have "lgluselevel l level = Some (set_used l level 2)"
      using lev by (simp add: lgluselevel_def lglsizectk_def levels_used_def)
    then show ?thesis using 2 ok lev sok by (auto simp: fun_eq_iff)
  next
    case 3
    then have "lgluselevel l level = Some l"
      using lev by (auto simp: lgluselevel_def lglsizectk_def levels_used_def Let_def)
    then show ?thesis using 3 ok by auto
  qed
qed

text \<open>The levels a conflict analysis pulls in, one after the other.\<close>

primrec uselevels :: "ctl \<Rightarrow> nat list \<Rightarrow> ctl option" where
  "uselevels l [] = Some l"
| "uselevels l (k # ks) = (case lgluselevel l k of None \<Rightarrow> None | Some l' \<Rightarrow> uselevels l' ks)"

lemma uselevels_snoc:
  "uselevels l (ks @ [k]) = (case uselevels l ks of None \<Rightarrow> None | Some l' \<Rightarrow> lgluselevel l' k)"
  by (induction ks arbitrary: l) (auto split: option.splits)

text \<open>The levels in the order of their first use.\<close>

definition first_uses :: "nat list \<Rightarrow> nat list" where
  "first_uses ks = rev (remdups (rev ks))"

lemma uselevels_correct:
  assumes ok: "ctl_ok l" and ks: "\<forall>k\<in>set ks. 0 < k \<and> k < length (cells (control l))"
    and fresh: "\<forall>k<length (cells (control l)). levels_used l k = 0" "contents (frames l) = []"
  shows "\<exists>l'. uselevels l ks = Some l' \<and> ctl_ok l' \<and>
    length (cells (control l')) = length (cells (control l)) \<and>
    contents (frames l') = map int (first_uses ks) \<and>
    (\<forall>k<length (cells (control l)). levels_used l' k = min 2 (count_list ks k))"
  using ks
proof (induction ks rule: rev_induct)
  case Nil
  then show ?case using ok fresh by (simp add: first_uses_def)
next
  case (snoc k ks)
  then obtain l1 where l1: "uselevels l ks = Some l1" "ctl_ok l1"
    "length (cells (control l1)) = length (cells (control l))"
    "contents (frames l1) = map int (first_uses ks)"
    "\<forall>k<length (cells (control l)). levels_used l1 k = min 2 (count_list ks k)" by auto
  then obtain l2 where l2: "lgluselevel l1 k = Some l2" "ctl_ok l2"
    "length (cells (control l2)) = length (cells (control l1))"
    "contents (frames l2) = contents (frames l1) @ (if levels_used l1 k = 0 then [int k] else [])"
    "levels_used l2 = (levels_used l1)(k := (if levels_used l1 k = 0 then 1
      else if levels_used l1 k = 1 then 2 else levels_used l1 k))"
    using lgluselevel_step [of l1 k] snoc.prems by auto
  have "first_uses (ks @ [k]) = first_uses ks @ (if count_list ks k = 0 then [k] else [])"
    by (simp add: first_uses_def count_list_0_iff)
  moreover have "levels_used l1 k = min 2 (count_list ks k)" using l1(5) snoc.prems by simp
  ultimately show ?case using l1 l2 by (auto simp: uselevels_snoc min_def)
qed

section \<open>The properties of the stacks\<close>

text \<open>
  The integer stack is a stack.  Whatever is pushed with lglpushstk, however often the
  array has to be enlarged on the way, comes back in reverse order from as many lglpopstk;
  what was on the stack before is then unchanged, and no assertion fails.
\<close>
theorem lglstk_lifo:
  assumes "stk_ok 4 b s"
  shows "\<exists>b1 s1 b2 s2. pushes (\<lambda>(b, s) x. lglpushstk b s x) (b, s) xs = Some (b1, s1) \<and>
    pops (\<lambda>(b, s). map_option (\<lambda>(x, s'). (x, (b, s'))) (lglpopstk s)) (b1, s1) (length xs) =
      Some (rev xs, (b2, s2)) \<and> stk_ok 4 b2 s2 \<and> contents s2 = contents s"
  using intstk.pushes_pops [of "(b, s)" xs] assms by auto

theorem lglstk_lifo_witness:
  "\<exists>b1 s1. pushes (\<lambda>(b, s) x. lglpushstk b s x)
     (\<lparr>current = 0, maxbytes = 0\<rparr>, \<lparr>cells = [], ntop = 0\<rparr>) [3, -4, 5] = Some (b1, s1)"
  using lglstk_lifo [of "\<lparr>current = 0, maxbytes = 0\<rparr>" "\<lparr>cells = [], ntop = 0\<rparr>" "[3, -4, 5]"]
  by (auto simp: stk_ok_def mem_ok_def)

text \<open>
  Removing an element from the integer stack.  If the element is on the stack, lglrmstk
  removes exactly its first occurrence and keeps the order of the others; if it is not, the
  assertion of the source fails.
\<close>
theorem lglrmstk_first:
  assumes "stk_ok 4 b s"
  shows "if elem \<in> set (contents s)
    then \<exists>s'. lglrmstk s elem = Some s' \<and> stk_ok 4 b s' \<and> contents s' = remove1 elem (contents s)
    else lglrmstk s elem = None"
  by (rule lglrmstk_correct [OF assms])

theorem lglrmstk_first_witness:
  "\<exists>s'. lglrmstk \<lparr>cells = [7, 5, 7, 0], ntop = 3\<rparr> 7 = Some s' \<and> contents s' = [5, 7]"
  using lglrmstk_first [of "\<lparr>current = 16, maxbytes = 16\<rparr>" "\<lparr>cells = [7, 5, 7, 0], ntop = 3\<rparr>" 7]
  by (auto simp: stk_ok_def mem_ok_def contents_def)

text \<open>
  Backtracking undoes decisions.  After any sequence of lglpushcontrol, lglrstcontrol to
  the former height returns (its loop ends) and leaves the control stack with exactly its
  former frames and the stack of used levels untouched.
\<close>
theorem lglrstcontrol_undoes:
  assumes "ctl_ok l"
  shows "\<exists>l1 l2. pushes lglpushcontrol l ds = Some l1 \<and>
    lglcntctk (control l1) = lglcntctk (control l) + length ds \<and>
    lglrstcontrol l1 (lglcntctk (control l)) = Some l2 \<and> ctl_ok l2 \<and> frames l2 = frames l \<and>
    contents (control l2) = contents (control l)"
proof -
  have len: "ctl_ok m \<Longrightarrow> lglcntctk (control m) = length (contents (control m))" for m
    by (simp add: ctl_ok_def lglcntctk_def contents_def)
  obtain l1 where l1: "pushes lglpushcontrol l ds = Some l1" "ctl_ok l1" "frames l1 = frames l"
    "contents (control l1) = contents (control l) @
       map (\<lambda>d. \<lparr>decision = signed_take_bit 27 d, used = 0, used2 = 0\<rparr>) ds"
    using pushcontrols_correct [OF assms] by blast
  then show ?thesis
    using lglrstcontrol_correct [OF l1(2), of "lglcntctk (control l)"] len [OF assms] len [OF l1(2)]
    by auto
qed

theorem lglrstcontrol_undoes_witness:
  "\<exists>l1. pushes lglpushcontrol \<lparr>bytes = \<lparr>current = 0, maxbytes = 0\<rparr>, control = \<lparr>cells = [], ntop = 0\<rparr>,
     frames = \<lparr>cells = [], ntop = 0\<rparr>\<rparr> [4, -6] = Some l1 \<and> lglcntctk (control l1) = 2"
  using lglrstcontrol_undoes [of "\<lparr>bytes = \<lparr>current = 0, maxbytes = 0\<rparr>,
    control = \<lparr>cells = [], ntop = 0\<rparr>, frames = \<lparr>cells = [], ntop = 0\<rparr>\<rparr>" "[4, -6]"]
  by (auto simp: ctl_ok_def mem_ok_def lglcntctk_def)

text \<open>
  C34: The levels that a conflict analysis pulls in.  Starting from unused levels and no
  frames, calling lgluselevel on any sequence of valid levels counts the uses of every level,
  saturating at 2 in its two bits, and leaves each level exactly once on the stack frames, in
  the order of the first use.
\<close>
theorem lgluselevel_counts:
  assumes "ctl_ok l" "\<forall>k\<in>set ks. 0 < k \<and> k < lglsizectk (control l)"
    and "\<forall>k<lglsizectk (control l). levels_used l k = 0" "contents (frames l) = []"
  shows "\<exists>l'. uselevels l ks = Some l' \<and> ctl_ok l' \<and>
    contents (frames l') = map int (first_uses ks) \<and> distinct (contents (frames l')) \<and>
    (\<forall>k<lglsizectk (control l). levels_used l' k = min 2 (count_list ks k))"
  using uselevels_correct [OF assms(1) _ _ assms(4), of ks] assms(2,3)
  by (auto simp: lglsizectk_def first_uses_def distinct_map)

theorem lgluselevel_counts_witness:
  "\<exists>l'. uselevels \<lparr>bytes = \<lparr>current = 16, maxbytes = 16\<rparr>,
      control = \<lparr>cells = [ctr0, ctr0, ctr0, ctr0], ntop = 3\<rparr>,
      frames = \<lparr>cells = [], ntop = 0\<rparr>\<rparr> [2, 1, 2, 2] = Some l' \<and>
    contents (frames l') = [2, 1] \<and> levels_used l' 2 = 2"
proof -
  let ?l = "\<lparr>bytes = \<lparr>current = 16, maxbytes = 16\<rparr>, control = \<lparr>cells = [ctr0, ctr0, ctr0, ctr0], ntop = 3\<rparr>,
    frames = \<lparr>cells = [], ntop = 0\<rparr>\<rparr>"
  have "ctl_ok ?l" by (simp add: ctl_ok_def mem_ok_def)
  moreover have "\<forall>k\<in>set [2, 1, 2, 2]. 0 < k \<and> k < lglsizectk (control ?l)" by (simp add: lglsizectk_def)
  moreover have "\<forall>k<lglsizectk (control ?l). levels_used ?l k = 0"
    by (auto simp: lglsizectk_def levels_used_def ctr0_def less_Suc_eq numeral_eq_Suc)
  moreover have "contents (frames ?l) = []" by (simp add: contents_def)
  ultimately show ?thesis using lgluselevel_counts [of ?l "[2, 1, 2, 2]"]
    by (auto simp: first_uses_def lglsizectk_def)
qed

end
