(* ===== verification/Lgl_Heap.thy ===== *)
theory Lgl_Heap
  imports Lgl_Stk "HOL-Library.Multiset"
begin

text \<open>
  The binary heaps of src/painless-v2/lingeling/lglib.c.  The decision schedule dsched and the
  elimination schedule esched are maintained by the same code over two comparison functions:
  lgldup and lgleup, lglddown and lgledown.  This theory holds that code once, over a
  comparison cmp of variable records, the interface that it needs of cmp as a locale, and its
  correctness.  Lgl_Sched instantiates it.

  The heap is an array p of variables of which the first n are in use, and every variable
  record holds its position pos in the array.  Both loops move a hole through the array and
  write the moving variable lit at the end only.
\<close>

section \<open>The code\<close>

record hnode =
  pos :: int

definition set_pos :: "'a hnode_scheme list \<Rightarrow> nat \<Rightarrow> int \<Rightarrow> 'a hnode_scheme list" where
  "set_pos vs lit i = vs[lit := (vs ! lit)\<lparr>pos := i\<rparr>]"

function up_loop :: "('a hnode_scheme \<Rightarrow> 'a hnode_scheme \<Rightarrow> int) \<Rightarrow> nat \<Rightarrow> nat list \<Rightarrow>
    'a hnode_scheme list \<Rightarrow> nat \<Rightarrow> (nat list \<times> 'a hnode_scheme list \<times> nat) option" where
  "up_loop cmp lit p vs cpos =
     (if cpos > 0 then
        let ppos = (cpos - 1) div 2; parent = p ! ppos
        in if cmp (vs ! parent) (vs ! lit) \<ge> 0 then Some (p, vs, cpos)
           else if pos (vs ! parent) \<noteq> int ppos then None
           else up_loop cmp lit (p[cpos := parent]) (set_pos vs parent (int cpos)) ppos
      else Some (p, vs, cpos))"
  by pat_completeness auto
termination by (relation "measure (\<lambda>(cmp, lit, p, vs, cpos). cpos)") auto

definition heap_up :: "('a hnode_scheme \<Rightarrow> 'a hnode_scheme \<Rightarrow> int) \<Rightarrow> nat \<Rightarrow> nat list \<Rightarrow>
    'a hnode_scheme list \<Rightarrow> (nat list \<times> 'a hnode_scheme list) option" where
  "heap_up cmp lit p vs =
     (if pos (vs ! lit) < 0 then None
      else do {
        (p, vs, cpos) \<leftarrow> up_loop cmp lit p vs (nat (pos (vs ! lit)));
        if pos (vs ! lit) = int cpos then Some (p, vs)
        else Some (p[cpos := lit], set_pos vs lit (int cpos))
      })"

text \<open>
  The check of the position of the child in the down loop is an assignment in the source,
  assert (*cposptr = cpos), so it is no check; its effect is overwritten two lines below.
\<close>

function down_loop :: "('a hnode_scheme \<Rightarrow> 'a hnode_scheme \<Rightarrow> int) \<Rightarrow> nat \<Rightarrow> nat \<Rightarrow> nat list \<Rightarrow>
    'a hnode_scheme list \<Rightarrow> nat \<Rightarrow> nat list \<times> 'a hnode_scheme list \<times> nat" where
  "down_loop cmp lit sz p vs ppos =
     (let cpos = 2 * ppos + 1
      in if cpos \<ge> sz then (p, vs, ppos)
         else let cpos = (if cpos + 1 < sz \<and> cmp (vs ! (p ! cpos)) (vs ! (p ! (cpos + 1))) < 0
                          then cpos + 1 else cpos);
                  child = p ! cpos
              in if cmp (vs ! child) (vs ! lit) \<le> 0 then (p, vs, ppos)
                 else down_loop cmp lit sz (p[ppos := child]) (set_pos vs child (int ppos)) cpos)"
  by pat_completeness auto
termination
  by (relation "measure (\<lambda>(cmp, lit, sz, p, vs, ppos). sz - ppos)") (auto simp: Let_def split: if_splits)

declare up_loop.simps [simp del] down_loop.simps [simp del]

definition heap_down :: "('a hnode_scheme \<Rightarrow> 'a hnode_scheme \<Rightarrow> int) \<Rightarrow> nat \<Rightarrow> nat \<Rightarrow> nat list \<Rightarrow>
    'a hnode_scheme list \<Rightarrow> (nat list \<times> 'a hnode_scheme list) option" where
  "heap_down cmp lit sz p vs =
     (if pos (vs ! lit) < 0 then None
      else
        let (p, vs, ppos) = down_loop cmp lit sz p vs (nat (pos (vs ! lit)))
        in if pos (vs ! lit) = int ppos then Some (p, vs)
           else Some (p[ppos := lit], set_pos vs lit (int ppos)))"

text \<open>lglchkdsched and lglchkesched: the check of the whole heap.\<close>

definition heap_chk :: "('a hnode_scheme \<Rightarrow> 'a hnode_scheme \<Rightarrow> int) \<Rightarrow> nat \<Rightarrow> nat list \<Rightarrow>
    'a hnode_scheme list \<Rightarrow> bool" where
  "heap_chk cmp sz p vs \<longleftrightarrow>
     (\<forall>ppos\<in>{0..<sz}. pos (vs ! (p ! ppos)) = int ppos \<and>
       (\<forall>i\<in>{0, 1}. let cpos = 2 * ppos + 1 + i in
          cpos < sz \<longrightarrow> pos (vs ! (p ! cpos)) = int cpos \<and> cmp (vs ! (p ! ppos)) (vs ! (p ! cpos)) \<ge> 0))"

section \<open>Heap order on arrays\<close>

text \<open>
  K is the key of a variable, larger keys are nearer to the root.  up_ord and down_ord allow
  one violation, above and below position i.
\<close>

definition par :: "nat \<Rightarrow> nat" where
  "par j = (j - 1) div 2"

lemma par_less: "0 < j \<Longrightarrow> par j < j"
  unfolding par_def by linarith

lemma par_children: "par (2 * i + 1) = i" "par (2 * i + 1 + 1) = i"
  unfolding par_def by simp_all

lemma par_cases: "0 < j \<Longrightarrow> par j = i \<Longrightarrow> j = 2 * i + 1 \<or> j = 2 * i + 1 + 1"
  unfolding par_def by presburger

definition heap_ord :: "(nat \<Rightarrow> 'k::linorder) \<Rightarrow> nat \<Rightarrow> nat list \<Rightarrow> bool" where
  "heap_ord K n p \<longleftrightarrow> (\<forall>j. 0 < j \<and> j < n \<longrightarrow> K (p ! j) \<le> K (p ! par j))"

definition up_ord :: "(nat \<Rightarrow> 'k::linorder) \<Rightarrow> nat \<Rightarrow> nat list \<Rightarrow> nat \<Rightarrow> bool" where
  "up_ord K n p i \<longleftrightarrow> (\<forall>j. 0 < j \<and> j < n \<longrightarrow>
     (j \<noteq> i \<longrightarrow> K (p ! j) \<le> K (p ! par j)) \<and> (par j = i \<and> 0 < i \<longrightarrow> K (p ! j) \<le> K (p ! par i)))"

definition down_ord :: "(nat \<Rightarrow> 'k::linorder) \<Rightarrow> nat \<Rightarrow> nat list \<Rightarrow> nat \<Rightarrow> bool" where
  "down_ord K n p i \<longleftrightarrow> (\<forall>j. 0 < j \<and> j < n \<longrightarrow>
     (par j \<noteq> i \<longrightarrow> K (p ! j) \<le> K (p ! par j)) \<and> (par j = i \<and> 0 < i \<longrightarrow> K (p ! j) \<le> K (p ! par i)))"

definition exch :: "'a list \<Rightarrow> nat \<Rightarrow> nat \<Rightarrow> 'a list" where
  "exch p i j = p[i := p ! j, j := p ! i]"

lemma exch_nth:
  "i < length p \<Longrightarrow> j < length p \<Longrightarrow>
     exch p i j ! k = (if k = j then p ! i else if k = i then p ! j else p ! k)"
  by (simp add: exch_def nth_list_update)

lemma length_exch [simp]: "length (exch p i j) = length p"
  by (simp add: exch_def)

lemma mset_exch: "i < n \<Longrightarrow> j < n \<Longrightarrow> n \<le> length p \<Longrightarrow> mset (take n (exch p i j)) = mset (take n p)"
proof -
  assume a: "i < n" "j < n" "n \<le> length p"
  then have "take n (exch p i j) = exch (take n p) i j"
    by (simp add: exch_def take_update_swap)
  also have "mset \<dots> = mset (take n p)"
    using a mset_swap [of j "take n p" i] by (simp add: exch_def)
  finally show ?thesis .
qed

lemma heap_bypass:
  assumes "heap_ord K n p" "0 < j" "j < n" "par j = i" "0 < i"
  shows "K (p ! j) \<le> K (p ! par i)"
proof (rule order_trans)
  have "i < j" using assms(2,4) par_less [of j] by simp
  show "K (p ! j) \<le> K (p ! i)" using assms unfolding heap_ord_def by blast
  show "K (p ! i) \<le> K (p ! par i)" using assms \<open>i < j\<close> unfolding heap_ord_def by simp
qed

lemma heap_ord_up: "heap_ord K n p \<Longrightarrow> up_ord K n p i"
  using heap_bypass [of K n p] unfolding up_ord_def heap_ord_def by blast

lemma heap_ord_down: "heap_ord K n p \<Longrightarrow> down_ord K n p i"
  using heap_bypass [of K n p] unfolding down_ord_def heap_ord_def by blast

lemma up_ord_end:
  "up_ord K n p i \<Longrightarrow> i = 0 \<or> K (p ! i) \<le> K (p ! par i) \<Longrightarrow> heap_ord K n p"
  unfolding heap_ord_def up_ord_def by auto

lemma down_ord_end:
  "down_ord K n p i \<Longrightarrow> (\<And>j. 0 < j \<Longrightarrow> j < n \<Longrightarrow> par j = i \<Longrightarrow> K (p ! j) \<le> K (p ! i)) \<Longrightarrow> heap_ord K n p"
  unfolding heap_ord_def down_ord_def by metis

lemma up_step:
  assumes o: "up_ord K n p i" and i: "0 < i" "i < n" "n \<le> length p" and lt: "K (p ! par i) < K (p ! i)"
  shows "up_ord K n (exch p i (par i)) (par i)"
proof -
  have pi: "par i < i" using par_less [OF i(1)] .
  have q: "exch p i (par i) ! k = (if k = par i then p ! i else if k = i then p ! par i else p ! k)" for k
    using i pi by (intro exch_nth) auto
  have O: "K (p ! j) \<le> K (p ! par j)" if "0 < j" "j < n" "j \<noteq> i" for j
    using o that by (simp add: up_ord_def)
  have B: "K (p ! j) \<le> K (p ! par i)" if "0 < j" "j < n" "par j = i" for j
    using o that i by (simp add: up_ord_def)
  show ?thesis unfolding up_ord_def
  proof (intro allI impI, elim conjE, intro conjI impI)
    fix j assume j: "0 < j" "j < n" and ne: "j \<noteq> par i"
    have pj: "par j < j" using par_less [OF j(1)] .
    show "K (exch p i (par i) ! j) \<le> K (exch p i (par i) ! par j)"
    proof (cases "j = i")
      case True
      then show ?thesis using q lt pi by (simp add: less_imp_le)
    next
      case False
      have c: "K (exch p i (par i) ! j) = K (p ! j)" using q False ne by simp
      consider "par j = i" | "par j = par i" "par j \<noteq> i" | "par j \<noteq> i" "par j \<noteq> par i" by blast
      then show ?thesis
      proof cases
        case 1 then show ?thesis using c q pi B j by simp
      next
        case 2 then show ?thesis using c q O [OF j False] lt by (simp add: order_less_imp_le order_trans)
      next
        case 3 then show ?thesis using c q O [OF j False] by simp
      qed
    qed
  next
    fix j assume j: "0 < j" "j < n" and pj: "par j = par i \<and> 0 < par i"
    have pp: "par (par i) < par i" by (rule par_less [OF conjunct2 [OF pj]])
    have g: "K (p ! par i) \<le> K (p ! par (par i))" using O [of "par i"] pj pi i by simp
    have e: "exch p i (par i) ! par (par i) = p ! par (par i)" using q pp pi by simp
    have "j \<noteq> par i" using pj pp by auto
    then show "K (exch p i (par i) ! j) \<le> K (exch p i (par i) ! par (par i))"
      unfolding e using q g O [OF j] pj by (cases "j = i") (auto intro: order_trans)
  qed
qed

lemma down_step:
  assumes o: "down_ord K n p i" and c: "0 < c" "c < n" "par c = i" "n \<le> length p"
    and lt: "K (p ! i) < K (p ! c)" and mx: "\<And>j. 0 < j \<Longrightarrow> j < n \<Longrightarrow> par j = i \<Longrightarrow> K (p ! j) \<le> K (p ! c)"
  shows "down_ord K n (exch p i c) c"
proof -
  have ic: "i < c" using c par_less [OF c(1)] by simp
  have q: "exch p i c ! k = (if k = c then p ! i else if k = i then p ! c else p ! k)" for k
    using c ic by (intro exch_nth) auto
  have O: "K (p ! j) \<le> K (p ! par j)" if "0 < j" "j < n" "par j \<noteq> i" for j
    using o that by (simp add: down_ord_def)
  have B: "0 < i \<Longrightarrow> K (p ! c) \<le> K (p ! par i)"
    using o c by (simp add: down_ord_def)
  show ?thesis unfolding down_ord_def
  proof (intro allI impI, elim conjE, intro conjI impI)
    fix j assume j: "0 < j" "j < n" and ne: "par j \<noteq> c"
    have pj: "par j < j" using par_less [OF j(1)] .
    consider "j = c" | "j = i" | "j \<noteq> c" "j \<noteq> i" "par j = i" | "j \<noteq> c" "j \<noteq> i" "par j \<noteq> i" by blast
    then show "K (exch p i c ! j) \<le> K (exch p i c ! par j)"
    proof cases
      case 1 then show ?thesis using q c ic lt by (simp add: less_imp_le)
    next
      case 2 then show ?thesis using q ne B j ic pj by simp
    next
      case 3 then show ?thesis using q mx [OF j] ic by simp
    next
      case 4 then show ?thesis using q ne O [OF j] by simp
    qed
  next
    fix j assume j: "0 < j" "j < n" and pj: "par j = c \<and> 0 < c"
    have "c < j" using pj par_less [OF j(1)] by simp
    then have "exch p i c ! j = p ! j" "exch p i c ! par c = p ! c" using q c ic by auto
    then show "K (exch p i c ! j) \<le> K (exch p i c ! par c)" using O [OF j] pj ic by simp
  qed
qed

section \<open>Positions\<close>

text \<open>
  Every variable in the heap knows its position; in particular no variable occurs twice.
  same vs vs' S: only the positions of variables in S have changed.
\<close>

definition hp_ok :: "nat \<Rightarrow> nat list \<Rightarrow> 'a hnode_scheme list \<Rightarrow> bool" where
  "hp_ok n p vs \<longleftrightarrow> n \<le> length p \<and> (\<forall>j<n. p ! j < length vs \<and> pos (vs ! (p ! j)) = int j)"

definition same :: "'a hnode_scheme list \<Rightarrow> 'a hnode_scheme list \<Rightarrow> nat set \<Rightarrow> bool" where
  "same vs vs' S \<longleftrightarrow> length vs' = length vs \<and>
     (\<forall>x<length vs. (\<exists>i. vs' ! x = (vs ! x)\<lparr>pos := i\<rparr>) \<and> (x \<notin> S \<longrightarrow> vs' ! x = vs ! x))"

lemma upd_pos_same: "(r :: 'a hnode_scheme)\<lparr>pos := pos r\<rparr> = r"
  by simp

lemma same_refl [simp]: "same vs vs S"
  unfolding same_def by (metis upd_pos_same)

lemma same_trans: "same u v S \<Longrightarrow> same v w S \<Longrightarrow> same u w S"
  unfolding same_def by (auto; force)

lemma same_set_pos: "lit \<in> S \<Longrightarrow> same vs (set_pos vs lit i) S"
proof -
  assume S: "lit \<in> S"
  have "(\<exists>k. set_pos vs lit i ! x = (vs ! x)\<lparr>pos := k\<rparr>) \<and> (x \<notin> S \<longrightarrow> set_pos vs lit i ! x = vs ! x)"
    if "x < length vs" for x
    using S that by (cases "x = lit") (auto simp: set_pos_def intro: exI [of _ "pos (vs ! x)"])
  then show ?thesis by (simp add: same_def set_pos_def)
qed

lemma same_length: "same vs vs' S \<Longrightarrow> length vs' = length vs"
  by (simp add: same_def)

lemma hp_ok_inj: "hp_ok n p vs \<Longrightarrow> i < n \<Longrightarrow> j < n \<Longrightarrow> p ! i = p ! j \<Longrightarrow> i = j"
  unfolding hp_ok_def by (metis of_nat_eq_iff)

lemma set_pos_nth: "lit < length vs \<Longrightarrow> set_pos vs lit i ! x = (if x = lit then (vs ! lit)\<lparr>pos := i\<rparr> else vs ! x)"
  by (simp add: set_pos_def)

lemma length_set_pos [simp]: "length (set_pos vs lit i) = length vs"
  by (simp add: set_pos_def)

text \<open>
  Moving the hole from i to k: the variable at k goes to i and lit is due at k.
\<close>

lemma hole_step:
  assumes i: "i < n" and k: "k < n" "k \<noteq> i" and lit: "lit < length vs"
    and ok: "hp_ok n (p[i := lit]) (set_pos vs lit (int i))"
  shows "hp_ok n (p[i := p ! k, k := lit]) (set_pos (set_pos vs (p ! k) (int i)) lit (int k))"
    and "p ! k \<noteq> lit" "p ! k < length vs" "pos (vs ! (p ! k)) = int k"
    and "p[i := p ! k, k := lit] = exch (p[i := lit]) i k"
proof -
  let ?p = "p[i := lit]" and ?v = "set_pos vs lit (int i)"
  have n: "n \<le> length p" using ok by (simp add: hp_ok_def)
  have P: "?p ! j < length vs \<and> pos (?v ! (?p ! j)) = int j" if "j < n" for j
    using ok that by (simp add: hp_ok_def)
  have nth: "?p ! i = lit" "?p ! k = p ! k" using i k n by simp_all
  show ne: "p ! k \<noteq> lit" using hp_ok_inj [OF ok i k(1)] k(2) nth by metis
  show pk: "p ! k < length vs" "pos (vs ! (p ! k)) = int k"
    using P [OF k(1)] k nth ne lit by (simp_all add: set_pos_nth)
  show "p[i := p ! k, k := lit] = exch ?p i k" using nth n i by (simp add: exch_def)
  let ?q = "p[i := p ! k, k := lit]" and ?w = "set_pos (set_pos vs (p ! k) (int i)) lit (int k)"
  have "?q ! j < length vs \<and> pos (?w ! (?q ! j)) = int j" if j: "j < n" for j
  proof -
    consider "j = k" | "j = i" | "j \<noteq> k" "j \<noteq> i" by blast
    then show ?thesis
    proof cases
      case 1 then show ?thesis using lit k n by (simp add: set_pos_nth)
    next
      case 2 then show ?thesis using lit pk ne k i n by (simp add: set_pos_nth)
    next
      case 3
      then have "?p ! j = p ! j" "?q ! j = p ! j" by simp_all
      moreover have "p ! j \<noteq> lit" using hp_ok_inj [OF ok i j] 3 nth \<open>?p ! j = p ! j\<close> by metis
      moreover have "p ! j \<noteq> p ! k" using hp_ok_inj [OF ok j k(1)] 3 nth \<open>?p ! j = p ! j\<close> by metis
      ultimately show ?thesis using P [OF j] lit pk by (simp add: set_pos_nth)
    qed
  qed
  then show "hp_ok n ?q ?w" using n by (simp add: hp_ok_def)
qed

section \<open>The interface of the comparison\<close>

locale heap_cmp =
  fixes cmp :: "'a hnode_scheme \<Rightarrow> 'a hnode_scheme \<Rightarrow> int"
    and key :: "'a hnode_scheme \<Rightarrow> 'k::linorder"
  assumes cmp_ge: "0 \<le> cmp x y \<longleftrightarrow> key y \<le> key x"
    and cmp_le: "cmp x y \<le> 0 \<longleftrightarrow> key x \<le> key y"
    and key_pos: "key (x\<lparr>pos := i\<rparr>) = key x"
begin

text \<open>vkey vs x is the key of variable x.\<close>

definition vkey :: "'a hnode_scheme list \<Rightarrow> nat \<Rightarrow> 'k" where
  "vkey vs x = key (vs ! x)"

lemma vkey_same: "same vs vs' S \<Longrightarrow> x < length vs \<Longrightarrow> vkey vs' x = vkey vs x"
  unfolding vkey_def same_def by (metis key_pos)

lemma cmp_neg: "cmp x y < 0 \<longleftrightarrow> key x < key y"
  using cmp_ge [of x y] by (auto simp: not_le [symmetric])

text \<open>
  What a loop leaves behind, from array p0 and records v0 with lit at position i: an array in
  heap order with lit in the hole at i', a permutation of the first n cells, every other cell
  and every other record untouched.
\<close>

definition hole_done :: "(nat \<Rightarrow> 'k) \<Rightarrow> nat \<Rightarrow> nat \<Rightarrow> nat list \<Rightarrow> 'a hnode_scheme list \<Rightarrow> nat \<Rightarrow>
    nat list \<Rightarrow> 'a hnode_scheme list \<Rightarrow> nat \<Rightarrow> bool" where
  "hole_done K n lit p vs i p' vs' i' \<longleftrightarrow>
     i' < n \<and> length p' = length p \<and> pos (vs' ! lit) = pos (vs ! lit) \<and>
     (i' = i \<longrightarrow> p' = p \<and> vs' = vs) \<and> hp_ok n (p'[i' := lit]) (set_pos vs' lit (int i')) \<and>
     heap_ord K n (p'[i' := lit]) \<and> mset (take n (p'[i' := lit])) = mset (take n (p[i := lit])) \<and>
     (\<forall>j\<ge>n. p' ! j = p ! j) \<and> same vs vs' (set (take n (p[i := lit])))"

lemma hole_done_step:
  assumes "hole_done K n lit (p[i := p ! k]) (set_pos vs (p ! k) (int i)) k p' vs' i'"
    and i: "i < n" and k: "k < n" "k \<noteq> i" and lit: "lit < length vs"
    and ok: "hp_ok n (p[i := lit]) (set_pos vs lit (int i))" and i': "i' \<noteq> i"
  shows "hole_done K n lit p vs i p' vs' i'"
proof -
  note h = hole_step [OF i k lit ok]
  have n: "n \<le> length p" using ok by (simp add: hp_ok_def)
  have m: "mset (take n (p[i := p ! k, k := lit])) = mset (take n (p[i := lit]))"
    unfolding h(5) using i k n by (intro mset_exch) auto
  then have S: "set (take n (p[i := p ! k, k := lit])) = set (take n (p[i := lit]))"
    by (metis set_mset_mset)
  have "p ! k \<in> set (take n (p[i := lit]))"
    using k i n by (auto simp: in_set_conv_nth intro!: exI [of _ k])
  then have "same vs (set_pos vs (p ! k) (int i)) (set (take n (p[i := lit])))" by (rule same_set_pos)
  then show ?thesis
    using assms(1) m S i' h(2,3) lit i
    unfolding hole_done_def by (auto simp: set_pos_nth intro: same_trans)
qed

lemma hole_done_here:
  assumes "i < n" "hp_ok n (p[i := lit]) (set_pos vs lit (int i))" "heap_ord K n (p[i := lit])"
  shows "hole_done K n lit p vs i p vs i"
  using assms by (simp add: hole_done_def)

text \<open>The loops.\<close>

lemma up_loop_unfold:
  "up_loop cmp lit p vs i =
     (if i > 0 then
        if cmp (vs ! (p ! par i)) (vs ! lit) \<ge> 0 then Some (p, vs, i)
        else if pos (vs ! (p ! par i)) \<noteq> int (par i) then None
        else up_loop cmp lit (p[i := p ! par i]) (set_pos vs (p ! par i) (int i)) (par i)
      else Some (p, vs, i))"
  by (subst up_loop.simps) (simp add: Let_def par_def)

lemma up_loop_correct:
  assumes "i < n" "lit < length vs" "hp_ok n (p[i := lit]) (set_pos vs lit (int i))"
    and "up_ord K n (p[i := lit]) i" "\<forall>x<length vs. vkey vs x = K x"
  shows "\<exists>p' vs' i'. up_loop cmp lit p vs i = Some (p', vs', i') \<and> i' \<le> i \<and>
    hole_done K n lit p vs i p' vs' i'"
  using assms
proof (induction i arbitrary: p vs rule: less_induct)
  case (less i)
  have n: "n \<le> length p" using less.prems(3) by (simp add: hp_ok_def)
  let ?p = "p[i := lit]" and ?k = "par i"
  show ?case
  proof (cases "i = 0")
    case True
    have "heap_ord K n ?p" using up_ord_end [OF less.prems(4)] True by blast
    then have "hole_done K n lit p vs i p vs i" using hole_done_here less.prems(1,3) by blast
    then show ?thesis using True by (subst up_loop_unfold) simp
  next
    case False
    then have k: "?k < i" "?k < n" "?k \<noteq> i" using less.prems(1) par_less [of i] by linarith+
    note h = hole_step [OF less.prems(1) k(2,3) less.prems(2,3)]
    have nth: "?p ! i = lit" "?p ! ?k = p ! ?k" using less.prems(1) n k by simp_all
    have keys: "key (vs ! lit) = K lit" "key (vs ! (p ! ?k)) = K (p ! ?k)"
      using less.prems(2,5) h(3) by (auto simp: vkey_def)
    show ?thesis
    proof (cases "0 \<le> cmp (vs ! (p ! ?k)) (vs ! lit)")
      case True
      then have "K (?p ! i) \<le> K (?p ! ?k)" using keys nth cmp_ge by simp
      then have "heap_ord K n ?p" using up_ord_end [OF less.prems(4)] by blast
      then have "hole_done K n lit p vs i p vs i" using hole_done_here less.prems(1,3) by blast
      then show ?thesis using True False by (subst up_loop_unfold) simp
    next
      case False
      let ?q = "p[i := p ! ?k]" and ?v = "set_pos vs (p ! ?k) (int i)"
      have lt: "K (?p ! ?k) < K (?p ! i)" using False keys nth cmp_ge by (simp add: not_le)
      have "up_ord K n (?q[?k := lit]) ?k"
        unfolding h(5) using up_step [OF less.prems(4) _ less.prems(1) _ lt] \<open>i \<noteq> 0\<close> n by simp
      moreover have "\<forall>x<length ?v. vkey ?v x = K x"
        using less.prems(5) h(3) by (simp add: vkey_def set_pos_nth key_pos)
      ultimately obtain p' vs' i' where r: "up_loop cmp lit ?q ?v ?k = Some (p', vs', i')" "i' \<le> ?k"
        "hole_done K n lit ?q ?v ?k p' vs' i'"
        using less.IH [OF k(1,2), of ?v ?q] less.prems(2) h(1) by auto
      have "up_loop cmp lit p vs i = Some (p', vs', i')"
        using r(1) False \<open>i \<noteq> 0\<close> h(4) by (subst up_loop_unfold) simp
      moreover have "hole_done K n lit p vs i p' vs' i'"
        using hole_done_step [OF r(3) less.prems(1) k(2,3) less.prems(2,3)] r(2) k by simp
      ultimately show ?thesis using r(2) k by auto
    qed
  qed
qed

definition big_child :: "nat list \<Rightarrow> 'a hnode_scheme list \<Rightarrow> nat \<Rightarrow> nat \<Rightarrow> nat" where
  "big_child p vs n i =
     (if 2 * i + 1 + 1 < n \<and> cmp (vs ! (p ! (2 * i + 1))) (vs ! (p ! (2 * i + 1 + 1))) < 0
      then 2 * i + 1 + 1 else 2 * i + 1)"

lemma down_child:
  assumes "2 * i + 1 < n"
  shows "0 < big_child p vs n i" "big_child p vs n i < n" "par (big_child p vs n i) = i"
    and "0 < j \<Longrightarrow> j < n \<Longrightarrow> par j = i \<Longrightarrow> key (vs ! (p ! j)) \<le> key (vs ! (p ! big_child p vs n i))"
proof -
  show "0 < big_child p vs n i" "big_child p vs n i < n" "par (big_child p vs n i) = i"
    using assms par_children [of i] by (auto simp: big_child_def)
  assume j: "0 < j" "j < n" "par j = i"
  then have "j = 2 * i + 1 \<or> j = 2 * i + 1 + 1" using par_cases by blast
  then show "key (vs ! (p ! j)) \<le> key (vs ! (p ! big_child p vs n i))"
    using j(2) assms by (auto simp: big_child_def cmp_neg)
qed

lemma down_loop_unfold:
  "2 * i + 1 < n \<Longrightarrow> down_loop cmp lit n p vs i =
     (let c = big_child p vs n i
      in if cmp (vs ! (p ! c)) (vs ! lit) \<le> 0 then (p, vs, i)
         else down_loop cmp lit n (p[i := p ! c]) (set_pos vs (p ! c) (int i)) c)"
  by (subst down_loop.simps) (simp add: Let_def big_child_def)

lemma down_loop_correct:
  assumes "i < n" "lit < length vs" "hp_ok n (p[i := lit]) (set_pos vs lit (int i))"
    and "down_ord K n (p[i := lit]) i" "\<forall>x<length vs. vkey vs x = K x"
  shows "\<exists>p' vs' i'. down_loop cmp lit n p vs i = (p', vs', i') \<and> i \<le> i' \<and>
    hole_done K n lit p vs i p' vs' i'"
  using assms
proof (induction "n - i" arbitrary: i p vs rule: less_induct)
  case less
  have n: "n \<le> length p" using less.prems(3) by (simp add: hp_ok_def)
  let ?p = "p[i := lit]"
  show ?case
  proof (cases "2 * i + 1 < n")
    case False
    have "heap_ord K n ?p"
    proof (rule down_ord_end [OF less.prems(4)])
      fix j assume "0 < j" "j < n" "par j = i"
      then have "2 * i + 1 < n" using par_cases [of j i] by linarith
      then show "K (?p ! j) \<le> K (?p ! i)" using False by blast
    qed
    then have "hole_done K n lit p vs i p vs i" using hole_done_here less.prems(1,3) by blast
    then show ?thesis using False by (subst down_loop.simps) simp
  next
    case True
    define c where "c = big_child p vs n i"
    have c: "0 < c" "c < n" "par c = i"
      "\<And>j. 0 < j \<Longrightarrow> j < n \<Longrightarrow> par j = i \<Longrightarrow> key (vs ! (p ! j)) \<le> key (vs ! (p ! c))"
      unfolding c_def by (rule down_child [OF True]; assumption?)+
    have ci: "i < c" "c \<noteq> i" using c(1,3) par_less [of c] by auto
    note h = hole_step [OF less.prems(1) c(2) ci(2) less.prems(2,3)]
    have ne: "j \<noteq> i" if "par j = i" "0 < j" for j using par_less [OF that(2)] that(1) by auto
    have nth1: "?p ! i = lit" using less.prems(1) n by simp
    have nth2: "?p ! j = p ! j" if "0 < j" "par j = i" for j using ne [OF that(2,1)] by simp
    have K: "key (vs ! (p ! j)) = K (?p ! j)" if "0 < j" "j < n" "par j = i" for j
    proof -
      have "p ! j < length vs"
        by (rule hole_step(3) [OF less.prems(1) that(2) ne [OF that(3,1)] less.prems(2,3)])
      then show ?thesis using less.prems(5) nth2 [OF that(1,3)] by (simp add: vkey_def)
    qed
    have Kl: "key (vs ! lit) = K lit" using less.prems(2,5) by (auto simp: vkey_def)
    have mx: "K (?p ! j) \<le> K (?p ! c)" if "0 < j" "j < n" "par j = i" for j
      using c(4) [OF that] K [OF that] K [OF c(1-3)] by simp
    have unf: "down_loop cmp lit n p vs i =
        (if cmp (vs ! (p ! c)) (vs ! lit) \<le> 0 then (p, vs, i)
         else down_loop cmp lit n (p[i := p ! c]) (set_pos vs (p ! c) (int i)) c)"
      using down_loop_unfold [OF True] by (simp add: Let_def c_def)
    show ?thesis
    proof (cases "cmp (vs ! (p ! c)) (vs ! lit) \<le> 0")
      case True
      then have le: "K (?p ! c) \<le> K (?p ! i)" using K [OF c(1-3)] Kl nth1 cmp_le by simp
      have "heap_ord K n ?p"
        by (rule down_ord_end [OF less.prems(4)]) (rule order_trans [OF mx le])
      then have "hole_done K n lit p vs i p vs i" using hole_done_here less.prems(1,3) by blast
      then show ?thesis using True unf by simp
    next
      case False
      let ?q = "p[i := p ! c]" and ?v = "set_pos vs (p ! c) (int i)"
      have lt: "K (?p ! i) < K (?p ! c)" using False unfolding cmp_le K [OF c(1-3)] Kl nth1 by (simp only: not_le)
      have d: "down_ord K n (?q[c := lit]) c"
        unfolding h(5) by (rule down_step [OF less.prems(4) c(1-3) _ lt]) (use n mx in simp_all)
      have k: "\<forall>x<length ?v. vkey ?v x = K x"
        using less.prems(5) h(3) by (simp add: vkey_def set_pos_nth key_pos)
      have m: "n - c < n - i" "lit < length ?v" using ci c(2) less.prems(2) by auto
      obtain p' vs' i' where r: "down_loop cmp lit n ?q ?v c = (p', vs', i')" "c \<le> i'"
        "hole_done K n lit ?q ?v c p' vs' i'"
        using less.hyps [OF m(1) c(2) m(2) h(1) d k] by blast
      moreover have "hole_done K n lit p vs i p' vs' i'"
        using hole_done_step [OF r(3) less.prems(1) c(2) ci(2) less.prems(2,3)] r(2) ci by simp
      ultimately show ?thesis using unf False ci by auto
    qed
  qed
qed

text \<open>
  One rearrangement of the first n cells: afterwards they are in heap order, positions are
  right, and nothing else has changed.
\<close>

definition heap_res :: "nat \<Rightarrow> nat list \<Rightarrow> 'a hnode_scheme list \<Rightarrow> nat list \<Rightarrow> 'a hnode_scheme list \<Rightarrow> bool" where
  "heap_res n p vs p' vs' \<longleftrightarrow>
     hp_ok n p' vs' \<and> heap_ord (vkey vs') n p' \<and> mset (take n p') = mset (take n p) \<and>
     length p' = length p \<and> (\<forall>j\<ge>n. p' ! j = p ! j) \<and> same vs vs' (set (take n p))"

lemma heap_ord_same:
  assumes "same vs vs' S" "hp_ok n p vs'" "heap_ord (vkey vs) n p"
  shows "heap_ord (vkey vs') n p"
proof -
  have K: "vkey vs' (p ! j) = vkey vs (p ! j)" if "j < n" for j
    using assms(1,2) that by (intro vkey_same) (auto simp: hp_ok_def same_length)
  have "par j < n" if "0 < j" "j < n" for j using that par_less [of j] by simp
  then show ?thesis using assms(3) K unfolding heap_ord_def by simp
qed

lemma fill_own:
  assumes "hp_ok n p vs" "i < n"
  shows "p[i := p ! i] = p" "set_pos vs (p ! i) (int i) = vs"
proof -
  have "p ! i < length vs" "pos (vs ! (p ! i)) = int i" using assms by (simp_all add: hp_ok_def)
  then have "(vs ! (p ! i))\<lparr>pos := int i\<rparr> = vs ! (p ! i)" by (metis upd_pos_same)
  then show "set_pos vs (p ! i) (int i) = vs" by (simp add: set_pos_def)
qed simp

lemma hole_done_res:
  assumes ok: "hp_ok n p vs" and i: "i < n" and h: "hole_done (vkey vs) n (p ! i) p vs i p' vs' i'"
  shows "heap_res n p vs (p'[i' := p ! i]) (set_pos vs' (p ! i) (int i'))"
    and "i' = i \<Longrightarrow> p'[i' := p ! i] = p' \<and> set_pos vs' (p ! i) (int i') = vs'"
    and "pos (vs' ! (p ! i)) = int i"
proof -
  note f = fill_own [OF ok i]
  have n: "n \<le> length p" using ok by (simp add: hp_ok_def)
  have "p ! i \<in> set (take n p)" using i n by (auto simp: in_set_conv_nth)
  then have s: "same vs (set_pos vs' (p ! i) (int i')) (set (take n p))"
    using h same_trans same_set_pos unfolding hole_done_def f(1) by blast
  moreover have "heap_ord (vkey (set_pos vs' (p ! i) (int i'))) n (p'[i' := p ! i])"
    using h s by (intro heap_ord_same [OF s]) (simp_all add: hole_done_def)
  ultimately show "heap_res n p vs (p'[i' := p ! i]) (set_pos vs' (p ! i) (int i'))"
    using h f(1) unfolding heap_res_def hole_done_def by simp
  show "i' = i \<Longrightarrow> p'[i' := p ! i] = p' \<and> set_pos vs' (p ! i) (int i') = vs'"
    using h f unfolding hole_done_def by auto
  show "pos (vs' ! (p ! i)) = int i" using h ok i unfolding hole_done_def hp_ok_def by simp
qed

lemma heap_up_correct:
  assumes ok: "hp_ok n p vs" and i: "i < n" and o: "up_ord (vkey vs) n p i"
  shows "\<exists>p' vs'. heap_up cmp (p ! i) p vs = Some (p', vs') \<and> heap_res n p vs p' vs'"
proof -
  note f = fill_own [OF ok i]
  have l: "p ! i < length vs" "pos (vs ! (p ! i)) = int i" using ok i by (simp_all add: hp_ok_def)
  obtain p' vs' i' where r: "up_loop cmp (p ! i) p vs i = Some (p', vs', i')"
    "hole_done (vkey vs) n (p ! i) p vs i p' vs' i'"
    using up_loop_correct [of i n "p ! i" vs p "vkey vs"] i l(1) ok o f by auto
  note d = hole_done_res [OF ok i r(2)]
  show ?thesis
  proof (cases "i' = i")
    case True
    then show ?thesis using r(1) d l(2) by (simp add: heap_up_def)
  next
    case False
    then show ?thesis using r(1) d(1,3) l(2) by (simp add: heap_up_def)
  qed
qed

lemma heap_down_correct:
  assumes ok: "hp_ok n p vs" and i: "i < n" and o: "down_ord (vkey vs) n p i"
  shows "\<exists>p' vs'. heap_down cmp (p ! i) n p vs = Some (p', vs') \<and> heap_res n p vs p' vs'"
proof -
  note f = fill_own [OF ok i]
  have l: "p ! i < length vs" "pos (vs ! (p ! i)) = int i" using ok i by (simp_all add: hp_ok_def)
  obtain p' vs' i' where r: "down_loop cmp (p ! i) n p vs i = (p', vs', i')"
    "hole_done (vkey vs) n (p ! i) p vs i p' vs' i'"
    using down_loop_correct [of i n "p ! i" vs p "vkey vs"] i l(1) ok o f by auto
  note d = hole_done_res [OF ok i r(2)]
  show ?thesis
  proof (cases "i' = i")
    case True
    then show ?thesis using r(1) d l(2) by (simp add: heap_down_def)
  next
    case False
    then show ?thesis using r(1) d(1,3) l(2) by (simp add: heap_down_def)
  qed
qed

lemma heap_res_trans:
  assumes "heap_res n p vs p' vs'" "heap_res n p' vs' p'' vs''"
  shows "heap_res n p vs p'' vs''"
proof -
  have "set (take n p') = set (take n p)" using assms(1) unfolding heap_res_def by (metis set_mset_mset)
  then show ?thesis using assms unfolding heap_res_def by (auto intro: same_trans)
qed

lemma heap_root: "heap_ord K n p \<Longrightarrow> j < n \<Longrightarrow> K (p ! j) \<le> K (p ! 0)"
proof (induction j rule: less_induct)
  case (less j)
  show ?case
  proof (cases "j = 0")
    case False
    then have "par j < j" by (intro par_less) simp
    then have "K (p ! par j) \<le> K (p ! 0)" using less by simp
    moreover have "K (p ! j) \<le> K (p ! par j)" using less.prems False by (simp add: heap_ord_def)
    ultimately show ?thesis by (rule order_trans [rotated])
  qed simp
qed

text \<open>The check of the debug build passes exactly on heaps.\<close>

lemma heap_chk_correct:
  assumes "n \<le> length p" "\<forall>j<n. p ! j < length vs"
  shows "heap_chk cmp n p vs \<longleftrightarrow> hp_ok n p vs \<and> heap_ord (vkey vs) n p"
proof
  assume c: "heap_chk cmp n p vs"
  have "key (vs ! (p ! j)) \<le> key (vs ! (p ! par j))" if j: "0 < j" "j < n" for j
  proof -
    have "par j < n" using par_less [OF j(1)] j by simp
    then have k: "\<forall>i\<in>{0, 1}. 2 * par j + 1 + i < n \<longrightarrow>
        0 \<le> cmp (vs ! (p ! par j)) (vs ! (p ! (2 * par j + 1 + i)))"
      using c by (auto simp: heap_chk_def Let_def)
    show ?thesis using par_cases [OF j(1) refl] j(2) k cmp_ge by (auto simp: add.assoc)
  qed
  then show "hp_ok n p vs \<and> heap_ord (vkey vs) n p"
    using c assms by (auto simp: heap_chk_def hp_ok_def heap_ord_def vkey_def)
next
  assume h: "hp_ok n p vs \<and> heap_ord (vkey vs) n p"
  have o: "0 < j \<Longrightarrow> j < n \<Longrightarrow> cmp (vs ! (p ! par j)) (vs ! (p ! j)) \<ge> 0" for j
    using h cmp_ge by (simp add: heap_ord_def vkey_def)
  show "heap_chk cmp n p vs"
    using h o [of "2 * i + 1" for i] o [of "2 * i + 1 + 1" for i] par_children
    by (auto simp: heap_chk_def hp_ok_def Let_def)
qed

end

section \<open>Schedules\<close>

text \<open>
  A schedule is the stack of the variables in the heap.  The code of lgldsched and lglesched
  after their guards, of lglpopdsched and of the loop of lgldreschedule.
\<close>

definition heap_push :: "('a hnode_scheme \<Rightarrow> 'a hnode_scheme \<Rightarrow> int) \<Rightarrow> mem \<Rightarrow> nat stk \<Rightarrow>
    'a hnode_scheme list \<Rightarrow> nat \<Rightarrow> (mem \<times> nat stk \<times> 'a hnode_scheme list) option" where
  "heap_push cmp b s vs lit =
     do {
       let vs = set_pos vs lit (int (ntop s));
       (b, s) \<leftarrow> push 4 0 b s lit;
       (p, vs) \<leftarrow> heap_up cmp lit (cells s) vs;
       (p, vs) \<leftarrow> heap_down cmp lit (ntop s) p vs;
       Some (b, s\<lparr>cells := p\<rparr>, vs)
     }"

definition heap_pop :: "('a hnode_scheme \<Rightarrow> 'a hnode_scheme \<Rightarrow> int) \<Rightarrow> nat stk \<Rightarrow>
    'a hnode_scheme list \<Rightarrow> (nat \<times> nat stk \<times> 'a hnode_scheme list) option" where
  "heap_pop cmp s vs =
     (if ntop s = 0 then None
      else
        let res = cells s ! 0
        in if pos (vs ! res) \<noteq> 0 then None
           else do {
             let vs = set_pos vs res (-1);
             (last, s) \<leftarrow> pop s;
             let cnt = ntop s;
             if cnt = 0 then (if last \<noteq> res then None else Some (res, s, vs))
             else if pos (vs ! last) \<noteq> int cnt then None
             else do {
               let vs = set_pos vs last 0;
               (p, vs) \<leftarrow> heap_down cmp last cnt ((cells s)[0 := last]) vs;
               Some (res, s\<lparr>cells := p\<rparr>, vs)
             }
           })"

text \<open>i counts the cells of the old schedule, ntop is the variable pos of the source.\<close>

function heap_resched :: "('a hnode_scheme \<Rightarrow> 'a hnode_scheme \<Rightarrow> int) \<Rightarrow> (nat \<Rightarrow> bool) \<Rightarrow> nat \<Rightarrow> nat \<Rightarrow> nat stk \<Rightarrow>
    'a hnode_scheme list \<Rightarrow> (nat stk \<times> 'a hnode_scheme list) option" where
  "heap_resched cmp isfree cnt i s vs =
     (if i < cnt then
        let idx = cells s ! i
        in if idx \<le> 1 then heap_resched cmp isfree cnt (Suc i) s vs
           else if \<not> isfree idx then heap_resched cmp isfree cnt (Suc i) s (set_pos vs idx (-1))
           else if pos (vs ! idx) \<noteq> -1 then None
           else
             let vs = set_pos vs idx (int (ntop s));
                 s = s\<lparr>cells := (cells s)[ntop s := idx], ntop := Suc (ntop s)\<rparr>
             in (case heap_up cmp idx (cells s) vs of
                   None \<Rightarrow> None
                 | Some (p, vs) \<Rightarrow>
                     (case heap_down cmp idx (ntop s) p vs of
                        None \<Rightarrow> None
                      | Some (p, vs) \<Rightarrow> heap_resched cmp isfree cnt (Suc i) (s\<lparr>cells := p\<rparr>) vs))
      else Some (s, vs))"
  by pat_completeness auto
termination by (relation "measure (\<lambda>(cmp, isfree, cnt, i, s, vs). cnt - i)") (auto simp: Let_def)

declare heap_resched.simps [simp del]

context heap_cmp
begin

definition sched_ok :: "nat stk \<Rightarrow> 'a hnode_scheme list \<Rightarrow> bool" where
  "sched_ok s vs \<longleftrightarrow> hp_ok (ntop s) (cells s) vs \<and> heap_ord (vkey vs) (ntop s) (cells s)"

lemma sched_contents: "sched_ok s vs \<Longrightarrow> x \<in> set (contents s) \<Longrightarrow> \<exists>j<ntop s. cells s ! j = x \<and> x < length vs"
  by (auto simp: sched_ok_def hp_ok_def contents_def in_set_conv_nth)

lemma sched_distinct: "sched_ok s vs \<Longrightarrow> distinct (contents s)"
proof -
  assume "sched_ok s vs"
  then have ok: "hp_ok (ntop s) (cells s) vs" "ntop s \<le> length (cells s)" by (simp_all add: sched_ok_def hp_ok_def)
  then show ?thesis using hp_ok_inj [OF ok(1)] by (auto simp: contents_def distinct_conv_nth)
qed

text \<open>
  Adding a variable at the end of a heap, which may have cells in use behind it: the code
  that lgldsched and lgldreschedule share.
\<close>

lemma heap_insert:
  assumes ok: "hp_ok n p vs" and o: "heap_ord (vkey vs) n p" and n: "n < length p"
    and lit: "lit < length vs" "lit \<notin> set (take n p)"
  shows "\<exists>p1 v1 p2 v2. heap_up cmp lit (p[n := lit]) (set_pos vs lit (int n)) = Some (p1, v1) \<and>
    heap_down cmp lit (Suc n) p1 v1 = Some (p2, v2) \<and>
    hp_ok (Suc n) p2 v2 \<and> heap_ord (vkey v2) (Suc n) p2 \<and>
    mset (take (Suc n) p2) = add_mset lit (mset (take n p)) \<and> length p2 = length p \<and>
    (\<forall>j\<ge>Suc n. p2 ! j = p ! j) \<and> same vs v2 (insert lit (set (take n p)))"
proof -
  let ?p = "p[n := lit]" and ?v = "set_pos vs lit (int n)"
  have ne: "p ! j \<noteq> lit" if "j < n" for j using that n lit(2) by (auto simp: in_set_conv_nth)
  have ok1: "hp_ok (Suc n) ?p ?v"
    using ok n lit(1) ne by (auto simp: hp_ok_def less_Suc_eq set_pos_nth)
  have K: "vkey ?v x = vkey vs x" if "x < length vs" for x
    using lit(1) by (simp add: vkey_def set_pos_nth key_pos)
  have "K' (?p ! j) = K' (p ! j)" if "j < n" for j and K' :: "nat \<Rightarrow> 'k" using that by simp
  moreover have "par j < n" if "0 < j" "j < Suc n" for j using that par_less [of j] by simp
  moreover have "vkey ?v (p ! j) = vkey vs (p ! j)" if "j < n" for j
    using K that ok by (simp add: hp_ok_def)
  ultimately have o1: "vkey ?v (?p ! j) \<le> vkey ?v (?p ! par j)" if "0 < j" "j < n" for j
    using o that unfolding heap_ord_def by (metis less_SucI)
  have "par j \<noteq> n" if "0 < j" "j < Suc n" for j using that par_less [of j] by simp
  then have up: "up_ord (vkey ?v) (Suc n) ?p n"
    using o1 unfolding up_ord_def by (metis less_antisym)
  obtain p1 v1 where r1: "heap_up cmp lit ?p ?v = Some (p1, v1)" "heap_res (Suc n) ?p ?v p1 v1"
    using heap_up_correct [OF ok1 _ up] n by auto
  have "mset (take (Suc n) p1) = mset (take (Suc n) ?p)" using r1(2) by (simp add: heap_res_def)
  then have "set (take (Suc n) p1) = set (take (Suc n) ?p)" by (metis set_mset_mset)
  moreover have "take (Suc n) ?p = take n p @ [lit]" using n by (simp add: take_Suc_conv_app_nth)
  ultimately have "lit \<in> set (take (Suc n) p1)" by simp
  then obtain i where i: "i < Suc n" "p1 ! i = lit" by (auto simp: in_set_conv_nth)
  have h1: "hp_ok (Suc n) p1 v1" "heap_ord (vkey v1) (Suc n) p1" using r1(2) by (simp_all add: heap_res_def)
  obtain p2 v2 where r2: "heap_down cmp lit (Suc n) p1 v1 = Some (p2, v2)" "heap_res (Suc n) p1 v1 p2 v2"
    using heap_down_correct [OF h1(1) i(1) heap_ord_down [OF h1(2)]] i(2) by auto
  have r: "heap_res (Suc n) ?p ?v p2 v2" by (rule heap_res_trans [OF r1(2) r2(2)])
  have S: "set (take (Suc n) ?p) = insert lit (set (take n p))" "mset (take (Suc n) ?p) = add_mset lit (mset (take n p))"
    using \<open>take (Suc n) ?p = take n p @ [lit]\<close> by simp_all
  have "same vs v2 (insert lit (set (take n p)))"
    using r same_set_pos [of lit "insert lit (set (take n p))" vs "int n"] S(1)
    unfolding heap_res_def by (metis insertI1 same_trans)
  then show ?thesis using r1(1) r2(1) r S(2) unfolding heap_res_def by auto
qed

lemma heap_push_correct:
  assumes b: "stk_ok 4 b s" and ok: "sched_ok s vs" and lit: "lit < length vs" "lit \<notin> set (contents s)"
  shows "\<exists>b' s' vs'. heap_push cmp b s vs lit = Some (b', s', vs') \<and> stk_ok 4 b' s' \<and> sched_ok s' vs' \<and>
    mset (contents s') = add_mset lit (mset (contents s)) \<and> same vs vs' (insert lit (set (contents s))) \<and>
    account 4 b' s' = account 4 b s"
proof -
  let ?n = "ntop s"
  obtain b' s1 where p: "push 4 0 b s lit = Some (b', s1)" "stk_ok 4 b' s1" "contents s1 = contents s @ [lit]"
    "account 4 b' s1 = account 4 b s"
    using push_ex [OF b, of 0 lit] by auto
  have nt: "ntop s1 = Suc ?n" using p(3) length_contents [OF p(2)] length_contents [OF b] by simp
  have le: "Suc ?n \<le> length (cells s1)" using p(2) nt by (simp add: stk_ok_def)
  have "take (Suc ?n) (cells s1) = contents s @ [lit]" using p(3) nt by (simp add: contents_def)
  then have c1: "take ?n (cells s1) = contents s" "cells s1 ! ?n = lit"
    using length_contents [OF b] le by (auto simp: take_Suc_conv_app_nth)
  have eq: "cells s1 ! j = cells s ! j" if "j < ?n" for j
    using c1(1) that by (metis contents_def nth_take)
  have h: "hp_ok ?n (cells s1) vs" "heap_ord (vkey vs) ?n (cells s1)"
    using ok eq le par_less unfolding sched_ok_def hp_ok_def heap_ord_def by (auto, metis order_less_trans)
  have "(cells s1)[?n := lit] = cells s1" using c1(2) by (metis list_update_id)
  then obtain p1 v1 p2 v2 where r: "heap_up cmp lit (cells s1) (set_pos vs lit (int ?n)) = Some (p1, v1)"
    "heap_down cmp lit (Suc ?n) p1 v1 = Some (p2, v2)"
    "hp_ok (Suc ?n) p2 v2" "heap_ord (vkey v2) (Suc ?n) p2"
    "mset (take (Suc ?n) p2) = add_mset lit (mset (contents s))" "length p2 = length (cells s1)"
    "same vs v2 (insert lit (set (contents s)))"
    using heap_insert [OF h _ lit(1)] le lit(2) c1(1) by auto
  then show ?thesis using p nt
    by (auto simp: heap_push_def sched_ok_def contents_def stk_ok_def account_def)
qed

lemma heap_pop_correct:
  assumes b: "stk_ok 4 b s" and ok: "sched_ok s vs" and ne: "contents s \<noteq> []"
  shows "\<exists>res s' vs'. heap_pop cmp s vs = Some (res, s', vs') \<and> stk_ok 4 b s' \<and> sched_ok s' vs' \<and>
    mset (contents s) = add_mset res (mset (contents s')) \<and>
    (\<forall>x\<in>set (contents s). vkey vs x \<le> vkey vs res) \<and> pos (vs' ! res) = -1 \<and>
    same vs vs' (set (contents s)) \<and> length (cells s') = length (cells s)"
proof -
  let ?p = "cells s" and ?res = "cells s ! 0"
  have n: "0 < ntop s" "ntop s \<le> length ?p" using ne b by (auto simp: contents_def stk_ok_def)
  have hp: "hp_ok (ntop s) ?p vs" "heap_ord (vkey vs) (ntop s) ?p" using ok by (simp_all add: sched_ok_def)
  have P: "?p ! j < length vs" "pos (vs ! (?p ! j)) = int j" if "j < ntop s" for j
    using hp(1) that by (simp_all add: hp_ok_def)
  have max: "\<forall>x\<in>set (contents s). vkey vs x \<le> vkey vs ?res"
    using heap_root [OF hp(2)] n(2) by (auto simp: contents_def in_set_conv_nth)
  have rin: "?res \<in> set (contents s)" using n by (auto simp: contents_def in_set_conv_nth)
  obtain m where m: "ntop s = Suc m" using n by (cases "ntop s") auto
  let ?last = "cells s ! m" and ?v = "set_pos vs ?res (-1)"
  have pop: "pop s = Some (?last, s\<lparr>ntop := m\<rparr>)" using m by (simp add: pop_def)
  have tk: "contents s = take m ?p @ [?last]"
    using n m take_Suc_conv_app_nth [of m ?p] by (simp add: contents_def)
  show ?thesis
  proof (cases "m = 0")
    case True
    have "heap_pop cmp s vs = Some (?res, s\<lparr>ntop := 0\<rparr>, ?v)"
      using True m pop P [of 0] by (simp add: heap_pop_def Let_def)
    moreover have "sched_ok (s\<lparr>ntop := 0\<rparr>) ?v" by (simp add: sched_ok_def hp_ok_def heap_ord_def)
    moreover have "same vs ?v (set (contents s))" using rin by (rule same_set_pos)
    ultimately show ?thesis using True max b tk P(1) [of 0] n
      by (auto simp: stk_ok_def contents_def set_pos_nth m)
  next
    case False
    then have c: "0 < m" "m < ntop s" using m by auto
    let ?q = "?p[0 := ?last]" and ?w = "set_pos ?v ?last 0"
    have ne2: "?p ! j \<noteq> ?p ! k" if "j < ntop s" "k < ntop s" "j \<noteq> k" for j k
      using hp_ok_inj [OF hp(1) that(1,2)] that(3) by blast
    have l: "?last \<noteq> ?res" using ne2 [OF c(2) n(1)] c(1) by simp
    have "0 < length ?p" using n by linarith
    then have q: "?q ! j = (if j = 0 then ?last else ?p ! j)" for j by (simp add: nth_list_update)
    have w: "?w ! x = (if x = ?last then (vs ! ?last)\<lparr>pos := 0\<rparr> else if x = ?res then (vs ! ?res)\<lparr>pos := -1\<rparr> else vs ! x)" for x
      using P(1) [OF c(2)] P(1) [OF n(1)] l by (simp add: set_pos_nth)
    have ok1: "hp_ok m ?q ?w"
      unfolding hp_ok_def
    proof (intro conjI allI impI)
      fix j assume j: "j < m"
      have "j \<noteq> 0 \<Longrightarrow> ?p ! j \<noteq> ?last \<and> ?p ! j \<noteq> ?res" using ne2 [of j m] ne2 [of j 0] j c n by simp
      then show "?q ! j < length ?w" "pos (?w ! (?q ! j)) = int j"
        using P [of j] P(1) [OF c(2)] j c(2) w by (auto simp: q)
    qed (use n c in simp)
    have K: "vkey ?w x = vkey vs x" for x using w by (simp add: vkey_def key_pos)
    have o1: "down_ord (vkey ?w) m ?q 0"
      using hp(2) unfolding down_ord_def heap_ord_def K q m by auto
    obtain p' v' where r: "heap_down cmp ?last m ?q ?w = Some (p', v')" "heap_res m ?q ?w p' v'"
      using heap_down_correct [OF ok1 c(1) o1] q [of 0] by auto
    have "heap_pop cmp s vs = Some (?res, s\<lparr>ntop := m, cells := p'\<rparr>, v')"
      using False c n pop P [of 0] P(2) [OF c(2)] l r(1) P(1) [OF n(1)]
      by (simp add: heap_pop_def Let_def set_pos_nth)
    moreover have tq: "mset (contents s) = add_mset ?res (mset (take m ?q))"
    proof -
      have "take m ?p ! 0 = ?res" "take m ?p \<noteq> []" using c n by auto
      then obtain t where t: "take m ?p = ?res # t" by (cases "take m ?p") auto
      then have "take m ?q = ?last # t" using n c by (simp add: take_update_swap)
      then show ?thesis using tk t by simp
    qed
    moreover have S: "set (take m ?q) \<subseteq> set (contents s)" using tq by (metis insert_iff set_mset_add_mset_insert set_mset_mset subsetI)
    have "?last \<in> set (contents s)" using tk by simp
    then have "same vs ?w (set (contents s))" using rin same_set_pos same_trans by metis
    moreover have "same ?w v' (set (contents s))" using r(2) S unfolding heap_res_def same_def by blast
    ultimately have sm: "same vs v' (set (contents s))" using same_trans by blast
    have nin: "?res \<notin> set (take m ?q)"
      using tq sched_distinct [OF ok] by (metis mset_eq_setD distinct.simps(2) list.simps(15) mset.simps(2) mset_eq_imp_distinct_iff)
    then have "v' ! ?res = ?w ! ?res" using r(2) P(1) [OF n(1)] by (simp add: heap_res_def same_def)
    then have pr: "pos (v' ! ?res) = -1" using w l by simp
    have "sched_ok (s\<lparr>ntop := m, cells := p'\<rparr>) v'" "mset (take m p') = mset (take m ?q)" "length p' = length ?p"
      using r(2) by (simp_all add: heap_res_def sched_ok_def)
    then show ?thesis using \<open>heap_pop cmp s vs = _\<close> tq max pr sm b c(2)
      by (auto simp: contents_def stk_ok_def)
  qed
qed


text \<open>
  The loop of lgldreschedule keeps the heap of the variables seen so far in front of the old
  schedule that is still to be read.  rest is what is left of it.
\<close>

definition resched_inv :: "nat \<Rightarrow> nat \<Rightarrow> nat list \<Rightarrow> nat stk \<Rightarrow> 'a hnode_scheme list \<Rightarrow> bool" where
  "resched_inv cnt i rest s vs \<longleftrightarrow>
     ntop s \<le> i \<and> i + length rest = cnt \<and> cnt \<le> length (cells s) \<and> sched_ok s vs \<and>
     (\<forall>j<length rest. cells s ! (i + j) = rest ! j) \<and> distinct rest \<and>
     (\<forall>x\<in>set rest. x < length vs \<and> x \<notin> set (contents s) \<and> pos (vs ! x) = -1)"

lemma resched_inv_take: "resched_inv cnt i (x # rest) s vs \<Longrightarrow> sched_ok s vs' \<Longrightarrow>
    same vs vs' (- set rest) \<Longrightarrow> resched_inv cnt (Suc i) rest s vs'"
  unfolding resched_inv_def same_def by (auto; fastforce)


lemma heap_resched_correct:
  "resched_inv cnt i rest s vs \<Longrightarrow>
     \<exists>s' vs'. heap_resched cmp isfree cnt i s vs = Some (s', vs') \<and> sched_ok s' vs' \<and>
       mset (contents s') = mset (contents s) + mset (filter (\<lambda>x. 1 < x \<and> isfree x) rest) \<and>
       length (cells s') = length (cells s) \<and> ntop s' \<le> cnt \<and> same vs vs' (set (contents s) \<union> set rest) \<and>
       (\<forall>x\<in>set rest. \<not> (1 < x \<and> isfree x) \<longrightarrow> pos (vs' ! x) = -1)"
proof (induction rest arbitrary: i s vs)
  case Nil
  then have "\<not> i < cnt" by (simp add: resched_inv_def)
  then show ?case using Nil by (subst heap_resched.simps) (auto simp: resched_inv_def)
next
  case (Cons x rest)
  note inv = Cons.prems
  have x: "i < cnt" "cells s ! i = x" "x < length vs" "x \<notin> set (contents s)" "pos (vs ! x) = -1" "x \<notin> set rest"
    using inv by (auto simp: resched_inv_def)
  have ok: "sched_ok s vs" "ntop s \<le> i" "cnt \<le> length (cells s)" using inv by (simp_all add: resched_inv_def)
  show ?case
  proof (cases "1 < x \<and> isfree x")
    case False
    define v where "v = (if x \<le> 1 then vs else set_pos vs x (-1))"
    have v: "v = vs"
      using x(3,5) unfolding v_def set_pos_def by (metis list_update_id upd_pos_same)
    have inv': "resched_inv cnt (Suc i) rest s vs" by (rule resched_inv_take [OF inv ok(1)]) simp
    have "heap_resched cmp isfree cnt i s vs = heap_resched cmp isfree cnt (Suc i) s v"
      using x False by (subst heap_resched.simps) (auto simp: v_def)
    moreover obtain s' vs' where r: "heap_resched cmp isfree cnt (Suc i) s vs = Some (s', vs')" "sched_ok s' vs'"
      "mset (contents s') = mset (contents s) + mset (filter (\<lambda>x. 1 < x \<and> isfree x) rest)"
      "length (cells s') = length (cells s)" "ntop s' \<le> cnt" "same vs vs' (set (contents s) \<union> set rest)"
      "\<forall>x\<in>set rest. \<not> (1 < x \<and> isfree x) \<longrightarrow> pos (vs' ! x) = -1"
      using Cons.IH [OF inv'] by blast
    moreover have "vs' ! x = vs ! x" using r(6) x by (simp add: same_def)
    moreover have "same vs vs' (set (contents s) \<union> set (x # rest))" using r(6) unfolding same_def by auto
    ultimately show ?thesis using False v x(5) by auto
  next
    case True
    let ?n = "ntop s"
    have hp: "hp_ok ?n (cells s) vs" "heap_ord (vkey vs) ?n (cells s)" using ok(1) by (simp_all add: sched_ok_def)
    have lt: "?n < length (cells s)" and nx: "x \<notin> set (take ?n (cells s))"
      using ok(2,3) x(1,4) by (simp_all add: contents_def)
    obtain p1 v1 p2 v2 where h: "heap_up cmp x ((cells s)[?n := x]) (set_pos vs x (int ?n)) = Some (p1, v1)"
      "heap_down cmp x (Suc ?n) p1 v1 = Some (p2, v2)" "hp_ok (Suc ?n) p2 v2" "heap_ord (vkey v2) (Suc ?n) p2"
      "mset (take (Suc ?n) p2) = add_mset x (mset (contents s))" "length p2 = length (cells s)"
      "\<forall>j\<ge>Suc ?n. p2 ! j = cells s ! j" "same vs v2 (insert x (set (contents s)))"
      using heap_insert [OF hp lt x(3) nx, folded contents_def] by blast
    let ?s = "s\<lparr>ntop := Suc ?n, cells := p2\<rparr>"
    have step: "heap_resched cmp isfree cnt i s vs = heap_resched cmp isfree cnt (Suc i) ?s v2"
      using x True h(1,2) by (subst heap_resched.simps) (simp add: Let_def)
    have ms: "mset (contents ?s) = add_mset x (mset (contents s))" using h(5) by (simp add: contents_def)
    then have S: "set (contents ?s) = insert x (set (contents s))" by (metis set_mset_add_mset_insert set_mset_mset)
    have Y: "y < length vs" "y \<notin> set (contents s)" "pos (vs ! y) = -1" if "y \<in> set rest" for y
      using inv that unfolding resched_inv_def by simp_all
    have same_y: "v2 ! y = vs ! y" if "y \<in> set rest" for y
      using h(8) Y [OF that] x(6) that unfolding same_def by blast
    have "\<forall>y\<in>set rest. y < length v2 \<and> y \<notin> set (contents ?s) \<and> pos (v2 ! y) = -1"
      using Y same_y x(6) S same_length [OF h(8)] by auto
    moreover have "sched_ok ?s v2" using h(3,4) by (simp add: sched_ok_def)
    moreover have "\<forall>j<length rest. p2 ! (Suc i + j) = rest ! j"
    proof (intro allI impI)
      fix j assume "j < length rest"
      then have "cells s ! (i + Suc j) = (x # rest) ! Suc j" using inv unfolding resched_inv_def by (metis Suc_mono length_Cons)
      then show "p2 ! (Suc i + j) = rest ! j" using h(7) ok(2) by simp
    qed
    ultimately have inv': "resched_inv cnt (Suc i) rest ?s v2"
      using inv h(6) unfolding resched_inv_def by simp
    obtain s' vs' where r: "heap_resched cmp isfree cnt (Suc i) ?s v2 = Some (s', vs')" "sched_ok s' vs'"
      "mset (contents s') = mset (contents ?s) + mset (filter (\<lambda>x. 1 < x \<and> isfree x) rest)"
      "length (cells s') = length (cells ?s)" "ntop s' \<le> cnt" "same v2 vs' (set (contents ?s) \<union> set rest)"
      "\<forall>x\<in>set rest. \<not> (1 < x \<and> isfree x) \<longrightarrow> pos (vs' ! x) = -1"
      using Cons.IH [OF inv'] by blast
    have "same vs v2 (set (contents s) \<union> set (x # rest))" using h(8) unfolding same_def by auto
    moreover have "same v2 vs' (set (contents s) \<union> set (x # rest))" using r(6) unfolding S by simp
    ultimately have "same vs vs' (set (contents s) \<union> set (x # rest))" by (rule same_trans)
    then show ?thesis using r(1-5,7) step ms True h(6) by auto
  qed
qed

text \<open>
  Changing the key of one variable.  A variable outside the heap does not matter; one at
  position i breaks the order only upwards when the key grows and only downwards when it
  shrinks.
\<close>

lemma sched_upd_out:
  assumes ok: "sched_ok s vs" and x: "x \<notin> set (contents s)"
  shows "sched_ok s (vs[x := v])"
proof -
  have nt: "ntop s \<le> length (cells s)" using ok by (simp add: sched_ok_def hp_ok_def)
  have "x \<noteq> cells s ! j" if "j < ntop s" for j using that x nt by (auto simp: contents_def in_set_conv_nth)
  moreover have "par j < ntop s" if "0 < j" "j < ntop s" for j using that par_less [of j] by simp
  ultimately show ?thesis using ok unfolding sched_ok_def hp_ok_def heap_ord_def by (simp add: vkey_def)
qed

lemma key_upd:
  assumes ok: "sched_ok s vs" and i: "i < ntop s" and x: "cells s ! i = x" and p: "pos v = pos (vs ! x)"
  shows "hp_ok (ntop s) (cells s) (vs[x := v])"
    and "j < ntop s \<Longrightarrow> j \<noteq> i \<Longrightarrow> vkey (vs[x := v]) (cells s ! j) = vkey vs (cells s ! j)"
    and "vkey (vs[x := v]) (cells s ! i) = key v"
proof -
  have h: "hp_ok (ntop s) (cells s) vs" using ok by (simp add: sched_ok_def)
  have xl: "x < length vs" using h i x by (auto simp: hp_ok_def)
  show "hp_ok (ntop s) (cells s) (vs[x := v])" using h p xl by (auto simp: hp_ok_def nth_list_update)
  show "vkey (vs[x := v]) (cells s ! i) = key v" using x xl by (simp add: vkey_def)
  assume j: "j < ntop s" "j \<noteq> i"
  have "x \<noteq> cells s ! j" using hp_ok_inj [OF h j(1) i] x j(2) by auto
  then show "vkey (vs[x := v]) (cells s ! j) = vkey vs (cells s ! j)" by (simp add: vkey_def)
qed

lemma key_raise:
  assumes ok: "sched_ok s vs" and i: "i < ntop s" and x: "cells s ! i = x"
    and le: "key (vs ! x) \<le> key v" and p: "pos v = pos (vs ! x)"
  shows "up_ord (vkey (vs[x := v])) (ntop s) (cells s) i"
proof -
  note K = key_upd(2) [OF ok i x p]
  have Kx: "vkey vs (cells s ! i) \<le> vkey (vs[x := v]) (cells s ! i)"
    using le x unfolding key_upd(3) [OF ok i x p] by (simp add: vkey_def)
  have o: "vkey vs (cells s ! j) \<le> vkey vs (cells s ! par j)" if "0 < j" "j < ntop s" for j
    using ok that by (simp add: sched_ok_def heap_ord_def)
  show ?thesis
    unfolding up_ord_def
  proof (intro allI impI, elim conjE, intro conjI impI)
    fix j assume j: "0 < j" "j < ntop s"
    have pj: "par j < j" using par_less [OF j(1)] .
    { assume ji: "j \<noteq> i"
      show "vkey (vs[x := v]) (cells s ! j) \<le> vkey (vs[x := v]) (cells s ! par j)"
      proof (cases "par j = i")
        case True
        then show ?thesis using K [OF j(2) ji] o [OF j] Kx by simp
      next
        case False
        then show ?thesis using K [OF j(2) ji] K [of "par j"] o [OF j] pj j by simp
      qed }
    assume c: "par j = i \<and> 0 < i"
    have "par i < i" using par_less c by blast
    moreover have "j \<noteq> i" using pj c by auto
    ultimately show "vkey (vs[x := v]) (cells s ! j) \<le> vkey (vs[x := v]) (cells s ! par i)"
      using K [OF j(2)] K [of "par i"] o [OF j] o [of i] c i by simp
  qed
qed

lemma key_lower:
  assumes ok: "sched_ok s vs" and i: "i < ntop s" and x: "cells s ! i = x"
    and le: "key v \<le> key (vs ! x)" and p: "pos v = pos (vs ! x)"
  shows "down_ord (vkey (vs[x := v])) (ntop s) (cells s) i"
proof -
  note K = key_upd(2) [OF ok i x p]
  have Kx: "vkey (vs[x := v]) (cells s ! i) \<le> vkey vs (cells s ! i)"
    using le x unfolding key_upd(3) [OF ok i x p] by (simp add: vkey_def)
  have o: "vkey vs (cells s ! j) \<le> vkey vs (cells s ! par j)" if "0 < j" "j < ntop s" for j
    using ok that by (simp add: sched_ok_def heap_ord_def)
  show ?thesis
    unfolding down_ord_def
  proof (intro allI impI, elim conjE, intro conjI impI)
    fix j assume j: "0 < j" "j < ntop s"
    have pj: "par j < j" using par_less [OF j(1)] .
    { assume ne: "par j \<noteq> i"
      show "vkey (vs[x := v]) (cells s ! j) \<le> vkey (vs[x := v]) (cells s ! par j)"
      proof (cases "j = i")
        case True
        then show ?thesis using K [of "par j"] o [OF j] Kx ne pj j by simp
      next
        case False
        then show ?thesis using K [OF j(2)] K [of "par j"] o [OF j] pj j ne by simp
      qed }
    assume c: "par j = i \<and> 0 < i"
    have "par i < i" using par_less c by blast
    moreover have "j \<noteq> i" using pj c by auto
    ultimately show "vkey (vs[x := v]) (cells s ! j) \<le> vkey (vs[x := v]) (cells s ! par i)"
      using K [OF j(2)] K [of "par i"] o [OF j] o [of i] c i by simp
  qed
qed

end

end
