(* ===== verification/Lgl_Sched.thy ===== *)
theory Lgl_Sched
  imports Lgl_Heap Lgl_Flt Lgl_Opts "HOL-Library.Product_Lexorder"
begin

text \<open>
  The decision schedule of src/painless-v2/lingeling/lglib.c: the scores of the variables and
  their rescaling, the heap dsched ordered by score, the queue of variables that were never
  bumped, and the choice of the next decision.  The heap code itself is in Lgl_Heap.

  Literals are only used through their variable here, so variables are natural numbers; an
  empty slot of the queue is 0.  Statistics, messages and timers are left out.
\<close>

section \<open>The state\<close>

record QVar = hnode +
  score :: u64
  enqueued :: bool
  important :: bool
  glag :: int

text \<open>The part of struct LGL that decisions read and write.\<close>

record dlgl =
  dmem :: mem
  dopts :: "Opt list"
  vals :: "int list"
  types :: "int list"
  unassigned :: nat
  qvars :: "QVar list"
  dsched :: "nat stk"
  qstk :: "nat stk"
  qnext :: int
  qmt :: int
  scinc :: u64
  scincf :: u64
  maxscore :: u64
  minscore :: u64
  scincinc :: int
  simp_mode :: bool
  confs :: int

definition nvars :: "dlgl \<Rightarrow> nat" where "nvars lgl = length (qvars lgl)"

definition lglqvar :: "dlgl \<Rightarrow> nat \<Rightarrow> QVar option" where
  "lglqvar lgl lit = (if 2 \<le> lit \<and> lit < nvars lgl then Some (qvars lgl ! lit) else None)"

definition lgldpos :: "dlgl \<Rightarrow> nat \<Rightarrow> int option" where
  "lgldpos lgl lit = map_option pos (lglqvar lgl lit)"

definition lglval :: "dlgl \<Rightarrow> nat \<Rightarrow> int" where
  "lglval lgl idx = vals lgl ! idx"

definition lglisfree :: "dlgl \<Rightarrow> nat \<Rightarrow> bool" where
  "lglisfree lgl idx \<longleftrightarrow> types lgl ! idx = FREEVAR"

section \<open>Comparing variables\<close>

text \<open>
  Scores are compared after an arithmetic shift by the option scoreshift; a shift by 64, which
  the range of the option allows, is undefined in C and leaves 0 or -1 here.
\<close>

definition lglscrcmp :: "nat \<Rightarrow> u64 \<Rightarrow> u64 \<Rightarrow> int" where
  "lglscrcmp shift a b =
     (let a = sint a div 2 ^ shift; b = sint b div 2 ^ shift
      in if a < b then -1 else if a > b then 1 else 0)"

definition lgldcmp :: "nat \<Rightarrow> QVar \<Rightarrow> QVar \<Rightarrow> int" where
  "lgldcmp shift pv qv =
     (if \<not> important pv \<and> important qv then -1
      else if important pv \<and> \<not> important qv then 1
      else lglscrcmp shift (score pv) (score qv))"

definition dkey :: "nat \<Rightarrow> QVar \<Rightarrow> bool \<times> int" where
  "dkey shift v = (important v, sint (score v) div 2 ^ shift)"

interpretation dheap: heap_cmp "lgldcmp shift" "dkey shift" for shift
  by unfold_locales (auto simp: lgldcmp_def dkey_def lglscrcmp_def Let_def split: if_splits)

section \<open>The decision heap\<close>

definition dshift :: "dlgl \<Rightarrow> nat" where
  "dshift lgl = nat (lglgetopt (dopts lgl) ''scoreshift'')"

definition lglchkdsched :: "dlgl \<Rightarrow> bool" where
  "lglchkdsched lgl \<longleftrightarrow>
     (\<forall>ppos\<in>{0..<ntop (dsched lgl)}. cells (dsched lgl) ! ppos > 1) \<and>
     heap_chk (lgldcmp (dshift lgl)) (ntop (dsched lgl)) (cells (dsched lgl)) (qvars lgl)"

definition lgldup :: "dlgl \<Rightarrow> nat \<Rightarrow> dlgl option" where
  "lgldup lgl lit =
     (if \<not> lit > 1 then None
      else do {
        (p, vs) \<leftarrow> heap_up (lgldcmp (dshift lgl)) lit (cells (dsched lgl)) (qvars lgl);
        Some (lgl\<lparr>dsched := (dsched lgl)\<lparr>cells := p\<rparr>, qvars := vs\<rparr>)
      })"

definition lglddown :: "dlgl \<Rightarrow> nat \<Rightarrow> dlgl option" where
  "lglddown lgl lit =
     (if \<not> lit > 1 then None
      else do {
        (p, vs) \<leftarrow> heap_down (lgldcmp (dshift lgl)) lit (ntop (dsched lgl)) (cells (dsched lgl)) (qvars lgl);
        Some (lgl\<lparr>dsched := (dsched lgl)\<lparr>cells := p\<rparr>, qvars := vs\<rparr>)
      })"

definition lgldsched :: "dlgl \<Rightarrow> nat \<Rightarrow> dlgl option" where
  "lgldsched lgl lit =
     (if \<not> lit > 1 \<or> enqueued (qvars lgl ! lit) \<or> \<not> pos (qvars lgl ! lit) < 0 then None
      else do {
        (b, s, vs) \<leftarrow> heap_push (lgldcmp (dshift lgl)) (dmem lgl) (dsched lgl) (qvars lgl) lit;
        Some (lgl\<lparr>dmem := b, dsched := s, qvars := vs\<rparr>)
      })"

definition lgltopdsched :: "dlgl \<Rightarrow> nat option" where
  "lgltopdsched lgl = (if lglmtstk (dsched lgl) then None else Some (cells (dsched lgl) ! 0))"

definition lglpopdsched :: "dlgl \<Rightarrow> (nat \<times> dlgl) option" where
  "lglpopdsched lgl =
     do {
       (res, s, vs) \<leftarrow> heap_pop (lgldcmp (dshift lgl)) (dsched lgl) (qvars lgl);
       Some (res, lgl\<lparr>dsched := s, qvars := vs\<rparr>)
     }"

text \<open>The first loop of lgldreschedule: no variable outside the queue is scheduled.\<close>

definition unsched_all :: "QVar list \<Rightarrow> QVar list" where
  "unsched_all vs = map (\<lambda>(idx, qv). if 2 \<le> idx \<and> \<not> enqueued qv then qv\<lparr>pos := -1\<rparr> else qv) (List.enumerate 0 vs)"

definition lgldreschedule :: "dlgl \<Rightarrow> dlgl option" where
  "lgldreschedule lgl =
     do {
       let s = dsched lgl;
       let cnt = lglcntstk s;
       (s, vs) \<leftarrow> heap_resched (lgldcmp (dshift lgl)) (lglisfree lgl) cnt 0 (s\<lparr>ntop := 0\<rparr>) (unsched_all (qvars lgl));
       (b, s) \<leftarrow> fit 4 0 (dmem lgl) s;
       Some (lgl\<lparr>dmem := b, dsched := s, qvars := vs\<rparr>)
     }"

section \<open>Scores\<close>

definition lglsetmaxminscore :: "dlgl \<Rightarrow> dlgl" where
  "lglsetmaxminscore lgl =
     lgl\<lparr>maxscore := lglflt DEFSCOREXP 1, minscore := lglflt (- DEFSCOREXP) 1\<rparr>"

definition lglsetscincf :: "dlgl \<Rightarrow> int \<Rightarrow> dlgl option" where
  "lglsetscincf lgl inc =
     (if inc = scincinc lgl then Some lgl
      else do {
        f \<leftarrow> lglrat (word_of_int (1000 + inc)) 1000;
        Some (lgl\<lparr>scincf := f, scincinc := inc\<rparr>)
      })"

definition lglinitscores :: "dlgl \<Rightarrow> dlgl option" where
  "lglinitscores lgl =
     (let lgl = lglsetmaxminscore lgl in lglsetscincf lgl (lglgetopt (dopts lgl) ''scincinc''))"

text \<open>The new score of one variable; the shift of the last line is that of the signed type Flt.\<close>

definition rescore :: "u64 \<Rightarrow> u64 \<Rightarrow> u64" where
  "rescore mn oldscore =
     (let newscore = (if oldscore = FLTMIN then oldscore
                      else if sint oldscore \<le> sint mn then mn
                      else let n = lglshflt oldscore DEFSCOREXP in if sint n < sint mn then mn else n)
      in if sint newscore \<le> sint mn then newscore else signed_drop_bit 32 oldscore)"

definition lglrescorevars :: "dlgl \<Rightarrow> dlgl option" where
  "lglrescorevars lgl =
     do {
       let vs = map (\<lambda>(idx, qv). if 2 \<le> idx \<and> \<not> enqueued qv
                       then qv\<lparr>score := rescore (minscore lgl) (score qv)\<rparr> else qv)
                  (List.enumerate 0 (qvars lgl));
       lgl \<leftarrow> lgldreschedule (lgl\<lparr>qvars := vs\<rparr>);
       let inc = lglshflt (scinc lgl) DEFSCOREXP;
       if \<not> sint inc > 0 then None else Some (lgl\<lparr>scinc := inc\<rparr>)
     }"

definition lglbumpscinc :: "dlgl \<Rightarrow> dlgl option" where
  "lglbumpscinc lgl =
     (let opt = lglgetopt (dopts lgl) in
      if simp_mode lgl \<and> opt ''bumpsimp'' = 0 then Some lgl
      else do {
        let lgl = lgl\<lparr>scinc := lglmulflt (scinc lgl) (scincf lgl)\<rparr>;
        lgl \<leftarrow> (if sint (scinc lgl) \<ge> sint (maxscore lgl) then lglrescorevars lgl else Some lgl);
        if \<not> simp_mode lgl \<and> confs lgl mod opt ''scincincincint'' = 0 then
          let new = scincinc lgl;
              new = (if opt ''scincincmode'' = 1 then new - opt ''scincincdelta''
                     else if opt ''scincincmode'' = 2 then (opt ''scincincmin'' + new) div 2
                     else new);
              new = (if new < opt ''scincincmin'' then opt ''scincincmin'' else new)
          in if new \<noteq> scincinc lgl then lglsetscincf lgl new else Some lgl
        else Some lgl
      })"

section \<open>The queue and the next decision\<close>

definition lglenq :: "dlgl \<Rightarrow> nat \<Rightarrow> bool \<Rightarrow> dlgl option" where
  "lglenq lgl idx updatequeuenext =
     do {
       qv \<leftarrow> lglqvar lgl idx;
       if enqueued qv \<or> \<not> pos qv < 0 then None
       else do {
         let cnt = int (lglcntstk (qstk lgl));
         (b, s) \<leftarrow> push 4 0 (dmem lgl) (qstk lgl) idx;
         let vs = (qvars lgl)[idx := qv\<lparr>enqueued := True, pos := cnt\<rparr>];
         let nx = (if updatequeuenext \<or> qnext lgl < 0 then cnt else qnext lgl);
         Some (lgl\<lparr>dmem := b, qstk := s, qvars := vs, qnext := nx\<rparr>)
       }
     }"

definition lgldscheduled :: "dlgl \<Rightarrow> nat \<Rightarrow> bool option" where
  "lgldscheduled lgl lit = map_option (\<lambda>qv. if enqueued qv then True else pos qv \<ge> 0) (lglqvar lgl lit)"

text \<open>Taking a variable out of the queue leaves an empty slot behind.\<close>

definition dequeue :: "dlgl \<Rightarrow> nat \<Rightarrow> dlgl option" where
  "dequeue lgl idx =
     do {
       let qv = qvars lgl ! idx;
       if lglpeek (qstk lgl) (nat (pos qv)) \<noteq> Some idx then None
       else do {
         s \<leftarrow> lglpoke (qstk lgl) (nat (pos qv)) 0;
         Some (lgl\<lparr>qstk := s, qmt := qmt lgl + 1,
                   qvars := (qvars lgl)[idx := qv\<lparr>enqueued := False, pos := -1\<rparr>]\<rparr>)
       }
     }"

definition lglbumpdlit :: "dlgl \<Rightarrow> nat \<Rightarrow> dlgl option" where
  "lglbumpdlit lgl idx =
     do {
       qv \<leftarrow> lglqvar lgl idx;
       if simp_mode lgl \<and> lglgetopt (dopts lgl) ''bumpsimp'' = 0 then Some lgl
       else do {
         lgl \<leftarrow> (if enqueued qv then do {
                    lgl \<leftarrow> dequeue lgl idx;
                    if lglval lgl idx = 0 then lgldsched lgl idx else Some lgl
                  } else Some lgl);
         let qv = qvars lgl ! idx;
         let oldscore = score qv;
         let newscore = lgladdflt oldscore (scinc lgl);
         if \<not> sint newscore > sint oldscore then None
         else do {
           let lgl = lgl\<lparr>qvars := (qvars lgl)[idx := qv\<lparr>score := newscore\<rparr>]\<rparr>;
           sch \<leftarrow> lgldscheduled lgl idx;
           lgl \<leftarrow> (if sch then lgldup lgl idx else Some lgl);
           if sint newscore \<ge> sint (maxscore lgl) then lglrescorevars lgl else Some lgl
         }
       }
     }"

text \<open>lglunassign up to the reason of the literal: the variable is scheduled again.\<close>

definition lglunassign_sched :: "dlgl \<Rightarrow> nat \<Rightarrow> dlgl option" where
  "lglunassign_sched lgl idx =
     do {
       qv \<leftarrow> lglqvar lgl idx;
       let lgl = lgl\<lparr>vals := (vals lgl)[idx := 0], unassigned := unassigned lgl + 1\<rparr>;
       if enqueued qv then (if pos qv \<ge> 0 then Some lgl else None)
       else if pos qv < 0 then lgldsched lgl idx
       else Some lgl
     }"

lemma heap_pop_less: "heap_pop cmp s vs = Some (r, s', vs') \<Longrightarrow> ntop s' < ntop s"
  by (auto simp: heap_pop_def pop_def Let_def bind_eq_Some_conv split: if_splits prod.splits)

function next_heap :: "dlgl \<Rightarrow> (nat \<times> dlgl) option" where
  "next_heap lgl =
     (if lglmtstk (dsched lgl) then Some (0, lgl)
      else
        let nx = cells (dsched lgl) ! 0
        in if lglval lgl nx = 0 \<and> lglisfree lgl nx then Some (nx, lgl)
           else (case lglpopdsched lgl of None \<Rightarrow> None | Some (_, lgl) \<Rightarrow> next_heap lgl))"
  by pat_completeness auto
termination
  by (relation "measure (\<lambda>lgl. ntop (dsched lgl))")
    (auto simp: lglpopdsched_def bind_eq_Some_conv dest: heap_pop_less split: prod.splits)

declare next_heap.simps [simp del]

text \<open>The loop of lglqueueflush: q is where the next variable that stays goes.\<close>

function flush_loop :: "dlgl \<Rightarrow> nat \<Rightarrow> nat \<Rightarrow> bool \<Rightarrow> dlgl \<times> nat \<times> bool" where
  "flush_loop lgl p q found =
     (if p < ntop (qstk lgl) then
        let lit = cells (qstk lgl) ! p
        in if lit = 0 then flush_loop lgl (Suc p) q found
           else
             let qv = qvars lgl ! lit
             in if \<not> lglisfree lgl lit
                then flush_loop (lgl\<lparr>qvars := (qvars lgl)[lit := qv\<lparr>enqueued := False, pos := -1\<rparr>]\<rparr>) (Suc p) q found
                else
                  let lgl = lgl\<lparr>qvars := (qvars lgl)[lit := qv\<lparr>pos := int q\<rparr>]\<rparr>;
                      hit = \<not> found \<and> qnext lgl \<ge> int p;
                      lgl = (if hit then lgl\<lparr>qnext := int q\<rparr> else lgl)
                  in flush_loop (lgl\<lparr>qstk := (qstk lgl)\<lparr>cells := (cells (qstk lgl))[q := lit]\<rparr>\<rparr>) (Suc p) (Suc q)
                       (found \<or> hit)
      else (lgl, q, found))"
  by pat_completeness auto
termination
  by (relation "measure (\<lambda>(lgl, p, q, found). ntop (qstk lgl) - p)") (auto simp: Let_def)

declare flush_loop.simps [simp del]

definition lglqueueflush :: "dlgl \<Rightarrow> dlgl" where
  "lglqueueflush lgl =
     (let (lgl, q, found) = flush_loop lgl 0 0 False;
          lgl = lgl\<lparr>qstk := (qstk lgl)\<lparr>ntop := q\<rparr>\<rparr>;
          lgl = (if \<not> found then lgl\<lparr>qnext := int (lglcntstk (qstk lgl)) - 1\<rparr> else lgl)
      in lgl\<lparr>qmt := 0\<rparr>)"

text \<open>
  The loop over the queue.  Coming back to the start is an assertion failure, so n, the number
  of slots, bounds its rounds.
\<close>

primrec next_queue :: "nat \<Rightarrow> dlgl \<Rightarrow> (nat \<times> dlgl) option" where
  "next_queue 0 lgl = None"
| "next_queue (Suc n) lgl =
     (case lglpeek (qstk lgl) (nat (qnext lgl)) of
        None \<Rightarrow> None
      | Some res \<Rightarrow>
          (let step = (\<lambda>lgl. let nx = qnext lgl - 1
                 in lgl\<lparr>qnext := (if nx < 0 then int (lglcntstk (qstk lgl)) - 1 else nx)\<rparr>)
           in if res = 0 then next_queue n (step lgl)
              else if \<not> lglisfree lgl res then
                (case dequeue lgl res of None \<Rightarrow> None | Some lgl \<Rightarrow> next_queue n (step lgl))
              else if lglval lgl res = 0 then Some (res, lgl)
              else next_queue n (step lgl)))"

definition lglnextdecision :: "dlgl \<Rightarrow> (nat \<times> dlgl) option" where
  "lglnextdecision lgl =
     (if unassigned lgl = 0 then Some (0, lgl)
      else do {
        (res, lgl) \<leftarrow> next_heap lgl;
        if res \<noteq> 0 then Some (res, lgl)
        else if lglmtstk (qstk lgl) then None
        else
          let lgl = (if int (lglcntstk (qstk lgl)) < 2 * qmt lgl then lglqueueflush lgl else lgl)
          in next_queue (lglcntstk (qstk lgl)) lgl
      })"

section \<open>The invariant of the decision structures\<close>

text \<open>
  d_heap: the schedule is a heap of variables outside the queue that know their positions, and
  every other variable outside the queue has a negative position.  d_queue: a queued variable
  is found at its position, and a slot of the queue is empty or holds a queued variable.
  d_mem: both arrays are accounted for.
\<close>

definition d_heap :: "dlgl \<Rightarrow> bool" where
  "d_heap lgl \<longleftrightarrow>
     dheap.sched_ok (dshift lgl) (dsched lgl) (qvars lgl) \<and>
     (\<forall>x\<in>set (contents (dsched lgl)). 2 \<le> x \<and> \<not> enqueued (qvars lgl ! x)) \<and>
     (\<forall>x. 2 \<le> x \<and> x < nvars lgl \<and> \<not> enqueued (qvars lgl ! x) \<and> x \<notin> set (contents (dsched lgl)) \<longrightarrow>
        pos (qvars lgl ! x) < 0)"

definition d_queue :: "dlgl \<Rightarrow> bool" where
  "d_queue lgl \<longleftrightarrow>
     (\<forall>x. 2 \<le> x \<and> x < nvars lgl \<and> enqueued (qvars lgl ! x) \<longrightarrow>
        0 \<le> pos (qvars lgl ! x) \<and> nat (pos (qvars lgl ! x)) < ntop (qstk lgl) \<and>
        cells (qstk lgl) ! nat (pos (qvars lgl ! x)) = x) \<and>
     (\<forall>j<ntop (qstk lgl). cells (qstk lgl) ! j \<noteq> 0 \<longrightarrow>
        2 \<le> cells (qstk lgl) ! j \<and> cells (qstk lgl) ! j < nvars lgl \<and>
        enqueued (qvars lgl ! (cells (qstk lgl) ! j)) \<and> pos (qvars lgl ! (cells (qstk lgl) ! j)) = int j)"

definition d_mem :: "dlgl \<Rightarrow> bool" where
  "d_mem lgl \<longleftrightarrow> ntop (dsched lgl) \<le> length (cells (dsched lgl)) \<and> ntop (qstk lgl) \<le> length (cells (qstk lgl)) \<and>
     (length (cells (dsched lgl)) + length (cells (qstk lgl))) * 4 \<le> current (dmem lgl) \<and> mem_ok (dmem lgl)"

definition d_ok :: "dlgl \<Rightarrow> bool" where
  "d_ok lgl \<longleftrightarrow> d_heap lgl \<and> d_queue lgl \<and> d_mem lgl"

lemma d_mem_stk: "d_mem lgl \<Longrightarrow> stk_ok 4 (dmem lgl) (dsched lgl) \<and> stk_ok 4 (dmem lgl) (qstk lgl)"
  by (simp add: d_mem_def stk_ok_def)

lemma d_mem_dsched:
  assumes "d_mem lgl" "stk_ok 4 b s" "account 4 b s = account 4 (dmem lgl) (dsched lgl)"
  shows "d_mem (lgl\<lparr>dmem := b, dsched := s, qvars := vs\<rparr>)"
  using assms unfolding account_def by (auto simp: d_mem_def stk_ok_def)

lemma d_same_fields:
  assumes "same vs vs' S" "x < length vs"
  shows "score (vs' ! x) = score (vs ! x)" "enqueued (vs' ! x) = enqueued (vs ! x)"
    "important (vs' ! x) = important (vs ! x)" "x \<notin> S \<Longrightarrow> vs' ! x = vs ! x"
proof -
  obtain i where "vs' ! x = (vs ! x)\<lparr>pos := i\<rparr>" using assms unfolding same_def by blast
  then show "score (vs' ! x) = score (vs ! x)" "enqueued (vs' ! x) = enqueued (vs ! x)"
    "important (vs' ! x) = important (vs ! x)" by simp_all
  show "x \<notin> S \<Longrightarrow> vs' ! x = vs ! x" using assms unfolding same_def by blast
qed

lemma d_queue_same:
  assumes "d_queue lgl" "same (qvars lgl) vs S" "\<forall>x\<in>S. x < nvars lgl \<longrightarrow> \<not> enqueued (qvars lgl ! x)"
  shows "d_queue (lgl\<lparr>dmem := b, dsched := s, qvars := vs\<rparr>)"
proof -
  have l: "length vs = nvars lgl" using assms(2) by (simp add: same_def nvars_def)
  have e: "vs ! x = qvars lgl ! x" if "x < nvars lgl" "enqueued (qvars lgl ! x)" for x
    using that assms(3) d_same_fields(4) [OF assms(2), of x] by (auto simp: nvars_def)
  have e2: "enqueued (vs ! x) = enqueued (qvars lgl ! x)" if "x < nvars lgl" for x
    using that d_same_fields(2) [OF assms(2), of x] by (simp add: nvars_def)
  have i: "x < nvars lgl \<Longrightarrow> enqueued (vs ! x) \<Longrightarrow> vs ! x = qvars lgl ! x \<and> enqueued (qvars lgl ! x)" for x
    using e e2 by blast
  note D = assms(1) [unfolded d_queue_def]
  let ?q = "cells (qstk lgl)"
  have "0 \<le> pos (vs ! x) \<and> nat (pos (vs ! x)) < ntop (qstk lgl) \<and> ?q ! nat (pos (vs ! x)) = x"
    if "2 \<le> x" "x < nvars lgl" "enqueued (vs ! x)" for x
  proof -
    have "vs ! x = qvars lgl ! x" "enqueued (qvars lgl ! x)" using i that by blast+
    then show ?thesis using D that by metis
  qed
  moreover have "2 \<le> ?q ! j \<and> ?q ! j < nvars lgl \<and> enqueued (vs ! (?q ! j)) \<and> pos (vs ! (?q ! j)) = int j"
    if "j < ntop (qstk lgl)" "?q ! j \<noteq> 0" for j
  proof -
    have "2 \<le> ?q ! j" "?q ! j < nvars lgl" "enqueued (qvars lgl ! (?q ! j))" "pos (qvars lgl ! (?q ! j)) = int j"
      using D that by blast+
    then show ?thesis using e by simp
  qed
  ultimately show ?thesis unfolding d_queue_def using l by (simp add: nvars_def)
qed

lemma sched_contents_less: "dheap.sched_ok k s vs \<Longrightarrow> x \<in> set (contents s) \<Longrightarrow> x < length vs"
  using dheap.sched_contents by blast

text \<open>Scheduling a variable that is neither scheduled nor queued.\<close>

lemma lgldsched_ok:
  assumes ok: "d_ok lgl" and x: "2 \<le> x" "x < nvars lgl" "\<not> enqueued (qvars lgl ! x)"
    "x \<notin> set (contents (dsched lgl))"
  shows "\<exists>b s vs. lgldsched lgl x = Some (lgl\<lparr>dmem := b, dsched := s, qvars := vs\<rparr>) \<and>
    d_ok (lgl\<lparr>dmem := b, dsched := s, qvars := vs\<rparr>) \<and>
    mset (contents s) = add_mset x (mset (contents (dsched lgl))) \<and>
    same (qvars lgl) vs (insert x (set (contents (dsched lgl))))"
proof -
  have h: "d_heap lgl" "d_queue lgl" "d_mem lgl" using ok by (simp_all add: d_ok_def)
  have sk: "dheap.sched_ok (dshift lgl) (dsched lgl) (qvars lgl)" using h(1) by (simp add: d_heap_def)
  have p: "pos (qvars lgl ! x) < 0" using h(1) x unfolding d_heap_def by blast
  obtain b s vs where r: "heap_push (lgldcmp (dshift lgl)) (dmem lgl) (dsched lgl) (qvars lgl) x = Some (b, s, vs)"
    "stk_ok 4 b s" "dheap.sched_ok (dshift lgl) s vs"
    "mset (contents s) = add_mset x (mset (contents (dsched lgl)))"
    "same (qvars lgl) vs (insert x (set (contents (dsched lgl))))"
    "account 4 b s = account 4 (dmem lgl) (dsched lgl)"
    using dheap.heap_push_correct [OF conjunct1 [OF d_mem_stk [OF h(3)]] sk _ x(4)] x(2) by (auto simp: nvars_def)
  let ?l = "lgl\<lparr>dmem := b, dsched := s, qvars := vs\<rparr>"
  have S: "set (contents s) = insert x (set (contents (dsched lgl)))"
    using r(4) by (metis set_mset_add_mset_insert set_mset_mset)
  have l: "length vs = nvars lgl" using same_length [OF r(5)] by (simp add: nvars_def)
  have e: "enqueued (vs ! y) = enqueued (qvars lgl ! y)" if "y < nvars lgl" for y
    using d_same_fields(2) [OF r(5)] that by (simp add: nvars_def)
  have lt: "y < nvars lgl" if "y \<in> set (contents (dsched lgl))" for y
    using sched_contents_less [OF sk that] by (simp add: nvars_def)
  have "d_heap ?l"
    unfolding d_heap_def
  proof (intro conjI ballI allI impI)
    show "dheap.sched_ok (dshift ?l) (dsched ?l) (qvars ?l)" using r(3) by (simp add: dshift_def)
    fix y
    { assume "y \<in> set (contents (dsched ?l))"
      then show "2 \<le> y" "\<not> enqueued (qvars ?l ! y)"
        using S e lt x h(1) unfolding d_heap_def by (auto simp: nvars_def) }
    assume y: "2 \<le> y \<and> y < nvars ?l \<and> \<not> enqueued (qvars ?l ! y) \<and> y \<notin> set (contents (dsched ?l))"
    then have "vs ! y = qvars lgl ! y" using d_same_fields(4) [OF r(5), of y] S l by (simp add: nvars_def)
    then show "pos (qvars ?l ! y) < 0" using y S h(1) l e [of y] unfolding d_heap_def by (simp add: nvars_def)
  qed
  moreover have "d_queue ?l"
    using x(3) h(1) by (intro d_queue_same [OF h(2) r(5)]) (auto simp: d_heap_def)
  moreover have "d_mem ?l" by (rule d_mem_dsched [OF h(3) r(2,6)])
  moreover have "lgldsched lgl x = Some ?l" using r(1) x(1,3) p by (simp add: lgldsched_def)
  ultimately show ?thesis using r(4,5) unfolding d_ok_def by blast
qed

text \<open>Popping returns a variable of greatest key.\<close>

lemma lglpopdsched_ok:
  assumes ok: "d_ok lgl" and ne: "contents (dsched lgl) \<noteq> []"
  shows "\<exists>x s vs. lglpopdsched lgl = Some (x, lgl\<lparr>dsched := s, qvars := vs\<rparr>) \<and>
    d_ok (lgl\<lparr>dsched := s, qvars := vs\<rparr>) \<and> x = cells (dsched lgl) ! 0 \<and>
    mset (contents (dsched lgl)) = add_mset x (mset (contents s)) \<and>
    (\<forall>y\<in>set (contents (dsched lgl)). dkey (dshift lgl) (qvars lgl ! y) \<le> dkey (dshift lgl) (qvars lgl ! x)) \<and>
    same (qvars lgl) vs (set (contents (dsched lgl)))"
proof -
  have h: "d_heap lgl" "d_queue lgl" "d_mem lgl" using ok by (simp_all add: d_ok_def)
  have sk: "dheap.sched_ok (dshift lgl) (dsched lgl) (qvars lgl)" using h(1) by (simp add: d_heap_def)
  have dst: "distinct (contents (dsched lgl))" using dheap.sched_distinct [OF sk] .
  obtain x s vs where r: "heap_pop (lgldcmp (dshift lgl)) (dsched lgl) (qvars lgl) = Some (x, s, vs)"
    "stk_ok 4 (dmem lgl) s" "dheap.sched_ok (dshift lgl) s vs"
    "mset (contents (dsched lgl)) = add_mset x (mset (contents s))"
    "\<forall>y\<in>set (contents (dsched lgl)). dheap.vkey (dshift lgl) (qvars lgl) y \<le> dheap.vkey (dshift lgl) (qvars lgl) x"
    "pos (vs ! x) = -1" "same (qvars lgl) vs (set (contents (dsched lgl)))"
    "length (cells s) = length (cells (dsched lgl))"
    using dheap.heap_pop_correct [OF conjunct1 [OF d_mem_stk [OF h(3)]] sk ne] by blast
  let ?l = "lgl\<lparr>dsched := s, qvars := vs\<rparr>"
  have S: "set (contents (dsched lgl)) = insert x (set (contents s))"
    using r(4) by (metis set_mset_add_mset_insert set_mset_mset)
  have l: "length vs = nvars lgl" using same_length [OF r(7)] by (simp add: nvars_def)
  have e: "enqueued (vs ! y) = enqueued (qvars lgl ! y)" if "y < nvars lgl" for y
    using d_same_fields(2) [OF r(7)] that by (simp add: nvars_def)
  have lt: "y < nvars lgl" if "y \<in> set (contents (dsched lgl))" for y
    using sched_contents_less [OF sk that] by (simp add: nvars_def)
  have "d_heap ?l"
    unfolding d_heap_def
  proof (intro conjI ballI allI impI)
    show "dheap.sched_ok (dshift ?l) (dsched ?l) (qvars ?l)" using r(3) by (simp add: dshift_def)
    fix y
    { assume "y \<in> set (contents (dsched ?l))"
      then show "2 \<le> y" "\<not> enqueued (qvars ?l ! y)"
        using S e lt h(1) unfolding d_heap_def by (auto simp: nvars_def) }
    assume y: "2 \<le> y \<and> y < nvars ?l \<and> \<not> enqueued (qvars ?l ! y) \<and> y \<notin> set (contents (dsched ?l))"
    show "pos (qvars ?l ! y) < 0"
    proof (cases "y = x")
      case False
      then have "vs ! y = qvars lgl ! y" using d_same_fields(4) [OF r(7), of y] S l y by (simp add: nvars_def)
      then show ?thesis using y S False h(1) l e [of y] unfolding d_heap_def by (simp add: nvars_def)
    qed (use r(6) in simp)
  qed
  moreover have "d_queue ?l"
    using h(1) d_queue_same [OF h(2) r(7), where b = "dmem lgl" and s = s] by (auto simp: d_heap_def)
  moreover have "d_mem ?l" using h(3) r(2,8) by (simp add: d_mem_def stk_ok_def)
  moreover have "lglpopdsched lgl = Some (x, ?l)" using r(1) by (simp add: lglpopdsched_def)
  moreover have "x = cells (dsched lgl) ! 0"
    using r(1) by (auto simp: heap_pop_def Let_def bind_eq_Some_conv split: if_splits prod.splits)
  ultimately show ?thesis using r(4,5,7) unfolding d_ok_def by (auto simp: dheap.vkey_def)
qed

section \<open>Sorting by scheduling\<close>

definition dgeq :: "dlgl \<Rightarrow> nat \<Rightarrow> nat \<Rightarrow> bool" where
  "dgeq lgl x y \<longleftrightarrow> dkey (dshift lgl) (qvars lgl ! y) \<le> dkey (dshift lgl) (qvars lgl ! x)"

lemma dkey_same: "same vs vs' S \<Longrightarrow> x < length vs \<Longrightarrow> dkey k (vs' ! x) = dkey k (vs ! x)"
  using d_same_fields [of vs vs' S x] by (simp add: dkey_def)

lemma lgldsched_all:
  "d_ok lgl \<Longrightarrow> distinct xs \<Longrightarrow>
   \<forall>x\<in>set xs. 2 \<le> x \<and> x < nvars lgl \<and> \<not> enqueued (qvars lgl ! x) \<and> x \<notin> set (contents (dsched lgl)) \<Longrightarrow>
     \<exists>lgl'. pushes lgldsched lgl xs = Some lgl' \<and> d_ok lgl' \<and>
       mset (contents (dsched lgl')) = mset (contents (dsched lgl)) + mset xs \<and>
       same (qvars lgl) (qvars lgl') UNIV \<and> dshift lgl' = dshift lgl"
proof (induction xs arbitrary: lgl)
  case Nil
  then show ?case by simp
next
  case (Cons x xs)
  obtain b s vs where r: "lgldsched lgl x = Some (lgl\<lparr>dmem := b, dsched := s, qvars := vs\<rparr>)"
    "d_ok (lgl\<lparr>dmem := b, dsched := s, qvars := vs\<rparr>)"
    "mset (contents s) = add_mset x (mset (contents (dsched lgl)))"
    "same (qvars lgl) vs (insert x (set (contents (dsched lgl))))"
    using lgldsched_ok [OF Cons.prems(1), of x] Cons.prems(3) by auto
  let ?l = "lgl\<lparr>dmem := b, dsched := s, qvars := vs\<rparr>"
  have S: "set (contents s) = insert x (set (contents (dsched lgl)))"
    using r(3) by (metis set_mset_add_mset_insert set_mset_mset)
  have "\<forall>y\<in>set xs. 2 \<le> y \<and> y < nvars ?l \<and> \<not> enqueued (qvars ?l ! y) \<and> y \<notin> set (contents (dsched ?l))"
    using Cons.prems(2,3) S d_same_fields(2) [OF r(4)] same_length [OF r(4)] by (auto simp: nvars_def)
  then obtain l' where l': "pushes lgldsched ?l xs = Some l'" "d_ok l'"
    "mset (contents (dsched l')) = mset (contents s) + mset xs" "same vs (qvars l') UNIV" "dshift l' = dshift lgl"
    using Cons.IH [OF r(2)] Cons.prems(2) by (auto simp: dshift_def)
  have "same (qvars lgl) vs UNIV" using r(4) unfolding same_def by blast
  then have "same (qvars lgl) (qvars l') UNIV" using l'(4) by (rule same_trans)
  then show ?case using r(1,3) l' by auto
qed

lemma lglpopdsched_all:
  "d_ok lgl \<Longrightarrow> length (contents (dsched lgl)) = n \<Longrightarrow>
     \<exists>ys lgl'. pops lglpopdsched lgl n = Some (ys, lgl') \<and> d_ok lgl' \<and> contents (dsched lgl') = [] \<and>
       mset ys = mset (contents (dsched lgl)) \<and> sorted_wrt (dgeq lgl) ys"
proof (induction n arbitrary: lgl)
  case 0
  then show ?case by simp
next
  case (Suc n)
  then have "contents (dsched lgl) \<noteq> []" by auto
  then obtain x s vs where r: "lglpopdsched lgl = Some (x, lgl\<lparr>dsched := s, qvars := vs\<rparr>)"
    "d_ok (lgl\<lparr>dsched := s, qvars := vs\<rparr>)"
    "mset (contents (dsched lgl)) = add_mset x (mset (contents s))"
    "\<forall>y\<in>set (contents (dsched lgl)). dkey (dshift lgl) (qvars lgl ! y) \<le> dkey (dshift lgl) (qvars lgl ! x)"
    "same (qvars lgl) vs (set (contents (dsched lgl)))"
    using lglpopdsched_ok [OF Suc.prems(1)] by blast
  let ?l = "lgl\<lparr>dsched := s, qvars := vs\<rparr>"
  have "size (mset (contents (dsched lgl))) = Suc (size (mset (contents s)))" unfolding r(3) by simp
  then have "length (contents (dsched ?l)) = n" using Suc.prems(2) by simp
  then obtain ys l' where l': "pops lglpopdsched ?l n = Some (ys, l')" "d_ok l'" "contents (dsched l') = []"
    "mset ys = mset (contents s)" "sorted_wrt (dgeq ?l) ys"
    using Suc.IH [OF r(2)] by auto
  have S: "set ys \<subseteq> set (contents (dsched lgl))" using r(3) l'(4) by (metis set_mset_add_mset_insert set_mset_mset subset_insertI)
  have lt: "y < length (qvars lgl)" if "y \<in> set ys" for y
    using that S Suc.prems(1) sched_contents_less unfolding d_ok_def d_heap_def by blast
  have "dgeq ?l y z = dgeq lgl y z" if "y \<in> set ys" "z \<in> set ys" for y z
    using dkey_same [OF r(5)] lt that by (simp add: dgeq_def dshift_def)
  then have "sorted_wrt (dgeq lgl) ys" using l'(5) sorted_wrt_mono_rel [of ys "dgeq ?l" "dgeq lgl"] by blast
  moreover have "\<forall>y\<in>set ys. dgeq lgl x y" using r(4) S by (auto simp: dgeq_def)
  ultimately show ?case using r(1,3) l' by auto
qed

section \<open>Rescheduling\<close>

lemma unsched_all_nth:
  "x < length vs \<Longrightarrow> unsched_all vs ! x = (if 2 \<le> x \<and> \<not> enqueued (vs ! x) then (vs ! x)\<lparr>pos := -1\<rparr> else vs ! x)"
  by (simp add: unsched_all_def nth_enumerate_eq)

lemma length_unsched_all [simp]: "length (unsched_all vs) = length vs"
  by (simp add: unsched_all_def)

lemma unsched_all_same: "same vs (unsched_all vs) {x. 2 \<le> x \<and> x < length vs \<and> \<not> enqueued (vs ! x)}"
proof -
  have "(\<exists>i. unsched_all vs ! x = (vs ! x)\<lparr>pos := i\<rparr>)" if "x < length vs" for x
  proof (cases "2 \<le> x \<and> \<not> enqueued (vs ! x)")
    case False
    then show ?thesis using that by (intro exI [of _ "pos (vs ! x)"]) (auto simp: unsched_all_nth)
  qed (use that unsched_all_nth in auto)
  then show ?thesis unfolding same_def by (auto simp: unsched_all_nth)
qed

text \<open>
  What lgldreschedule needs of the old schedule: valid variables outside the queue, none of
  them twice.  Their order and their positions may be arbitrary.
\<close>

definition d_loose :: "dlgl \<Rightarrow> bool" where
  "d_loose lgl \<longleftrightarrow> distinct (contents (dsched lgl)) \<and>
     (\<forall>x\<in>set (contents (dsched lgl)). 2 \<le> x \<and> x < nvars lgl \<and> \<not> enqueued (qvars lgl ! x))"

lemma d_heap_loose: "d_heap lgl \<Longrightarrow> d_loose lgl"
  unfolding d_heap_def d_loose_def
  using dheap.sched_distinct sched_contents_less by (metis nvars_def)

lemma lgldreschedule_ok:
  assumes lo: "d_loose lgl" and q: "d_queue lgl" and me: "d_mem lgl"
  shows "\<exists>b s vs. lgldreschedule lgl = Some (lgl\<lparr>dmem := b, dsched := s, qvars := vs\<rparr>) \<and>
    d_ok (lgl\<lparr>dmem := b, dsched := s, qvars := vs\<rparr>) \<and>
    mset (contents s) = mset (filter (lglisfree lgl) (contents (dsched lgl))) \<and>
    same (qvars lgl) vs {x. 2 \<le> x \<and> x < nvars lgl \<and> \<not> enqueued (qvars lgl ! x)}"
proof -
  let ?vs = "unsched_all (qvars lgl)" and ?rest = "contents (dsched lgl)" and ?cnt = "ntop (dsched lgl)"
  let ?U = "{x. 2 \<le> x \<and> x < nvars lgl \<and> \<not> enqueued (qvars lgl ! x)}"
  have len: "length ?rest = ?cnt" "?cnt \<le> length (cells (dsched lgl))"
    using me by (simp_all add: d_mem_def contents_def)
  have U: "set ?rest \<subseteq> ?U" using lo by (auto simp: d_loose_def)
  have inv: "dheap.resched_inv (dshift lgl) ?cnt 0 ?rest ((dsched lgl)\<lparr>ntop := 0\<rparr>) ?vs"
    using len lo unfolding dheap.resched_inv_def dheap.sched_ok_def
    by (auto simp: hp_ok_def heap_ord_def contents_def d_loose_def nvars_def unsched_all_nth)
  obtain s vs where r: "heap_resched (lgldcmp (dshift lgl)) (lglisfree lgl) ?cnt 0 ((dsched lgl)\<lparr>ntop := 0\<rparr>) ?vs = Some (s, vs)"
    "dheap.sched_ok (dshift lgl) s vs" "mset (contents s) = mset (filter (\<lambda>x. 1 < x \<and> lglisfree lgl x) ?rest)"
    "length (cells s) = length (cells (dsched lgl))" "ntop s \<le> ?cnt" "same ?vs vs (set ?rest)"
    "\<forall>x\<in>set ?rest. \<not> (1 < x \<and> lglisfree lgl x) \<longrightarrow> pos (vs ! x) = -1"
    using dheap.heap_resched_correct [OF inv, of "lglisfree lgl"] by (auto simp: contents_def)
  have f: "filter (\<lambda>x. 1 < x \<and> lglisfree lgl x) ?rest = filter (lglisfree lgl) ?rest"
    using lo by (intro filter_cong) (auto simp: d_loose_def)
  have ok: "stk_ok 4 (dmem lgl) s" using me r(4,5) len by (auto simp: d_mem_def stk_ok_def)
  obtain b s' where fi: "fit 4 0 (dmem lgl) s = Some (b, s')" "stk_ok 4 b s'" "contents s' = contents s"
    "account 4 b s' = account 4 (dmem lgl) s"
    using fit_spec [OF ok, of 0] by auto
  have acc: "account 4 (dmem lgl) s = account 4 (dmem lgl) (dsched lgl)" using r(4) by (simp add: account_def)
  have nt: "ntop s' = ntop s" using fi(3) length_contents [OF fi(2)] length_contents [OF ok] by simp
  have eq: "cells s' ! j = cells s ! j" if "j < ntop s" for j
    using fi(3) nt that by (metis contents_def nth_take)
  have "par j < ntop s" if "0 < j" "j < ntop s" for j using that par_less [of j] by simp
  then have sk: "dheap.sched_ok (dshift lgl) s' vs"
    using r(2) eq nt fi(2) unfolding dheap.sched_ok_def hp_ok_def heap_ord_def by (simp add: stk_ok_def)
  have "mset (contents s') = mset (filter (lglisfree lgl) ?rest)" unfolding fi(3) r(3) f ..
  then have "set (contents s') = set (filter (lglisfree lgl) ?rest)" by (metis set_mset_mset)
  then have S: "set (contents s') \<subseteq> ?U" "\<And>x. x \<in> set (contents s') \<longleftrightarrow> x \<in> set ?rest \<and> lglisfree lgl x"
    using U by auto
  let ?l = "lgl\<lparr>dmem := b, dsched := s', qvars := vs\<rparr>"
  have "same ?vs vs ?U" using r(6) U unfolding same_def by blast
  then have sm: "same (qvars lgl) vs ?U" using same_trans unsched_all_same unfolding nvars_def by blast
  have l: "length vs = nvars lgl" using same_length [OF sm] by (simp add: nvars_def)
  have e: "enqueued (vs ! y) = enqueued (qvars lgl ! y)" if "y < nvars lgl" for y
    using d_same_fields(2) [OF sm] that by (simp add: nvars_def)
  have "d_heap ?l"
    unfolding d_heap_def
  proof (intro conjI ballI allI impI)
    show "dheap.sched_ok (dshift ?l) (dsched ?l) (qvars ?l)" using sk by (simp add: dshift_def)
    fix y
    { assume "y \<in> set (contents (dsched ?l))"
      then show "2 \<le> y" "\<not> enqueued (qvars ?l ! y)" using S(1) e by auto }
    assume y: "2 \<le> y \<and> y < nvars ?l \<and> \<not> enqueued (qvars ?l ! y) \<and> y \<notin> set (contents (dsched ?l))"
    then have ny: "y < nvars lgl" "\<not> enqueued (qvars lgl ! y)" using l e [of y] by (auto simp: nvars_def)
    show "pos (qvars ?l ! y) < 0"
    proof (cases "y \<in> set ?rest")
      case True
      then show ?thesis using r(7) S(2) y by auto
    next
      case False
      then have "vs ! y = ?vs ! y" using d_same_fields(4) [OF r(6), of y] ny by (simp add: nvars_def)
      then show ?thesis using y ny by (simp add: unsched_all_nth nvars_def)
    qed
  qed
  moreover have "d_queue ?l" by (rule d_queue_same [OF q sm]) blast
  moreover have "d_mem ?l" using d_mem_dsched [OF me fi(2)] fi(4) acc by simp
  moreover have "lgldreschedule lgl = Some ?l" using r(1) fi(1) by (simp add: lgldreschedule_def Let_def lglcntstk_def)
  moreover note \<open>mset (contents s') = mset (filter (lglisfree lgl) ?rest)\<close>
  ultimately show ?thesis using sm unfolding d_ok_def by blast
qed

section \<open>Rescaling and bumping\<close>

definition rescored :: "dlgl \<Rightarrow> QVar list" where
  "rescored lgl = map (\<lambda>(idx, qv). if 2 \<le> idx \<and> \<not> enqueued qv
      then qv\<lparr>score := rescore (minscore lgl) (score qv)\<rparr> else qv) (List.enumerate 0 (qvars lgl))"

lemma rescored_nth:
  "x < length (qvars lgl) \<Longrightarrow> rescored lgl ! x =
     (if 2 \<le> x \<and> \<not> enqueued (qvars lgl ! x)
      then (qvars lgl ! x)\<lparr>score := rescore (minscore lgl) (score (qvars lgl ! x))\<rparr> else qvars lgl ! x)"
  "length (rescored lgl) = length (qvars lgl)"
  by (simp_all add: rescored_def nth_enumerate_eq)

lemma d_loose_scores:
  assumes "d_loose lgl" "length vs = length (qvars lgl)"
    "\<And>x. x < length (qvars lgl) \<Longrightarrow> enqueued (vs ! x) = enqueued (qvars lgl ! x)"
  shows "d_loose (lgl\<lparr>qvars := vs\<rparr>)"
  using assms by (auto simp: d_loose_def nvars_def)

lemma d_queue_scores:
  assumes "d_queue lgl" "length vs = length (qvars lgl)"
    "\<And>x. x < length (qvars lgl) \<Longrightarrow> enqueued (vs ! x) = enqueued (qvars lgl ! x) \<and> pos (vs ! x) = pos (qvars lgl ! x)"
  shows "d_queue (lgl\<lparr>qvars := vs\<rparr>)"
proof -
  note D = assms(1) [unfolded d_queue_def nvars_def]
  have 1: "0 \<le> pos (vs ! x) \<and> nat (pos (vs ! x)) < ntop (qstk lgl) \<and> cells (qstk lgl) ! nat (pos (vs ! x)) = x"
    if "2 \<le> x" "x < length (qvars lgl)" "enqueued (vs ! x)" for x
  proof -
    have "enqueued (qvars lgl ! x)" "pos (vs ! x) = pos (qvars lgl ! x)" using assms(3) that by auto
    then show ?thesis using D that by metis
  qed
  have 2: "2 \<le> y \<and> y < length (qvars lgl) \<and> enqueued (vs ! y) \<and> pos (vs ! y) = int j"
    if "j < ntop (qstk lgl)" "y = cells (qstk lgl) ! j" "y \<noteq> 0" for j y
  proof -
    have "2 \<le> y" "y < length (qvars lgl)" "enqueued (qvars lgl ! y)" "pos (qvars lgl ! y) = int j"
      using D that by blast+
    then show ?thesis using assms(3) by simp
  qed
  show ?thesis unfolding d_queue_def nvars_def using 1 2 assms(2) by simp
qed

lemma lglrescorevars_ok:
  assumes lo: "d_loose lgl" and q: "d_queue lgl" and me: "d_mem lgl"
    and sc: "0 < sint (lglshflt (scinc lgl) DEFSCOREXP)"
  shows "\<exists>lgl'. lglrescorevars lgl = Some lgl' \<and> d_ok lgl' \<and>
    mset (contents (dsched lgl')) = mset (filter (lglisfree lgl) (contents (dsched lgl))) \<and>
    same (rescored lgl) (qvars lgl') {x. 2 \<le> x \<and> x < nvars lgl \<and> \<not> enqueued (qvars lgl ! x)} \<and>
    scinc lgl' = lglshflt (scinc lgl) DEFSCOREXP"
proof -
  let ?l = "lgl\<lparr>qvars := rescored lgl\<rparr>"
  have n: "enqueued (rescored lgl ! x) = enqueued (qvars lgl ! x) \<and> pos (rescored lgl ! x) = pos (qvars lgl ! x)"
    if "x < length (qvars lgl)" for x using that by (simp add: rescored_nth)
  have lo': "d_loose ?l" using d_loose_scores [OF lo rescored_nth(2)] n by blast
  have q': "d_queue ?l" using d_queue_scores [OF q rescored_nth(2)] n by blast
  have me': "d_mem ?l" using me by (simp add: d_mem_def)
  obtain b s vs where r: "lgldreschedule ?l = Some (?l\<lparr>dmem := b, dsched := s, qvars := vs\<rparr>)"
    "d_ok (?l\<lparr>dmem := b, dsched := s, qvars := vs\<rparr>)"
    "mset (contents s) = mset (filter (lglisfree ?l) (contents (dsched ?l)))"
    "same (qvars ?l) vs {x. 2 \<le> x \<and> x < nvars ?l \<and> \<not> enqueued (qvars ?l ! x)}"
    using lgldreschedule_ok [OF lo' q' me'] by blast
  have S: "{x. 2 \<le> x \<and> x < nvars ?l \<and> \<not> enqueued (qvars ?l ! x)} =
      {x. 2 \<le> x \<and> x < nvars lgl \<and> \<not> enqueued (qvars lgl ! x)}"
    using n by (auto simp: nvars_def rescored_nth(2))
  let ?r = "lgl\<lparr>dmem := b, dsched := s, qvars := vs, scinc := lglshflt (scinc lgl) DEFSCOREXP\<rparr>"
  have "lglrescorevars lgl = Some ?r"
    using r(1) sc by (simp add: lglrescorevars_def rescored_def Let_def)
  moreover have "d_ok ?r" using r(2)
    by (simp add: d_ok_def d_heap_def d_queue_def d_mem_def nvars_def dshift_def)
  moreover have "lglisfree ?l = lglisfree lgl" by (simp add: lglisfree_def fun_eq_iff)
  ultimately show ?thesis using r(3,4) unfolding S by auto
qed

text \<open>Raising the score of a scheduled variable and sifting it up restores the heap.\<close>

lemma up_after_raise:
  assumes "dheap.sched_ok k s vs" "i < ntop s" "cells s ! i = x"
    and "dkey k (vs ! x) \<le> dkey k qv" "pos qv = pos (vs ! x)"
  shows "hp_ok (ntop s) (cells s) (vs[x := qv])" "up_ord (dheap.vkey k (vs[x := qv])) (ntop s) (cells s) i"
  using dheap.key_upd(1) [OF assms(1-3,5)] dheap.key_raise [OF assms] by simp_all

lemma dequeue_ok:
  assumes ok: "d_ok lgl" and x: "2 \<le> x" "x < nvars lgl" "enqueued (qvars lgl ! x)"
  shows "\<exists>s vs. dequeue lgl x = Some (lgl\<lparr>qstk := s, qmt := qmt lgl + 1, qvars := vs\<rparr>) \<and>
    d_ok (lgl\<lparr>qstk := s, qmt := qmt lgl + 1, qvars := vs\<rparr>) \<and>
    s = (qstk lgl)\<lparr>cells := (cells (qstk lgl))[nat (pos (qvars lgl ! x)) := 0]\<rparr> \<and>
    vs = (qvars lgl)[x := (qvars lgl ! x)\<lparr>enqueued := False, pos := -1\<rparr>]"
proof -
  have h: "d_heap lgl" "d_queue lgl" "d_mem lgl" using ok by (simp_all add: d_ok_def)
  let ?j = "nat (pos (qvars lgl ! x))" and ?qv = "(qvars lgl ! x)\<lparr>enqueued := False, pos := -1\<rparr>"
  let ?vs = "(qvars lgl)[x := ?qv]" and ?s = "(qstk lgl)\<lparr>cells := (cells (qstk lgl))[?j := 0]\<rparr>"
  let ?l = "lgl\<lparr>qstk := ?s, qmt := qmt lgl + 1, qvars := ?vs\<rparr>"
  note D = h(2) [unfolded d_queue_def]
  have j: "?j < ntop (qstk lgl)" "cells (qstk lgl) ! ?j = x" using D x by blast+
  then have jl: "?j < length (cells (qstk lgl))" using h(3) by (simp add: d_mem_def)
  have xl: "x < length (qvars lgl)" using x(2) by (simp add: nvars_def)
  have nin: "x \<notin> set (contents (dsched lgl))" using h(1) x(3) by (auto simp: d_heap_def)
  have "dequeue lgl x = Some ?l"
    using j jl by (simp add: dequeue_def lglpeek_def lglpoke_def lglszstk_def Let_def)
  moreover have "d_heap ?l"
  proof -
    have sk: "dheap.sched_ok (dshift lgl) (dsched lgl) (qvars lgl)" using h(1) by (simp add: d_heap_def)
    have "dheap.sched_ok (dshift lgl) (dsched lgl) ?vs" by (rule dheap.sched_upd_out [OF sk nin])
    then show ?thesis using h(1) nin xl unfolding d_heap_def
      by (auto simp: dshift_def nvars_def nth_list_update)
  qed
  moreover have "d_queue ?l"
    unfolding d_queue_def
  proof (intro conjI allI impI)
    fix y assume y: "2 \<le> y \<and> y < nvars ?l \<and> enqueued (qvars ?l ! y)"
    then have ny: "y \<noteq> x" "enqueued (qvars lgl ! y)" "y < nvars lgl" using xl by (auto simp: nvars_def nth_list_update split: if_splits)
    then have "0 \<le> pos (qvars lgl ! y)" "nat (pos (qvars lgl ! y)) < ntop (qstk lgl)"
      "cells (qstk lgl) ! nat (pos (qvars lgl ! y)) = y" using D y by blast+
    moreover have "nat (pos (qvars lgl ! y)) \<noteq> ?j" using calculation(3) j(2) ny(1) by auto
    ultimately show "0 \<le> pos (qvars ?l ! y)" "nat (pos (qvars ?l ! y)) < ntop (qstk ?l)"
      "cells (qstk ?l) ! nat (pos (qvars ?l ! y)) = y" using ny(1) by simp_all
  next
    fix i assume i: "i < ntop (qstk ?l)" "cells (qstk ?l) ! i \<noteq> 0"
    then have ni: "i \<noteq> ?j" using jl by auto
    let ?y = "cells (qstk lgl) ! i"
    have e: "cells (qstk ?l) ! i = ?y" using ni by simp
    then have y: "2 \<le> ?y" "?y < nvars lgl" "enqueued (qvars lgl ! ?y)" "pos (qvars lgl ! ?y) = int i"
      using D i by auto
    have "?y \<noteq> x" using y(4) ni D x by force
    then show "2 \<le> cells (qstk ?l) ! i" "cells (qstk ?l) ! i < nvars ?l"
      "enqueued (qvars ?l ! (cells (qstk ?l) ! i))" "pos (qvars ?l ! (cells (qstk ?l) ! i)) = int i"
      unfolding e using y by (simp_all add: nvars_def)
  qed
  moreover have "d_mem ?l" using h(3) by (simp add: d_mem_def)
  ultimately show ?thesis unfolding d_ok_def by blast
qed

lemma lgldup_raise_ok:
  assumes ok: "d_ok lgl" and x: "2 \<le> x" "x < nvars lgl" "\<not> enqueued (qvars lgl ! x)"
    and le: "sint (score (qvars lgl ! x)) \<le> sint new"
    and l: "l = lgl\<lparr>qvars := (qvars lgl)[x := (qvars lgl ! x)\<lparr>score := new\<rparr>]\<rparr>"
  shows "\<exists>p vs. (if 0 \<le> pos (qvars lgl ! x) then lgldup l x else Some l) =
      Some (l\<lparr>dsched := (dsched l)\<lparr>cells := p\<rparr>, qvars := vs\<rparr>) \<and>
    d_ok (l\<lparr>dsched := (dsched l)\<lparr>cells := p\<rparr>, qvars := vs\<rparr>) \<and>
    mset (contents ((dsched l)\<lparr>cells := p\<rparr>)) = mset (contents (dsched lgl)) \<and>
    same (qvars l) vs (set (contents (dsched lgl)))"
proof -
  have h: "d_heap lgl" "d_queue lgl" "d_mem lgl" using ok by (simp_all add: d_ok_def)
  have sk: "dheap.sched_ok (dshift lgl) (dsched lgl) (qvars lgl)" using h(1) by (simp add: d_heap_def)
  let ?q = "(qvars lgl ! x)\<lparr>score := new\<rparr>" and ?s = "dsched lgl"
  let ?w = "(qvars lgl)[x := ?q]"
  have xl: "x < length (qvars lgl)" using x(2) by (simp add: nvars_def)
  have le': "dkey (dshift lgl) (qvars lgl ! x) \<le> dkey (dshift lgl) ?q"
    using le by (simp add: dkey_def zdiv_mono1)
  have flds: "enqueued (?w ! y) = enqueued (qvars lgl ! y) \<and> pos (?w ! y) = pos (qvars lgl ! y)" if "y < length (qvars lgl)" for y
    using xl by (cases "y = x") simp_all
  have q: "d_queue l" unfolding l by (rule d_queue_scores [OF h(2)]) (use flds in simp_all)
  have me: "d_mem l" using h(3) by (simp add: l d_mem_def)
  have nt: "ntop ?s \<le> length (cells ?s)" using h(3) by (simp add: d_mem_def)
  show ?thesis
  proof (cases "0 \<le> pos (qvars lgl ! x)")
    case False
    then have nin: "x \<notin> set (contents ?s)"
      using sk nt by (auto simp: dheap.sched_ok_def hp_ok_def contents_def in_set_conv_nth)
    have "dheap.sched_ok (dshift lgl) ?s ?w" by (rule dheap.sched_upd_out [OF sk nin])
    then have "d_heap l" using h(1) flds nin sched_contents_less [OF sk] unfolding d_heap_def l
      by (auto simp: dshift_def nvars_def)
    then show ?thesis using False q me
      by (intro exI [of _ "cells (dsched l)"] exI [of _ "qvars l"]) (simp add: d_ok_def l)
  next
    case True
    then have xin: "x \<in> set (contents ?s)" using h(1) x unfolding d_heap_def by force
    then obtain i where i: "i < ntop ?s" "cells ?s ! i = x" using dheap.sched_contents [OF sk] by blast
    note u = up_after_raise [OF sk i le', simplified]
    obtain p vs where r: "heap_up (lgldcmp (dshift lgl)) x (cells ?s) ?w = Some (p, vs)"
      "dheap.heap_res (dshift lgl) (ntop ?s) (cells ?s) ?w p vs"
      using dheap.heap_up_correct [OF u(1) i(1) u(2)] i(2) by auto
    let ?l = "l\<lparr>dsched := (dsched l)\<lparr>cells := p\<rparr>, qvars := vs\<rparr>"
    have ms: "mset (take (ntop ?s) p) = mset (contents ?s)" using r(2) by (simp add: dheap.heap_res_def contents_def)
    then have S: "set (take (ntop ?s) p) = set (contents ?s)" by (metis set_mset_mset)
    have sm: "same ?w vs (set (contents ?s))" using r(2) by (simp add: dheap.heap_res_def contents_def)
    have lv: "length vs = length (qvars lgl)" using same_length [OF sm] by simp
    have e: "enqueued (vs ! y) = enqueued (qvars lgl ! y)" if "y < length (qvars lgl)" for y
      using d_same_fields(2) [OF sm, of y] flds that by simp
    have "d_heap ?l"
      unfolding d_heap_def
    proof (intro conjI ballI allI impI)
      show "dheap.sched_ok (dshift ?l) (dsched ?l) (qvars ?l)"
        using r(2) by (simp add: l dshift_def dheap.sched_ok_def dheap.heap_res_def)
      fix y
      { assume "y \<in> set (contents (dsched ?l))"
        then have "y \<in> set (contents ?s)" using S by (simp add: l contents_def)
        then show "2 \<le> y" "\<not> enqueued (qvars ?l ! y)"
          using e sched_contents_less [OF sk] h(1) unfolding d_heap_def by auto }
      assume y: "2 \<le> y \<and> y < nvars ?l \<and> \<not> enqueued (qvars ?l ! y) \<and> y \<notin> set (contents (dsched ?l))"
      then have y': "y < length (qvars lgl)" "\<not> enqueued (qvars lgl ! y)" "y \<notin> set (contents ?s)"
        using S lv e [of y] by (auto simp: nvars_def l contents_def)
      moreover have "x \<noteq> y" using y'(3) xin by blast
      ultimately have "vs ! y = qvars lgl ! y" using d_same_fields(4) [OF sm, of y] by simp
      then show "pos (qvars ?l ! y) < 0" using y y' h(1) unfolding d_heap_def by (simp add: nvars_def)
    qed
    moreover have "d_queue ?l"
    proof -
      have "d_queue (l\<lparr>dmem := dmem l, dsched := (dsched l)\<lparr>cells := p\<rparr>, qvars := vs\<rparr>)"
        by (rule d_queue_same [OF q]) (use sm h(1) e flds in \<open>auto simp: l d_heap_def nvars_def\<close>)
      then show ?thesis by simp
    qed
    moreover have "d_mem ?l" using me r(2) by (simp add: d_mem_def l dheap.heap_res_def)
    moreover have "lgldup l x = Some ?l" using r(1) x(1) by (simp add: lgldup_def l dshift_def)
    ultimately show ?thesis using True ms sm
      by (intro exI [of _ p] exI [of _ vs]) (simp add: d_ok_def l contents_def)
  qed
qed

text \<open>Bumping one variable: where it was, it becomes scheduled unless it is assigned.\<close>

lemma lglbumpdlit_ok:
  assumes ok: "d_ok lgl" and x: "2 \<le> x" "x < nvars lgl"
    and on: "\<not> (simp_mode lgl \<and> lglgetopt (dopts lgl) ''bumpsimp'' = 0)"
    and inc: "sint (score (qvars lgl ! x)) < sint new" "new = lgladdflt (score (qvars lgl ! x)) (scinc lgl)"
    and sc: "sint (maxscore lgl) \<le> sint new \<longrightarrow> 0 < sint (lglshflt (scinc lgl) DEFSCOREXP)"
  shows "\<exists>lgl'. lglbumpdlit lgl x = Some lgl' \<and> d_ok lgl' \<and> \<not> enqueued (qvars lgl' ! x) \<and>
    (sint new < sint (maxscore lgl) \<longrightarrow> score (qvars lgl' ! x) = new \<and>
       (\<forall>y<nvars lgl. y \<noteq> x \<longrightarrow> score (qvars lgl' ! y) = score (qvars lgl ! y)))"
proof -
  define l1o where "l1o = (if enqueued (qvars lgl ! x) then do {
      l \<leftarrow> dequeue lgl x; if lglval l x = 0 then lgldsched l x else Some l } else Some lgl)"
  obtain l1 where l1: "l1o = Some l1" "d_ok l1" "nvars l1 = nvars lgl" "\<not> enqueued (qvars l1 ! x)"
    "\<forall>y<nvars lgl. score (qvars l1 ! y) = score (qvars lgl ! y)"
    "scinc l1 = scinc lgl" "maxscore l1 = maxscore lgl"
  proof (cases "enqueued (qvars lgl ! x)")
    case False
    then show ?thesis using that ok by (simp add: l1o_def)
  next
    case True
    obtain s vs where d: "dequeue lgl x = Some (lgl\<lparr>qstk := s, qmt := qmt lgl + 1, qvars := vs\<rparr>)"
      "d_ok (lgl\<lparr>qstk := s, qmt := qmt lgl + 1, qvars := vs\<rparr>)"
      "vs = (qvars lgl)[x := (qvars lgl ! x)\<lparr>enqueued := False, pos := -1\<rparr>]"
      using dequeue_ok [OF ok x True] by blast
    let ?l = "lgl\<lparr>qstk := s, qmt := qmt lgl + 1, qvars := vs\<rparr>"
    have v: "length vs = nvars lgl" "\<not> enqueued (vs ! x)" "\<forall>y<nvars lgl. score (vs ! y) = score (qvars lgl ! y)"
      using x(2) unfolding d(3) by (auto simp: nvars_def nth_list_update)
    show ?thesis
    proof (cases "lglval ?l x = 0")
      case False
      then show ?thesis using that [of ?l] d v True by (simp add: l1o_def nvars_def)
    next
      case z: True
      have "x \<notin> set (contents (dsched lgl))" using ok True unfolding d_ok_def d_heap_def by blast
      then obtain b t ws where t: "lgldsched ?l x = Some (?l\<lparr>dmem := b, dsched := t, qvars := ws\<rparr>)"
        "d_ok (?l\<lparr>dmem := b, dsched := t, qvars := ws\<rparr>)" "same vs ws (insert x (set (contents (dsched lgl))))"
        using lgldsched_ok [OF d(2) x(1)] x(2) v by (auto simp: nvars_def)
      have "\<forall>y<nvars lgl. score (ws ! y) = score (qvars lgl ! y)" "\<not> enqueued (ws ! x)" "length ws = nvars lgl"
        using d_same_fields(1,2) [OF t(3)] same_length [OF t(3)] v x(2) by (simp_all add: nvars_def)
      then show ?thesis
        using that [of "?l\<lparr>dmem := b, dsched := t, qvars := ws\<rparr>"] d(1) t(1,2) z True by (simp add: l1o_def nvars_def)
    qed
  qed
  have xl: "x < nvars l1" "score (qvars l1 ! x) = score (qvars lgl ! x)" using l1(3,5) x(2) by auto
  define l2 where "l2 = l1\<lparr>qvars := (qvars l1)[x := (qvars l1 ! x)\<lparr>score := new\<rparr>]\<rparr>"
  obtain p vs where r: "(if 0 \<le> pos (qvars l1 ! x) then lgldup l2 x else Some l2) =
      Some (l2\<lparr>dsched := (dsched l2)\<lparr>cells := p\<rparr>, qvars := vs\<rparr>)"
    "d_ok (l2\<lparr>dsched := (dsched l2)\<lparr>cells := p\<rparr>, qvars := vs\<rparr>)" "same (qvars l2) vs (set (contents (dsched l1)))"
    using lgldup_raise_ok [OF l1(2) x(1) xl(1) l1(4) _ l2_def] inc(1) xl(2) by auto
  let ?l3 = "l2\<lparr>dsched := (dsched l2)\<lparr>cells := p\<rparr>, qvars := vs\<rparr>"
  have sch: "lgldscheduled l2 x = Some (0 \<le> pos (qvars l1 ! x))"
    using x(1) xl(1) l1(4) by (simp add: lgldscheduled_def lglqvar_def l2_def nvars_def)
  have un: "lglbumpdlit lgl x = (if sint (maxscore lgl) \<le> sint new then lglrescorevars ?l3 else Some ?l3)"
  proof -
    have qv: "lglqvar lgl x = Some (qvars lgl ! x)" using x by (simp add: lglqvar_def)
    have e: "maxscore l2 = maxscore lgl" "lgladdflt (score (qvars l1 ! x)) (scinc l1) = new"
      "\<not> sint new \<le> sint (score (qvars l1 ! x))"
      using l1(6,7) xl(2) inc by (simp_all add: l2_def)
    have "lglbumpdlit lgl x = do {
        lgl \<leftarrow> l1o;
        let qv = qvars lgl ! x;
        let newscore = lgladdflt (score qv) (scinc lgl);
        if \<not> sint newscore > sint (score qv) then None
        else do {
          let lgl = lgl\<lparr>qvars := (qvars lgl)[x := qv\<lparr>score := newscore\<rparr>]\<rparr>;
          sch \<leftarrow> lgldscheduled lgl x;
          lgl \<leftarrow> (if sch then lgldup lgl x else Some lgl);
          if sint newscore \<ge> sint (maxscore lgl) then lglrescorevars lgl else Some lgl
        }
      }"
    proof -
      have f: "(simp_mode lgl \<and> lglgetopt (dopts lgl) ''bumpsimp'' = 0) = False" using on by blast
      show ?thesis unfolding lglbumpdlit_def qv l1o_def by (simp add: Let_def f split del: if_split)
    qed
    also have "\<dots> = (if sint (maxscore lgl) \<le> sint new then lglrescorevars ?l3 else Some ?l3)"
      using l1(1) sch r(1) e by (simp add: Let_def l2_def [symmetric])
    finally show ?thesis .
  qed
  have w: "\<forall>y<nvars lgl. enqueued (vs ! y) = enqueued (qvars l1 ! y) \<and>
      score (vs ! y) = (if y = x then new else score (qvars lgl ! y))"
    using d_same_fields(1,2) [OF r(3)] xl l1(3,5) by (auto simp: l2_def nvars_def nth_list_update)
  show ?thesis
  proof (cases "sint (maxscore lgl) \<le> sint new")
    case False
    then show ?thesis using un r(2) w l1(4) x(2) by auto
  next
    case True
    have "d_loose ?l3" "d_queue ?l3" "d_mem ?l3" using r(2) d_heap_loose by (auto simp: d_ok_def)
    moreover have "0 < sint (lglshflt (scinc ?l3) DEFSCOREXP)" using sc True l1(6) by (simp add: l2_def)
    ultimately obtain l4 where l4: "lglrescorevars ?l3 = Some l4" "d_ok l4"
      "same (rescored ?l3) (qvars l4) {x. 2 \<le> x \<and> x < nvars ?l3 \<and> \<not> enqueued (qvars ?l3 ! x)}"
      using lglrescorevars_ok [of ?l3] by blast
    have "x < length vs" using same_length [OF r(3)] xl(1) by (simp add: l2_def nvars_def)
    then have "enqueued (qvars l4 ! x) = enqueued (vs ! x)"
      using d_same_fields(2) [OF l4(3), of x] by (simp add: rescored_nth)
    then have "\<not> enqueued (qvars l4 ! x)" using w l1(4) x(2) by auto
    then show ?thesis using un True l4(1,2) by auto
  qed
qed

section \<open>The next decision\<close>

definition decidable :: "dlgl \<Rightarrow> nat \<Rightarrow> bool" where
  "decidable lgl x \<longleftrightarrow> lglval lgl x = 0 \<and> lglisfree lgl x"

text \<open>What looking for a decision leaves alone.\<close>

definition same_env :: "dlgl \<Rightarrow> dlgl \<Rightarrow> bool" where
  "same_env l l' \<longleftrightarrow> vals l' = vals l \<and> types l' = types l \<and> dopts l' = dopts l \<and> nvars l' = nvars l \<and>
     (\<forall>x<nvars l. score (qvars l' ! x) = score (qvars l ! x) \<and> important (qvars l' ! x) = important (qvars l ! x))"

lemma same_env_decidable: "same_env l l' \<Longrightarrow> decidable l' x = decidable l x"
  by (simp add: same_env_def decidable_def lglval_def lglisfree_def)

lemma same_env_trans: "same_env a b \<Longrightarrow> same_env b c \<Longrightarrow> same_env a c"
  by (simp add: same_env_def)

lemma same_env_dkey: "same_env l l' \<Longrightarrow> x < nvars l \<Longrightarrow>
    dkey (dshift l') (qvars l' ! x) = dkey (dshift l) (qvars l ! x)"
  by (simp add: same_env_def dkey_def dshift_def)

lemma next_heap_ok:
  "d_ok lgl \<Longrightarrow>
     \<exists>x lgl'. next_heap lgl = Some (x, lgl') \<and> d_ok lgl' \<and> same_env lgl lgl' \<and>
       qstk lgl' = qstk lgl \<and> qnext lgl' = qnext lgl \<and> qmt lgl' = qmt lgl \<and>
       (\<forall>y<nvars lgl. enqueued (qvars lgl ! y) \<longrightarrow> qvars lgl' ! y = qvars lgl ! y) \<and>
       (if \<exists>y\<in>set (contents (dsched lgl)). decidable lgl y
        then x \<in> set (contents (dsched lgl)) \<and> decidable lgl x \<and>
          (\<forall>y\<in>set (contents (dsched lgl)). decidable lgl y \<longrightarrow> dgeq lgl x y)
        else x = 0)"
proof (induction "length (contents (dsched lgl))" arbitrary: lgl rule: less_induct)
  case less
  have me: "d_mem lgl" using less.prems by (simp add: d_ok_def)
  then have len: "length (contents (dsched lgl)) = ntop (dsched lgl)" by (simp add: contents_def d_mem_def)
  have sk: "dheap.sched_ok (dshift lgl) (dsched lgl) (qvars lgl)" using less.prems by (simp add: d_ok_def d_heap_def)
  show ?case
  proof (cases "ntop (dsched lgl) = 0")
    case True
    then have "contents (dsched lgl) = []" by (simp add: contents_def)
    then show ?thesis using True less.prems
      by (subst next_heap.simps) (simp add: lglmtstk_def same_env_def)
  next
    case False
    then have ne: "contents (dsched lgl) \<noteq> []" using len by auto
    obtain x s vs where r: "lglpopdsched lgl = Some (x, lgl\<lparr>dsched := s, qvars := vs\<rparr>)"
      "d_ok (lgl\<lparr>dsched := s, qvars := vs\<rparr>)" "x = cells (dsched lgl) ! 0"
      "mset (contents (dsched lgl)) = add_mset x (mset (contents s))"
      "\<forall>y\<in>set (contents (dsched lgl)). dkey (dshift lgl) (qvars lgl ! y) \<le> dkey (dshift lgl) (qvars lgl ! x)"
      "same (qvars lgl) vs (set (contents (dsched lgl)))"
      using lglpopdsched_ok [OF less.prems ne] by blast
    let ?l = "lgl\<lparr>dsched := s, qvars := vs\<rparr>"
    have S: "set (contents (dsched lgl)) = insert x (set (contents s))"
      using r(4) by (metis set_mset_add_mset_insert set_mset_mset)
    show ?thesis
    proof (cases "decidable lgl x")
      case True
      then have "next_heap lgl = Some (x, lgl)"
        using False r(3) by (subst next_heap.simps) (simp add: lglmtstk_def decidable_def Let_def)
      then show ?thesis using True less.prems S r(5) by (auto simp: same_env_def dgeq_def)
    next
      case nd: False
      have step: "next_heap lgl = next_heap ?l"
        using False r(1,3) nd by (subst next_heap.simps) (auto simp: lglmtstk_def decidable_def Let_def)
      have "size (mset (contents (dsched lgl))) = Suc (size (mset (contents s)))" unfolding r(4) by simp
      then have lt: "length (contents (dsched ?l)) < length (contents (dsched lgl))" by simp
      have sel: "dsched ?l = s" "qvars ?l = vs" "qstk ?l = qstk lgl" "qnext ?l = qnext lgl" "qmt ?l = qmt lgl"
        by simp_all
      have "\<exists>z l'. next_heap ?l = Some (z, l') \<and> d_ok l' \<and> same_env ?l l' \<and>
        qstk l' = qstk ?l \<and> qnext l' = qnext ?l \<and> qmt l' = qmt ?l \<and>
        (\<forall>y<nvars ?l. enqueued (qvars ?l ! y) \<longrightarrow> qvars l' ! y = qvars ?l ! y) \<and>
        (if \<exists>y\<in>set (contents (dsched ?l)). decidable ?l y
         then z \<in> set (contents (dsched ?l)) \<and> decidable ?l z \<and>
           (\<forall>y\<in>set (contents (dsched ?l)). decidable ?l y \<longrightarrow> dgeq ?l z y)
         else z = 0)"
        by (rule less.hyps [OF lt r(2)])
      then obtain z l' where l': "next_heap ?l = Some (z, l')" "d_ok l'" "same_env ?l l'"
        "qstk l' = qstk lgl" "qnext l' = qnext lgl" "qmt l' = qmt lgl"
        "\<forall>y<nvars ?l. enqueued (vs ! y) \<longrightarrow> qvars l' ! y = vs ! y"
        "if \<exists>y\<in>set (contents s). decidable ?l y
         then z \<in> set (contents s) \<and> decidable ?l z \<and> (\<forall>y\<in>set (contents s). decidable ?l y \<longrightarrow> dgeq ?l z y)
         else z = 0"
        unfolding sel by blast
      have en: "same_env lgl ?l"
        using d_same_fields [OF r(6)] same_length [OF r(6)] by (simp add: same_env_def nvars_def)
      have dec: "decidable ?l y = decidable lgl y" for y using same_env_decidable [OF en] .
      have geq: "dgeq ?l z y = dgeq lgl z y" if "z \<in> set (contents s)" "y \<in> set (contents s)" for y z
        using same_env_dkey [OF en] sched_contents_less [OF sk] that S by (simp add: dgeq_def nvars_def)
      have q: "qvars l' ! y = qvars lgl ! y" if "y < nvars lgl" "enqueued (qvars lgl ! y)" for y
      proof -
        have "y \<notin> set (contents (dsched lgl))" using less.prems that(2) unfolding d_ok_def d_heap_def by blast
        then have "vs ! y = qvars lgl ! y" using d_same_fields(4) [OF r(6)] that(1) by (simp add: nvars_def)
        then show ?thesis using l'(7) that en by (simp add: same_env_def)
      qed
      have fin: "if \<exists>y\<in>set (contents s). decidable lgl y
        then z \<in> set (contents s) \<and> decidable lgl z \<and> (\<forall>y\<in>set (contents s). decidable lgl y \<longrightarrow> dgeq lgl z y)
        else z = 0"
        using l'(8) geq unfolding dec by (auto split: if_splits)
      have x1: "(\<exists>y\<in>set (contents (dsched lgl)). decidable lgl y) = (\<exists>y\<in>set (contents s). decidable lgl y)"
        using nd unfolding S by blast
      have x2: "(\<forall>y\<in>set (contents (dsched lgl)). decidable lgl y \<longrightarrow> dgeq lgl z y) =
          (\<forall>y\<in>set (contents s). decidable lgl y \<longrightarrow> dgeq lgl z y)"
        using nd unfolding S by blast
      have "if \<exists>y\<in>set (contents (dsched lgl)). decidable lgl y
        then z \<in> set (contents (dsched lgl)) \<and> decidable lgl z \<and>
          (\<forall>y\<in>set (contents (dsched lgl)). decidable lgl y \<longrightarrow> dgeq lgl z y)
        else z = 0"
        unfolding x1 x2 using fin S by (simp split: if_splits)
      then show ?thesis
        using step l'(1,2,4-6) same_env_trans [OF en l'(3)] q by (intro exI [of _ z] exI [of _ l']) simp
    qed
  qed
qed

text \<open>
  The queue: looking downwards from qnext, cyclically, finds a slot j with a variable that can
  be decided on after as many steps as j is away.
\<close>

definition qdist :: "dlgl \<Rightarrow> nat \<Rightarrow> nat" where
  "qdist lgl j = nat ((qnext lgl - int j) mod int (ntop (qstk lgl)))"

lemma mod_pred:
  assumes "0 < (c::int)" "a mod c \<noteq> 0"
  shows "(a - 1) mod c = a mod c - 1"
proof -
  have "0 \<le> a mod c" "a mod c < c" using assms(1) by simp_all
  then have "0 \<le> a mod c - 1" "a mod c - 1 < c" using assms(2) by linarith+
  then have "(a mod c - 1) mod c = a mod c - 1" by (rule mod_pos_pos_trivial)
  then show ?thesis by (simp add: mod_diff_left_eq)
qed

lemma next_queue_ok:
  assumes "d_ok lgl" "0 \<le> qnext lgl" "qnext lgl < int (ntop (qstk lgl))" "j < ntop (qstk lgl)"
    "cells (qstk lgl) ! j \<noteq> 0" "decidable lgl (cells (qstk lgl) ! j)" "qdist lgl j < n"
  shows "\<exists>x lgl'. next_queue n lgl = Some (x, lgl') \<and> d_ok lgl' \<and> same_env lgl lgl' \<and>
    x \<noteq> 0 \<and> decidable lgl x \<and> enqueued (qvars lgl ! x) \<and> 2 \<le> x \<and> x < nvars lgl"
  using assms
proof (induction n arbitrary: lgl)
  case 0
  then show ?case by simp
next
  case (Suc n)
  let ?k = "nat (qnext lgl)" and ?c = "int (ntop (qstk lgl))"
  have me: "ntop (qstk lgl) \<le> length (cells (qstk lgl))" using Suc.prems(1) by (simp add: d_ok_def d_mem_def)
  have k: "?k < ntop (qstk lgl)" "int ?k = qnext lgl" using Suc.prems(2,3) by auto
  have pk: "lglpeek (qstk lgl) ?k = Some (cells (qstk lgl) ! ?k)" using k me by (simp add: lglpeek_def lglszstk_def)
  note D = conjunct2 [OF Suc.prems(1) [unfolded d_ok_def d_queue_def, THEN conjunct2, THEN conjunct1]]
  let ?x = "cells (qstk lgl) ! ?k"
  define step where "step = (\<lambda>lgl::dlgl. let nx = qnext lgl - 1
    in lgl\<lparr>qnext := (if nx < 0 then int (lglcntstk (qstk lgl)) - 1 else nx)\<rparr>)"
  have un: "next_queue (Suc n) lgl =
      (if ?x = 0 then next_queue n (step lgl)
       else if \<not> lglisfree lgl ?x then
         (case dequeue lgl ?x of None \<Rightarrow> None | Some lgl \<Rightarrow> next_queue n (step lgl))
       else if lglval lgl ?x = 0 then Some (?x, lgl)
       else next_queue n (step lgl))"
    unfolding next_queue.simps pk step_def [symmetric] by (simp add: Let_def)
  have go: "\<exists>x lgl'. next_queue n (step l) = Some (x, lgl') \<and> d_ok lgl' \<and> same_env lgl lgl' \<and>
      x \<noteq> 0 \<and> decidable lgl x \<and> enqueued (qvars lgl ! x) \<and> 2 \<le> x \<and> x < nvars lgl"
    if "d_ok l" "same_env lgl l" "qnext l = qnext lgl" "ntop (qstk l) = ntop (qstk lgl)" "?k \<noteq> j"
      "cells (qstk l) ! j = cells (qstk lgl) ! j" "\<And>y. enqueued (qvars l ! y) \<Longrightarrow> y < nvars lgl \<Longrightarrow> enqueued (qvars lgl ! y)" for l
  proof -
    have ok: "d_ok (step l)" using that(1)
      by (simp add: step_def Let_def d_ok_def d_heap_def d_queue_def d_mem_def nvars_def dshift_def)
    have env: "same_env lgl (step l)" using that(2) by (simp add: same_env_def step_def Let_def nvars_def)
    have nx: "qnext (step l) = (if qnext lgl = 0 then ?c - 1 else qnext lgl - 1)"
      using Suc.prems(2) that(3,4) by (auto simp: step_def Let_def lglcntstk_def)
    have b: "0 \<le> qnext (step l)" "qnext (step l) < int (ntop (qstk (step l)))"
      using Suc.prems(2,3) nx that(4) unfolding step_def Let_def by (auto split: if_splits)
    have c: "0 < ?c" using k(1) by simp
    have m: "(qnext (step l) - int j) mod ?c = (qnext lgl - int j - 1) mod ?c"
    proof (cases "qnext lgl = 0")
      case True
      then have "qnext (step l) - int j = (qnext lgl - int j - 1) + ?c" using nx by simp
      then show ?thesis by (simp only: mod_add_self2)
    next
      case False
      then have "qnext (step l) - int j = qnext lgl - int j - 1" using nx by simp
      then show ?thesis by (simp only:)
    qed
    have nz: "(qnext lgl - int j) mod ?c \<noteq> 0"
    proof
      assume "(qnext lgl - int j) mod ?c = 0"
      then have "qnext lgl mod ?c = int j mod ?c" by (simp add: mod_eq_dvd_iff mod_eq_0_iff_dvd)
      then show False using k Suc.prems(2,3,4) that(5) by (simp add: mod_pos_pos_trivial)
    qed
    have "0 \<le> (qnext lgl - int j) mod ?c" using c by simp
    then have "nat ((qnext (step l) - int j) mod ?c) < n"
      using Suc.prems(7) nz unfolding m mod_pred [OF c nz] qdist_def by linarith
    then have "qdist (step l) j < n" using that(4) by (simp add: qdist_def step_def Let_def)
    moreover have "decidable (step l) (cells (qstk (step l)) ! j)"
      using Suc.prems(6) that(6) same_env_decidable [OF env] by (simp add: step_def Let_def)
    moreover have T: "ntop (qstk l) = ntop (qstk lgl)" "cells (qstk l) ! j = cells (qstk lgl) ! j"
      by (rule that(4), rule that(6))
    ultimately obtain x l' where r: "next_queue n (step l) = Some (x, l')" "d_ok l'" "same_env (step l) l'"
      "x \<noteq> 0" "decidable (step l) x" "enqueued (qvars (step l) ! x)" "2 \<le> x" "x < nvars (step l)"
      using Suc.IH [OF ok b] Suc.prems(4,5) T by (auto simp: step_def Let_def)
    have "nvars (step l) = nvars lgl" using env by (simp add: same_env_def)
    then have lt: "x < nvars lgl" using r(8) by simp
    have "qvars (step l) = qvars l" by (simp add: step_def Let_def)
    then have "enqueued (qvars lgl ! x)" using r(6) that(7) lt by simp
    then show ?thesis
      using r(1,2,4,7) same_env_trans [OF env r(3)] r(5) [unfolded same_env_decidable [OF env]] lt by blast
  qed
  consider "?x = 0" | "?x \<noteq> 0" "\<not> lglisfree lgl ?x" | "?x \<noteq> 0" "lglisfree lgl ?x" "lglval lgl ?x = 0"
    | "?x \<noteq> 0" "lglisfree lgl ?x" "lglval lgl ?x \<noteq> 0" by blast
  then show ?case
  proof cases
    case 1
    then have "?k \<noteq> j" using Suc.prems(5) by auto
    then show ?thesis using un 1 go [of lgl] Suc.prems(1) by (simp add: same_env_def)
  next
    case 2
    have nj: "?k \<noteq> j" using 2 Suc.prems(6) by (auto simp: decidable_def)
    have x: "2 \<le> ?x" "?x < nvars lgl" "enqueued (qvars lgl ! ?x)" "pos (qvars lgl ! ?x) = int ?k"
      using D k(1) 2(1) by blast+
    obtain s vs where d: "dequeue lgl ?x = Some (lgl\<lparr>qstk := s, qmt := qmt lgl + 1, qvars := vs\<rparr>)"
      "d_ok (lgl\<lparr>qstk := s, qmt := qmt lgl + 1, qvars := vs\<rparr>)"
      "s = (qstk lgl)\<lparr>cells := (cells (qstk lgl))[nat (pos (qvars lgl ! ?x)) := 0]\<rparr>"
      "vs = (qvars lgl)[?x := (qvars lgl ! ?x)\<lparr>enqueued := False, pos := -1\<rparr>]"
      using dequeue_ok [OF Suc.prems(1) x(1-3)] by blast
    let ?l = "lgl\<lparr>qstk := s, qmt := qmt lgl + 1, qvars := vs\<rparr>"
    have "same_env lgl ?l" using x(2) unfolding d(4)
      by (auto simp: same_env_def nvars_def nth_list_update)
    moreover have "enqueued (qvars lgl ! y)" if "enqueued (vs ! y)" "y < nvars lgl" for y
      using that x(3) unfolding d(4) by (cases "y = ?x") (simp_all add: nvars_def)
    ultimately show ?thesis
      using go [OF d(2)] un 2 d(1) nj x(4) by (simp add: d(3))
  next
    case 3
    then show ?thesis using un Suc.prems(1) D k(1) by (auto simp: same_env_def decidable_def)
  next
    case 4
    then have "?k \<noteq> j" using Suc.prems(6) by (auto simp: decidable_def)
    then show ?thesis using un 4 go [of lgl] Suc.prems(1) by (simp add: same_env_def)
  qed
qed

text \<open>Changing a variable that is not scheduled leaves the schedule alone.\<close>

lemma d_heap_upd:
  assumes h: "d_heap l" and x: "x \<notin> set (contents (dsched l))"
    and q: "\<not> enqueued qv \<Longrightarrow> pos qv < 0"
  shows "d_heap (l\<lparr>qvars := (qvars l)[x := qv]\<rparr>)"
proof -
  let ?vs = "(qvars l)[x := qv]"
  have sk: "dheap.sched_ok (dshift l) (dsched l) (qvars l)" using h by (simp add: d_heap_def)
  have "dheap.sched_ok (dshift l) (dsched l) ?vs" by (rule dheap.sched_upd_out [OF sk x])
  moreover have "2 \<le> y \<and> \<not> enqueued (?vs ! y)" if "y \<in> set (contents (dsched l))" for y
  proof -
    have "x \<noteq> y" using that x by blast
    then show ?thesis using that h by (simp add: d_heap_def)
  qed
  moreover have "pos (?vs ! y) < 0"
    if y: "2 \<le> y" "y < nvars l" "\<not> enqueued (?vs ! y)" "y \<notin> set (contents (dsched l))" for y
  proof (cases "y = x")
    case True
    then show ?thesis using y q by (simp add: nvars_def)
  next
    case False
    then show ?thesis using y h by (simp add: d_heap_def)
  qed
  ultimately show ?thesis unfolding d_heap_def by (simp add: dshift_def nvars_def)
qed

text \<open>
  Flushing: the slots below q hold the free variables seen so far, the slots from p on are
  still to be read, and every queued variable is in one of the two parts.
\<close>

definition flush_inv :: "dlgl \<Rightarrow> dlgl \<Rightarrow> nat \<Rightarrow> nat \<Rightarrow> bool \<Rightarrow> bool" where
  "flush_inv lgl l p q found \<longleftrightarrow>
     q \<le> p \<and> p \<le> ntop (qstk l) \<and> d_heap l \<and> d_mem l \<and> same_env lgl l \<and>
     (\<forall>j<q. let y = cells (qstk l) ! j in 2 \<le> y \<and> y < nvars l \<and> enqueued (qvars l ! y) \<and> pos (qvars l ! y) = int j) \<and>
     (\<forall>j. p \<le> j \<and> j < ntop (qstk l) \<longrightarrow> (let y = cells (qstk l) ! j in
        y \<noteq> 0 \<longrightarrow> 2 \<le> y \<and> y < nvars l \<and> enqueued (qvars l ! y) \<and> pos (qvars l ! y) = int j)) \<and>
     (\<forall>x. 2 \<le> x \<and> x < nvars l \<and> enqueued (qvars l ! x) \<longrightarrow>
        (\<exists>j. (j < q \<or> p \<le> j \<and> j < ntop (qstk l)) \<and> pos (qvars l ! x) = int j \<and> cells (qstk l) ! j = x)) \<and>
     (\<forall>x. 2 \<le> x \<and> x < nvars l \<and> lglisfree lgl x \<longrightarrow> enqueued (qvars l ! x) = enqueued (qvars lgl ! x)) \<and>
     (found \<longrightarrow> 0 \<le> qnext l \<and> qnext l < int q)"

lemma flush_invD:
  assumes "flush_inv lgl l p q found"
  shows "q \<le> p" "p \<le> ntop (qstk l)" "d_heap l" "d_mem l" "same_env lgl l"
    and "j < q \<Longrightarrow> 2 \<le> cells (qstk l) ! j \<and> cells (qstk l) ! j < nvars l \<and>
      enqueued (qvars l ! (cells (qstk l) ! j)) \<and> pos (qvars l ! (cells (qstk l) ! j)) = int j"
    and "p \<le> j \<Longrightarrow> j < ntop (qstk l) \<Longrightarrow> cells (qstk l) ! j \<noteq> 0 \<Longrightarrow>
      2 \<le> cells (qstk l) ! j \<and> cells (qstk l) ! j < nvars l \<and>
      enqueued (qvars l ! (cells (qstk l) ! j)) \<and> pos (qvars l ! (cells (qstk l) ! j)) = int j"
    and "2 \<le> x \<Longrightarrow> x < nvars l \<Longrightarrow> enqueued (qvars l ! x) \<Longrightarrow>
      \<exists>j. (j < q \<or> p \<le> j \<and> j < ntop (qstk l)) \<and> pos (qvars l ! x) = int j \<and> cells (qstk l) ! j = x"
    and "2 \<le> x \<Longrightarrow> x < nvars l \<Longrightarrow> lglisfree lgl x \<Longrightarrow> enqueued (qvars l ! x) = enqueued (qvars lgl ! x)"
    and "found \<Longrightarrow> 0 \<le> qnext l \<and> qnext l < int q"
  using assms unfolding flush_inv_def Let_def by blast+

lemma flush_inv_skip:
  assumes "flush_inv lgl l p q found" "p < ntop (qstk l)" "cells (qstk l) ! p = 0"
  shows "flush_inv lgl l (Suc p) q found"
proof -
  note f = flush_invD [OF assms(1)]
  have "\<exists>j. (j < q \<or> Suc p \<le> j \<and> j < ntop (qstk l)) \<and> pos (qvars l ! x) = int j \<and> cells (qstk l) ! j = x"
    if x: "2 \<le> x" "x < nvars l" "enqueued (qvars l ! x)" for x
  proof -
    obtain j where "j < q \<or> p \<le> j \<and> j < ntop (qstk l)" "pos (qvars l ! x) = int j" "cells (qstk l) ! j = x"
      using f(8) [OF x] by blast
    moreover have "j \<noteq> p" using calculation(3) assms(3) x(1) by auto
    ultimately show ?thesis by (intro exI [of _ j]) auto
  qed
  then show ?thesis
    using f assms(2) unfolding flush_inv_def Let_def by (simp add: Suc_le_eq)
qed

lemma flush_inv_nonfree:
  assumes inv: "flush_inv lgl l p q found" and p: "p < ntop (qstk l)" and lit: "cells (qstk l) ! p = lit" "lit \<noteq> 0"
    and nf: "\<not> lglisfree l lit"
  shows "flush_inv lgl (l\<lparr>qvars := (qvars l)[lit := (qvars l ! lit)\<lparr>enqueued := False, pos := -1\<rparr>]\<rparr>) (Suc p) q found"
    (is "flush_inv lgl ?l _ _ _")
proof -
  note f = flush_invD [OF inv]
  have v: "2 \<le> lit" "lit < nvars l" "enqueued (qvars l ! lit)" "pos (qvars l ! lit) = int p"
    using f(7) [of p] p lit by auto
  have nin: "lit \<notin> set (contents (dsched l))" using f(3) v(3) unfolding d_heap_def by blast
  have h: "d_heap ?l" by (rule d_heap_upd [OF f(3) nin]) simp
  have me: "d_mem ?l" using f(4) by (simp add: d_mem_def)
  have n: "nvars ?l = nvars l" by (simp add: nvars_def)
  have en: "same_env lgl ?l"
  proof (rule same_env_trans [OF f(5)])
    show "same_env l ?l" using v(2) unfolding same_env_def by (auto simp: nvars_def nth_list_update)
  qed
  have other: "qvars ?l ! y = qvars l ! y" if "y \<noteq> lit" for y using that by simp
  have self: "\<not> enqueued (qvars ?l ! lit)" using v(2) by (simp add: nvars_def)
  have nl: "cells (qstk l) ! j \<noteq> lit" if "j \<noteq> p" "j < q \<or> p \<le> j \<and> j < ntop (qstk l)" for j
    using that f(6) [of j] f(7) [of j] v(1,4) by force
  have fr: "lglisfree l = lglisfree lgl" using f(5) by (simp add: same_env_def lglisfree_def fun_eq_iff)
  have qp: "j < q \<Longrightarrow> j \<noteq> p" for j using f(1) by simp
  have A: "j < q \<Longrightarrow> 2 \<le> cells (qstk l) ! j \<and> cells (qstk l) ! j < nvars l \<and>
      enqueued (qvars ?l ! (cells (qstk l) ! j)) \<and> pos (qvars ?l ! (cells (qstk l) ! j)) = int j" for j
    using f(6) [of j] other [OF nl [OF qp]] by simp
  have B: "Suc p \<le> j \<Longrightarrow> j < ntop (qstk l) \<Longrightarrow> cells (qstk l) ! j \<noteq> 0 \<Longrightarrow>
      2 \<le> cells (qstk l) ! j \<and> cells (qstk l) ! j < nvars l \<and>
      enqueued (qvars ?l ! (cells (qstk l) ! j)) \<and> pos (qvars ?l ! (cells (qstk l) ! j)) = int j" for j
    using f(7) [of j] other [OF nl [of j]] by simp
  have C: "\<exists>j. (j < q \<or> Suc p \<le> j \<and> j < ntop (qstk l)) \<and> pos (qvars ?l ! x) = int j \<and> cells (qstk l) ! j = x"
    if x: "2 \<le> x" "x < nvars l" "enqueued (qvars ?l ! x)" for x
  proof -
    have ne: "x \<noteq> lit" using x(3) self by blast
    then obtain j where "j < q \<or> p \<le> j \<and> j < ntop (qstk l)" "pos (qvars l ! x) = int j" "cells (qstk l) ! j = x"
      using f(8) [OF x(1,2)] x(3) other by auto
    moreover have "j \<noteq> p" using calculation(3) ne lit(1) by auto
    ultimately show ?thesis using other [OF ne] by (intro exI [of _ j]) auto
  qed
  have D: "enqueued (qvars ?l ! x) = enqueued (qvars lgl ! x)" if "2 \<le> x" "x < nvars l" "lglisfree lgl x" for x
  proof -
    have "x \<noteq> lit" using that(3) nf fr by auto
    then show ?thesis using f(9) [OF that] other by simp
  qed
  show ?thesis unfolding flush_inv_def Let_def n
    using f(1,10) p h me en A B C D by simp
qed

lemma flush_inv_free:
  assumes inv: "flush_inv lgl l p q found" and p: "p < ntop (qstk l)" and lit: "cells (qstk l) ! p = lit" "lit \<noteq> 0"
    and l': "qvars l' = (qvars l)[lit := (qvars l ! lit)\<lparr>pos := int q\<rparr>]" "qstk l' = (qstk l)\<lparr>cells := (cells (qstk l))[q := lit]\<rparr>"
      "dmem l' = dmem l" "dsched l' = dsched l" "vals l' = vals l" "types l' = types l" "dopts l' = dopts l"
    and nx: "found' \<Longrightarrow> 0 \<le> qnext l' \<and> qnext l' < int (Suc q)"
  shows "flush_inv lgl l' (Suc p) (Suc q) found'"
proof -
  note f = flush_invD [OF inv]
  have v: "2 \<le> lit" "lit < nvars l" "enqueued (qvars l ! lit)" "pos (qvars l ! lit) = int p"
    using f(7) [of p] p lit by auto
  have nin: "lit \<notin> set (contents (dsched l))" using f(3) v(3) unfolding d_heap_def by blast
  have "d_heap (l\<lparr>qvars := (qvars l)[lit := (qvars l ! lit)\<lparr>pos := int q\<rparr>]\<rparr>)"
    by (rule d_heap_upd [OF f(3) nin]) (use v(3) in simp)
  then have h: "d_heap l'" by (simp add: d_heap_def l' dshift_def nvars_def)
  have me: "d_mem l'" using f(4) by (simp add: d_mem_def l')
  have n: "nvars l' = nvars l" "ntop (qstk l') = ntop (qstk l)" by (simp_all add: nvars_def l')
  have en: "same_env lgl l'"
  proof (rule same_env_trans [OF f(5)])
    show "same_env l l'" using v(2) unfolding same_env_def by (auto simp: nvars_def nth_list_update l')
  qed
  have ql: "q < length (cells (qstk l))" using f(1,4) p by (simp add: d_mem_def)
  have cq: "cells (qstk l') ! j = (if j = q then lit else cells (qstk l) ! j)" for j
    using ql by (simp add: l')
  have other: "qvars l' ! y = qvars l ! y" if "y \<noteq> lit" for y using that by (simp add: l')
  have self: "enqueued (qvars l' ! lit)" "pos (qvars l' ! lit) = int q" using v(2,3) by (simp_all add: nvars_def l')
  have nl: "cells (qstk l) ! j \<noteq> lit" if "j \<noteq> p" "j < q \<or> p \<le> j \<and> j < ntop (qstk l)" for j
    using that f(6) [of j] f(7) [of j] v(1,4) by force
  have qp: "j < q \<Longrightarrow> j \<noteq> p" for j using f(1) by simp
  have A: "2 \<le> cells (qstk l') ! j \<and> cells (qstk l') ! j < nvars l \<and>
      enqueued (qvars l' ! (cells (qstk l') ! j)) \<and> pos (qvars l' ! (cells (qstk l') ! j)) = int j" if "j < Suc q" for j
  proof (cases "j = q")
    case True
    then show ?thesis using self v by (simp add: cq)
  next
    case False
    then have "j < q" using that by simp
    then show ?thesis using f(6) [of j] other [OF nl [OF qp, of j]] False by (simp add: cq)
  qed
  have B: "2 \<le> cells (qstk l') ! j \<and> cells (qstk l') ! j < nvars l \<and>
      enqueued (qvars l' ! (cells (qstk l') ! j)) \<and> pos (qvars l' ! (cells (qstk l') ! j)) = int j"
    if j: "Suc p \<le> j" "j < ntop (qstk l)" "cells (qstk l') ! j \<noteq> 0" for j
  proof -
    have jq: "j \<noteq> q" "j \<noteq> p" using j(1) f(1) by auto
    then show ?thesis using j f(7) [of j] other [OF nl [OF jq(2)]] by (simp add: cq)
  qed
  have C: "\<exists>j. (j < Suc q \<or> Suc p \<le> j \<and> j < ntop (qstk l)) \<and> pos (qvars l' ! x) = int j \<and> cells (qstk l') ! j = x"
    if x: "2 \<le> x" "x < nvars l" "enqueued (qvars l' ! x)" for x
  proof (cases "x = lit")
    case True
    then show ?thesis using self by (intro exI [of _ q]) (simp add: cq)
  next
    case False
    then obtain j where j: "j < q \<or> p \<le> j \<and> j < ntop (qstk l)" "pos (qvars l ! x) = int j" "cells (qstk l) ! j = x"
      using f(8) [OF x(1,2)] x(3) other by auto
    moreover have "j \<noteq> p" using j(3) False lit(1) by auto
    ultimately show ?thesis using other [OF False] f(1) by (intro exI [of _ j]) (auto simp: cq)
  qed
  have D: "enqueued (qvars l' ! x) = enqueued (qvars lgl ! x)" if "2 \<le> x" "x < nvars l" "lglisfree lgl x" for x
    using f(9) [OF that] other [of x] self v(3) by (cases "x = lit") auto
  show ?thesis unfolding flush_inv_def Let_def n
    using f(1) p h me en A B C D nx by simp
qed

lemma flush_loop_ok:
  "flush_inv lgl l p q found \<Longrightarrow> \<exists>l' q' f'. flush_loop l p q found = (l', q', f') \<and>
     flush_inv lgl l' (ntop (qstk l')) q' f'"
proof (induction "ntop (qstk l) - p" arbitrary: l p q found rule: less_induct)
  case less
  note inv = less.prems
  let ?lit = "cells (qstk l) ! p" and ?qv = "qvars l ! (cells (qstk l) ! p)"
  show ?case
  proof (cases "p < ntop (qstk l)")
    case False
    then have "p = ntop (qstk l)" using flush_invD(2) [OF inv] by simp
    then show ?thesis using inv False by (subst flush_loop.simps) simp
  next
    case p: True
    have dec: "ntop (qstk l) - Suc p < ntop (qstk l) - p" using p by simp
    consider "?lit = 0" | "?lit \<noteq> 0" "\<not> lglisfree l ?lit" | "?lit \<noteq> 0" "lglisfree l ?lit" by blast
    then show ?thesis
    proof cases
      case 1
      then have "flush_loop l p q found = flush_loop l (Suc p) q found"
        using p by (subst flush_loop.simps) simp
      then show ?thesis using less.hyps [OF dec flush_inv_skip [OF inv p 1]] by simp
    next
      case 2
      let ?l = "l\<lparr>qvars := (qvars l)[?lit := ?qv\<lparr>enqueued := False, pos := -1\<rparr>]\<rparr>"
      have "flush_loop l p q found = flush_loop ?l (Suc p) q found"
        using p 2 by (subst flush_loop.simps) (simp add: Let_def)
      moreover have "ntop (qstk ?l) - Suc p < ntop (qstk l) - p" using dec by simp
      ultimately show ?thesis
        using less.hyps [OF _ flush_inv_nonfree [OF inv p refl 2]] by simp
    next
      case 3
      let ?hit = "\<not> found \<and> qnext l \<ge> int p"
      let ?l1 = "l\<lparr>qvars := (qvars l)[?lit := ?qv\<lparr>pos := int q\<rparr>]\<rparr>"
      let ?l2 = "if ?hit then ?l1\<lparr>qnext := int q\<rparr> else ?l1"
      let ?l = "?l2\<lparr>qstk := (qstk ?l2)\<lparr>cells := (cells (qstk ?l2))[q := ?lit]\<rparr>\<rparr>"
      have "flush_loop l p q found = flush_loop ?l (Suc p) (Suc q) (found \<or> ?hit)"
        using p 3 by (subst flush_loop.simps) (simp add: Let_def)
      moreover have "flush_inv lgl ?l (Suc p) (Suc q) (found \<or> ?hit)"
        by (rule flush_inv_free [OF inv p refl 3(1)]) (use flush_invD(10) [OF inv] in auto)
      moreover have "ntop (qstk ?l) - Suc p < ntop (qstk l) - p" using dec by simp
      ultimately show ?thesis using less.hyps [of ?l "Suc p" "Suc q" "found \<or> ?hit"] by simp
    qed
  qed
qed

text \<open>Flushing the queue drops empty slots and variables that are no longer free, and nothing else.\<close>

lemma lglqueueflush_ok:
  assumes ok: "d_ok lgl"
  shows "d_ok (lglqueueflush lgl) \<and> same_env lgl (lglqueueflush lgl) \<and>
    (\<forall>j<ntop (qstk (lglqueueflush lgl)). cells (qstk (lglqueueflush lgl)) ! j \<noteq> 0) \<and>
    (\<forall>x. 2 \<le> x \<and> x < nvars lgl \<and> lglisfree lgl x \<longrightarrow>
       enqueued (qvars (lglqueueflush lgl) ! x) = enqueued (qvars lgl ! x)) \<and>
    (0 < ntop (qstk (lglqueueflush lgl)) \<longrightarrow>
       0 \<le> qnext (lglqueueflush lgl) \<and> qnext (lglqueueflush lgl) < int (ntop (qstk (lglqueueflush lgl))))"
proof -
  note D = ok [unfolded d_ok_def d_queue_def]
  have "flush_inv lgl lgl 0 0 False"
    unfolding flush_inv_def Let_def
  proof (intro conjI allI impI)
    fix x assume x: "2 \<le> x \<and> x < nvars lgl \<and> enqueued (qvars lgl ! x)"
    then have "0 \<le> pos (qvars lgl ! x)" "nat (pos (qvars lgl ! x)) < ntop (qstk lgl)"
      "cells (qstk lgl) ! nat (pos (qvars lgl ! x)) = x" using D by blast+
    then show "\<exists>j. (j < 0 \<or> 0 \<le> j \<and> j < ntop (qstk lgl)) \<and> pos (qvars lgl ! x) = int j \<and> cells (qstk lgl) ! j = x"
      by (intro exI [of _ "nat (pos (qvars lgl ! x))"]) simp
  qed (use D in \<open>simp_all add: same_env_def\<close>)
  then obtain l q f where r: "flush_loop lgl 0 0 False = (l, q, f)" "flush_inv lgl l (ntop (qstk l)) q f"
    using flush_loop_ok by blast
  note i = flush_invD [OF r(2)]
  let ?n = "if f then qnext l else int q - 1"
  have fl: "lglqueueflush lgl = l\<lparr>qstk := (qstk l)\<lparr>ntop := q\<rparr>, qnext := ?n, qmt := 0\<rparr>"
    using r(1) by (simp add: lglqueueflush_def Let_def lglcntstk_def)
  have "d_queue (lglqueueflush lgl)"
    unfolding d_queue_def fl
  proof (intro conjI allI impI, simp_all add: nvars_def)
    fix x assume x: "2 \<le> x \<and> x < length (qvars l) \<and> enqueued (qvars l ! x)"
    then obtain j where "j < q" "pos (qvars l ! x) = int j" "cells (qstk l) ! j = x"
      using i(8) [of x] by (auto simp: nvars_def)
    then show "0 \<le> pos (qvars l ! x)" "nat (pos (qvars l ! x)) < q" "cells (qstk l) ! nat (pos (qvars l ! x)) = x"
      by simp_all
  qed (use i(6) in \<open>auto simp: nvars_def\<close>)
  moreover have "d_heap (lglqueueflush lgl)" using i(3) unfolding fl by (simp add: d_heap_def nvars_def dshift_def)
  moreover have "d_mem (lglqueueflush lgl)" using i(1,4) unfolding fl by (simp add: d_mem_def)
  moreover have "same_env lgl (lglqueueflush lgl)" using i(5) unfolding fl by (simp add: same_env_def nvars_def)
  moreover have n: "nvars l = nvars lgl" using i(5) by (simp add: same_env_def)
  moreover have "cells (qstk l) ! j \<noteq> 0" if "j < q" for j using i(6) [OF that] by auto
  moreover have "0 < q \<longrightarrow> 0 \<le> ?n \<and> ?n < int q" using i(10) by (cases f) auto
  ultimately show ?thesis using i(9) unfolding fl d_ok_def by (simp add: nvars_def)
qed

section \<open>Properties\<close>

text \<open>
  C15: The decision heap sorts.  Scheduling distinct variables on an empty schedule and popping as
  many returns them all, none twice, by descending importance and score: every variable returned
  compares at least as high (lgldcmp) as those returned after it.
\<close>

theorem dsched_sorts:
  assumes "d_ok lgl" "contents (dsched lgl) = []" "distinct xs"
    and "\<forall>x\<in>set xs. 2 \<le> x \<and> x < nvars lgl \<and> \<not> enqueued (qvars lgl ! x)"
  shows "\<exists>l1 ys l2. pushes lgldsched lgl xs = Some l1 \<and> pops lglpopdsched l1 (length xs) = Some (ys, l2) \<and>
    mset ys = mset xs \<and> sorted_wrt (\<lambda>x y. 0 \<le> lgldcmp (dshift lgl) (qvars lgl ! x) (qvars lgl ! y)) ys \<and>
    contents (dsched l2) = [] \<and> d_ok l2"
proof -
  obtain l1 where l1: "pushes lgldsched lgl xs = Some l1" "d_ok l1" "mset (contents (dsched l1)) = mset xs"
    "same (qvars lgl) (qvars l1) UNIV" "dshift l1 = dshift lgl"
    using lgldsched_all [OF assms(1,3)] assms(2,4) by auto
  have n: "length (contents (dsched l1)) = length xs" using l1(3) by (metis size_mset)
  obtain ys l2 where l2: "pops lglpopdsched l1 (length xs) = Some (ys, l2)" "d_ok l2" "contents (dsched l2) = []"
    "mset ys = mset (contents (dsched l1))" "sorted_wrt (dgeq l1) ys"
    using lglpopdsched_all [OF l1(2) n] by blast
  have S: "set ys = set xs" using l2(4) l1(3) by (metis set_mset_mset)
  have "0 \<le> lgldcmp (dshift lgl) (qvars lgl ! x) (qvars lgl ! y)" if "x \<in> set ys" "y \<in> set ys" "dgeq l1 x y" for x y
  proof -
    have "x < length (qvars lgl)" "y < length (qvars lgl)" using that(1,2) S assms(4) by (auto simp: nvars_def)
    then have "dkey (dshift lgl) (qvars lgl ! y) \<le> dkey (dshift lgl) (qvars lgl ! x)"
      using that(3) dkey_same [OF l1(4)] by (simp add: dgeq_def l1(5))
    then show ?thesis by (auto simp: dkey_def lgldcmp_def lglscrcmp_def Let_def)
  qed
  then have "sorted_wrt (\<lambda>x y. 0 \<le> lgldcmp (dshift lgl) (qvars lgl ! x) (qvars lgl ! y)) ys"
    by (rule sorted_wrt_mono_rel [OF _ l2(5)])
  then show ?thesis using l1 l2 by auto
qed

text \<open>A state for examples: five slots, the variables 2 to 4 with scores, nothing scheduled.\<close>

definition ex_qv :: "u64 \<Rightarrow> QVar" where
  "ex_qv sc = \<lparr>pos = -1, score = sc, enqueued = False, important = False, glag = 0\<rparr>"

definition ex_state :: dlgl where
  "ex_state = \<lparr>dmem = \<lparr>current = 0, maxbytes = 0\<rparr>, dopts = [], vals = [0, 0, 0, 0, 0],
     types = [FREEVAR, FREEVAR, FREEVAR, FREEVAR, FREEVAR], unassigned = 3,
     qvars = [ex_qv 0, ex_qv 0, ex_qv 7, ex_qv 9, ex_qv 8],
     dsched = \<lparr>cells = [], ntop = 0\<rparr>, qstk = \<lparr>cells = [], ntop = 0\<rparr>, qnext = -1, qmt = 0,
     scinc = lglflt 0 1, scincf = 0, maxscore = lglflt DEFSCOREXP 1, minscore = lglflt (- DEFSCOREXP) 1,
     scincinc = 0, simp_mode = False, confs = 0\<rparr>"

lemma flt_consts:
  "lglflt (- DEFSCOREXP) 1 = 1152919219684245504" "lglflt DEFSCOREXP 1 = 1152923514651541504"
  "lglflt (-600) 1 = 1152918790187515904" "lglflt 100 1 = 1152921796664623104"
  "lglflt 1 1 = 1152921371462860800" "lglflt 2 3 = 1152921382200279040"
  by code_simp+

lemma d_below_5: "2 \<le> x \<Longrightarrow> x < 5 \<Longrightarrow> x = 2 \<or> x = 3 \<or> x = (4::nat)"
  by auto

lemma ex_state_ok: "d_ok ex_state"
  by (auto simp: d_ok_def d_heap_def d_queue_def d_mem_def mem_ok_def ex_state_def nvars_def contents_def
      dheap.sched_ok_def hp_ok_def heap_ord_def ex_qv_def dest: d_below_5)

theorem dsched_sorts_witness:
  "\<exists>l1 ys l2. pushes lgldsched ex_state [2, 3, 4] = Some l1 \<and>
    pops lglpopdsched l1 (length [2, 3, 4 :: nat]) = Some (ys, l2) \<and>
    mset ys = mset [2, 3, 4] \<and>
    sorted_wrt (\<lambda>x y. 0 \<le> lgldcmp (dshift ex_state) (qvars ex_state ! x) (qvars ex_state ! y)) ys \<and>
    contents (dsched l2) = [] \<and> d_ok l2"
proof (rule dsched_sorts [OF ex_state_ok])
  show "contents (dsched ex_state) = []" by (simp add: ex_state_def contents_def)
  show "\<forall>x\<in>set [2, 3, 4]. 2 \<le> x \<and> x < nvars ex_state \<and> \<not> enqueued (qvars ex_state ! x)"
    by (simp add: ex_state_def ex_qv_def nvars_def)
qed simp


definition ex_bump :: dlgl where
  "ex_bump = ex_state\<lparr>qvars := [ex_qv 0, ex_qv 0, ex_qv (lglflt 1 1), ex_qv 0, ex_qv 0], scinc := lglflt 2 3\<rparr>"

lemma ex_bump_ok: "d_ok ex_bump"
  by (auto simp: d_ok_def d_heap_def d_queue_def d_mem_def mem_ok_def ex_bump_def ex_state_def nvars_def contents_def
      dheap.sched_ok_def hp_ok_def heap_ord_def ex_qv_def dest: d_below_5)


text \<open>
  C16: Looking for a decision always ends with one.  If some unassigned free variable is scheduled
  or queued, lglnextdecision returns an unassigned free variable: one of the highest priority
  among those scheduled, if there is any, and else one from the queue.  The data structures stay
  consistent, and scores and assignments are not touched.
\<close>

theorem lglnextdecision_correct:
  assumes ok: "d_ok lgl" and un: "unassigned lgl \<noteq> 0"
    and qn: "0 \<le> qnext lgl" "qnext lgl < int (ntop (qstk lgl))"
    and y: "2 \<le> y" "y < nvars lgl" "decidable lgl y" "y \<in> set (contents (dsched lgl)) \<or> enqueued (qvars lgl ! y)"
  shows "\<exists>x lgl'. lglnextdecision lgl = Some (x, lgl') \<and> d_ok lgl' \<and> same_env lgl lgl' \<and> decidable lgl x \<and>
    (if \<exists>z\<in>set (contents (dsched lgl)). decidable lgl z
     then x \<in> set (contents (dsched lgl)) \<and> (\<forall>z\<in>set (contents (dsched lgl)). decidable lgl z \<longrightarrow> dgeq lgl x z)
     else enqueued (qvars lgl ! x))"
proof -
  obtain x l where nh: "next_heap lgl = Some (x, l)" "d_ok l" "same_env lgl l"
    "qstk l = qstk lgl" "qnext l = qnext lgl" "qmt l = qmt lgl"
    "\<forall>y<nvars lgl. enqueued (qvars lgl ! y) \<longrightarrow> qvars l ! y = qvars lgl ! y"
    "if \<exists>y\<in>set (contents (dsched lgl)). decidable lgl y
     then x \<in> set (contents (dsched lgl)) \<and> decidable lgl x \<and>
       (\<forall>y\<in>set (contents (dsched lgl)). decidable lgl y \<longrightarrow> dgeq lgl x y)
     else x = 0"
    using next_heap_ok [OF ok] by blast
  show ?thesis
  proof (cases "\<exists>z\<in>set (contents (dsched lgl)). decidable lgl z")
    case True
    then have x: "x \<in> set (contents (dsched lgl))" "decidable lgl x"
      "\<forall>y\<in>set (contents (dsched lgl)). decidable lgl y \<longrightarrow> dgeq lgl x y"
      using nh(8) [unfolded if_P [OF True]] by blast+
    have "x \<noteq> 0" using x(1) ok unfolding d_ok_def d_heap_def by fastforce
    then have "lglnextdecision lgl = Some (x, l)" using nh(1) un by (simp add: lglnextdecision_def)
    then show ?thesis using True nh(2,3) x by (intro exI [of _ x] exI [of _ l]) simp
  next
    case False
    then have x0: "x = 0" using nh(8) by argo
    have e: "enqueued (qvars lgl ! y)" using False y(3,4) by blast
    define L where "L = (if int (lglcntstk (qstk l)) < 2 * qmt l then lglqueueflush l else l)"
    have el: "enqueued (qvars l ! y)" using nh(7) e y(2) by simp
    have yl: "y < nvars l" using nh(3) y(2) by (simp add: same_env_def)
    have dl: "decidable l y" using same_env_decidable [OF nh(3)] y(3) by simp
    have fl: "d_ok L \<and> same_env l L \<and> enqueued (qvars L ! y) \<and>
        (0 < ntop (qstk L) \<longrightarrow> 0 \<le> qnext L \<and> qnext L < int (ntop (qstk L)))"
      using lglqueueflush_ok [OF nh(2)] nh(2,4,5) qn el y(1) yl dl
      by (simp add: L_def same_env_def decidable_def)
    have n: "nvars L = nvars lgl" using fl nh(3) by (simp add: same_env_def)
    let ?j = "nat (pos (qvars L ! y))"
    have j: "?j < ntop (qstk L)" "cells (qstk L) ! ?j = y"
    proof -
      have "d_queue L" "enqueued (qvars L ! y)" "y < nvars L" using fl y(2) n by (simp_all add: d_ok_def)
      then show "?j < ntop (qstk L)" "cells (qstk L) ! ?j = y" using y(1) unfolding d_queue_def by blast+
    qed
    have en: "same_env lgl L" using same_env_trans [OF nh(3)] fl by blast
    have "qdist L ?j < ntop (qstk L)" using j(1) by (simp add: qdist_def nat_less_iff)
    moreover have "decidable L y" using same_env_decidable [OF en] y(3) by simp
    ultimately obtain x' l' where q: "next_queue (ntop (qstk L)) L = Some (x', l')" "d_ok l'" "same_env L l'"
      "x' \<noteq> 0" "decidable L x'" "enqueued (qvars L ! x')" "2 \<le> x'" "x' < nvars L"
      using next_queue_ok [of L ?j] fl j y(1) by fastforce
    have x': "x' < nvars l" "lglisfree l x'"
      using q(5,8) fl by (simp_all add: same_env_def decidable_def lglisfree_def)
    have "enqueued (qvars l ! x')"
      using q(6,7) x' lglqueueflush_ok [OF nh(2)] by (simp add: L_def split: if_splits)
    then have "nat (pos (qvars l ! x')) < ntop (qstk lgl)" "cells (qstk lgl) ! nat (pos (qvars l ! x')) = x'"
      using nh(2,4) q(7) x'(1) unfolding d_ok_def d_queue_def by metis+
    then have "enqueued (qvars lgl ! x')" using ok q(4) unfolding d_ok_def d_queue_def by metis
    moreover have "\<not> lglmtstk (qstk l)" using nh(4) qn by (simp add: lglmtstk_def)
    moreover have "decidable lgl x'" using q(5) same_env_decidable [OF en] by simp
    moreover have "lglnextdecision lgl = Some (x', l')" if "\<not> lglmtstk (qstk l)"
      using that nh(1) x0 un q(1) by (simp add: lglnextdecision_def lglcntstk_def Let_def L_def)
    ultimately show ?thesis using False q(2) same_env_trans [OF en q(3)]
      by (intro exI [of _ x'] exI [of _ l']) simp
  qed
qed

text \<open>An example: variable 3 is scheduled, 2 and 4 are queued, and 3 is assigned.\<close>

definition ex_decide :: dlgl where
  "ex_decide = ex_state\<lparr>dmem := \<lparr>current = 12, maxbytes = 12\<rparr>, vals := [0, 0, 0, 1, 0], unassigned := 2,
     qvars := [ex_qv 0, ex_qv 0, (ex_qv 7)\<lparr>enqueued := True, pos := 0\<rparr>, (ex_qv 9)\<lparr>pos := 0\<rparr>,
       (ex_qv 8)\<lparr>enqueued := True, pos := 1\<rparr>],
     dsched := \<lparr>cells = [3], ntop = 1\<rparr>, qstk := \<lparr>cells = [2, 4], ntop = 2\<rparr>, qnext := 1\<rparr>"

lemma ex_decide_ok: "d_ok ex_decide"
proof -
  have "d_heap ex_decide"
    by (auto simp: d_heap_def ex_decide_def ex_state_def nvars_def contents_def
        dheap.sched_ok_def hp_ok_def heap_ord_def ex_qv_def dest: d_below_5)
  moreover have "d_queue ex_decide"
    by (auto simp: d_queue_def ex_decide_def ex_state_def nvars_def ex_qv_def less_Suc_eq numeral_2_eq_2 dest!: d_below_5)
  moreover have "d_mem ex_decide" by (simp add: d_mem_def ex_decide_def mem_ok_def)
  ultimately show ?thesis by (simp add: d_ok_def)
qed

theorem lglnextdecision_correct_witness:
  "\<exists>x lgl'. lglnextdecision ex_decide = Some (x, lgl') \<and> d_ok lgl' \<and> same_env ex_decide lgl' \<and> decidable ex_decide x \<and>
    (if \<exists>z\<in>set (contents (dsched ex_decide)). decidable ex_decide z
     then x \<in> set (contents (dsched ex_decide)) \<and>
       (\<forall>z\<in>set (contents (dsched ex_decide)). decidable ex_decide z \<longrightarrow> dgeq ex_decide x z)
     else enqueued (qvars ex_decide ! x))"
proof (rule lglnextdecision_correct [OF ex_decide_ok, where y = 4])
  show "decidable ex_decide 4" by (simp add: decidable_def lglval_def lglisfree_def ex_decide_def ex_state_def)
  show "4 \<in> set (contents (dsched ex_decide)) \<or> enqueued (qvars ex_decide ! 4)" by (simp add: ex_decide_def)
qed (simp_all add: ex_decide_def nvars_def)

lemma rescore_inverts:
  assumes "0 < sint s" "sint s \<le> sint mn" "sint mn < sint t" "sint mn < sint (lglshflt t DEFSCOREXP)"
    and mn: "mn = lglflt (- DEFSCOREXP) 1"
  shows "sint (rescore mn t) < sint (rescore mn s)"
proof -
  have m: "2 ^ 31 \<le> sint mn" unfolding mn flt_consts by code_simp
  have "rescore mn s = mn" using assms(1,2) by (auto simp: rescore_def Let_def FLTMIN_def)
  moreover have "rescore mn t = signed_drop_bit 32 t"
    using assms(3,4) m by (auto simp: rescore_def Let_def FLTMIN_def)
  moreover have "sint (signed_drop_bit 32 t) < 2 ^ 31"
  proof -
    have "sint t < 9223372036854775808" using sint_lt [of t] by simp
    then have "sint t div 4294967296 \<le> 9223372036854775807 div 4294967296" by (intro zdiv_mono1) simp_all
    then show ?thesis by (simp add: sint_signed_drop_bit_eq drop_bit_eq_div)
  qed
  ultimately show ?thesis using m by simp
qed

text \<open>
  Rescaling the scores inverts their order.  A variable whose scaled score is above the
  minimum score gets the high half of its old score instead of the scaled score, which is below
  the minimum score that every variable with a smaller score gets: of two such variables the one
  with the lower score before the rescaling has the higher score after it.
\<close>

theorem lglrescorevars_inverts:
  assumes "d_ok lgl" "minscore lgl = lglflt (- DEFSCOREXP) 1" "0 < sint (lglshflt (scinc lgl) DEFSCOREXP)"
    and x: "2 \<le> x" "x < nvars lgl" "\<not> enqueued (qvars lgl ! x)"
      "0 < sint (score (qvars lgl ! x))" "sint (score (qvars lgl ! x)) \<le> sint (minscore lgl)"
    and y: "2 \<le> y" "y < nvars lgl" "\<not> enqueued (qvars lgl ! y)"
      "sint (minscore lgl) < sint (score (qvars lgl ! y))"
      "sint (minscore lgl) < sint (lglshflt (score (qvars lgl ! y)) DEFSCOREXP)"
  shows "sint (score (qvars lgl ! x)) < sint (score (qvars lgl ! y)) \<and>
    (\<exists>lgl'. lglrescorevars lgl = Some lgl' \<and> sint (score (qvars lgl' ! y)) < sint (score (qvars lgl' ! x)))"
proof -
  obtain l where l: "lglrescorevars lgl = Some l"
    "same (rescored lgl) (qvars l) {x. 2 \<le> x \<and> x < nvars lgl \<and> \<not> enqueued (qvars lgl ! x)}"
    using lglrescorevars_ok [of lgl] assms(1,3) d_heap_loose unfolding d_ok_def by blast
  have "score (qvars l ! z) = rescore (minscore lgl) (score (qvars lgl ! z))"
    if "2 \<le> z" "z < nvars lgl" "\<not> enqueued (qvars lgl ! z)" for z
    using d_same_fields(1) [OF l(2), of z] that by (simp add: rescored_nth nvars_def)
  then show ?thesis using l(1) rescore_inverts [OF x(4,5) y(4,5) assms(2)] x y by auto
qed

definition ex_rescore :: dlgl where
  "ex_rescore = ex_state\<lparr>qvars := [ex_qv 0, ex_qv 0, ex_qv (lglflt (-600) 1), ex_qv (lglflt 100 1), ex_qv 0],
     scinc := lglflt DEFSCOREXP 1\<rparr>"

lemma ex_rescore_ok: "d_ok ex_rescore"
  by (auto simp: d_ok_def d_heap_def d_queue_def d_mem_def mem_ok_def ex_rescore_def ex_state_def nvars_def contents_def
      dheap.sched_ok_def hp_ok_def heap_ord_def ex_qv_def dest: d_below_5)

theorem lglrescorevars_inverts_witness:
  "sint (score (qvars ex_rescore ! 2)) < sint (score (qvars ex_rescore ! 3)) \<and>
    (\<exists>lgl'. lglrescorevars ex_rescore = Some lgl' \<and> sint (score (qvars lgl' ! 3)) < sint (score (qvars lgl' ! 2)))"
proof (rule lglrescorevars_inverts [OF ex_rescore_ok])
  note e = ex_rescore_def ex_state_def ex_qv_def
  show "minscore ex_rescore = lglflt (- DEFSCOREXP) 1" by (simp add: e)
  have "0 < sint (lglshflt (lglflt DEFSCOREXP 1) DEFSCOREXP)" unfolding flt_consts by code_simp
  then show "0 < sint (lglshflt (scinc ex_rescore) DEFSCOREXP)" by (simp add: e)
  have "0 < sint (lglflt (-600) 1)" unfolding flt_consts by code_simp
  then show "0 < sint (score (qvars ex_rescore ! 2))" by (simp add: e)
  have "sint (lglflt (-600) 1) \<le> sint (lglflt (- DEFSCOREXP) 1)" unfolding flt_consts by code_simp
  then show "sint (score (qvars ex_rescore ! 2)) \<le> sint (minscore ex_rescore)" by (simp add: e)
  have "sint (lglflt (- DEFSCOREXP) 1) < sint (lglflt 100 1)" unfolding flt_consts by code_simp
  then show "sint (minscore ex_rescore) < sint (score (qvars ex_rescore ! 3))" by (simp add: e)
  have "sint (lglflt (- DEFSCOREXP) 1) < sint (lglshflt (lglflt 100 1) DEFSCOREXP)" unfolding flt_consts by code_simp
  then show "sint (minscore ex_rescore) < sint (lglshflt (score (qvars ex_rescore ! 3)) DEFSCOREXP)" by (simp add: e)
qed (simp_all add: ex_rescore_def ex_qv_def nvars_def)

end
