(* ===== verification/Lgl_Touch.thy ===== *)
theory Lgl_Touch
  imports Lgl_Stk
begin

text \<open>
  The stack of touched variables of the eliminator in src/painless-v2/lingeling/lglib.c:
  lglflushtouched, lgltouch, lglpoptouched and lgltouched.  A variable is touched by pushing it
  again; its old slot is emptied (0), and empty slots are squeezed out when there are more of
  them than variables.  The stack refines a list without repetitions, least recently touched
  first.
\<close>

section \<open>The operations\<close>

record touched =
  tpos :: "int list"
  tstk :: "nat stk"
  tmt :: int
  tnvars :: int

function tflush_loop :: "nat list \<Rightarrow> int list \<Rightarrow> nat \<Rightarrow> nat \<Rightarrow> int \<Rightarrow> nat \<Rightarrow> nat list \<times> int list \<times> nat \<times> int" where
  "tflush_loop cs ps p q mt tp =
     (if p < tp
      then let idx = cs ! p
           in if idx \<noteq> 0 then tflush_loop (cs[q := idx]) (ps[idx := int q]) (Suc p) (Suc q) mt tp
              else tflush_loop cs ps (Suc p) q (mt + 1) tp
      else (cs, ps, q, mt))"
  by pat_completeness auto
termination by (relation "measure (\<lambda>(cs, ps, p, q, mt, tp). tp - p)") auto

declare tflush_loop.simps [simp del]

definition lglflushtouched :: "touched \<Rightarrow> touched option" where
  "lglflushtouched t =
     (let (cs, ps, q, mt) = tflush_loop (cells (tstk t)) (tpos t) 0 0 0 (ntop (tstk t))
      in if tmt t \<noteq> mt then None
         else Some (t\<lparr>tpos := ps, tmt := 0, tstk := \<lparr>cells = cs, ntop = q\<rparr>\<rparr>))"

definition lgltouch :: "mem \<Rightarrow> touched \<Rightarrow> nat \<Rightarrow> (mem \<times> touched) option" where
  "lgltouch b t idx =
     (if \<not> idx < length (tpos t) then None
      else
        let oldpos = tpos t ! idx; newpos = int (lglcntstk (tstk t))
        in if \<not> (oldpos < 0 \<or> lglpeek (tstk t) (nat oldpos) = Some idx) then None
           else do {
             (b, s) \<leftarrow> push 4 0 b (tstk t) idx;
             let t = t\<lparr>tstk := s, tpos := (tpos t)[idx := newpos]\<rparr>;
             if oldpos \<ge> 0
             then do {
               s \<leftarrow> lglpoke (tstk t) (nat oldpos) 0;
               let t = t\<lparr>tstk := s, tmt := tmt t + 1\<rparr>;
               t \<leftarrow> (if tmt t > tnvars t then lglflushtouched t else Some t);
               Some (b, t)
             }
             else Some (b, t)
           })"

function lglpoptouched :: "touched \<Rightarrow> (nat \<times> touched) option" where
  "lglpoptouched t =
     (if lglmtstk (tstk t) then Some (0, t)
      else
        (case pop (tstk t) of
           None \<Rightarrow> None
         | Some (res, s) \<Rightarrow>
             let t = t\<lparr>tstk := s\<rparr>
             in if res \<noteq> 0 then
                  (if \<not> (1 < res \<and> int res < tnvars t \<and> tpos t ! res = int (lglcntstk s)) then None
                   else Some (res, t\<lparr>tpos := (tpos t)[res := -1]\<rparr>))
                else if \<not> tmt t > 0 then None
                else lglpoptouched (t\<lparr>tmt := tmt t - 1\<rparr>)))"
  by pat_completeness auto
termination
  by (relation "measure (\<lambda>t. ntop (tstk t))") (auto simp: pop_def lglmtstk_def split: if_splits)

declare lglpoptouched.simps [simp del]

definition lgltouched :: "touched \<Rightarrow> nat \<Rightarrow> bool" where
  "lgltouched t idx \<longleftrightarrow> tpos t ! idx \<ge> 0"

section \<open>The abstract order\<close>

definition live :: "nat list \<Rightarrow> nat list" where
  "live c = filter (\<lambda>x. x \<noteq> 0) c"

definition order :: "touched \<Rightarrow> nat list" where
  "order t = live (contents (tstk t))"

text \<open>Every variable on the stack knows its only slot, and the others are marked as absent.\<close>

definition slots :: "nat list \<Rightarrow> int list \<Rightarrow> bool" where
  "slots c ps \<longleftrightarrow>
     (\<forall>j<length c. c ! j \<noteq> 0 \<longrightarrow> 1 < c ! j \<and> c ! j < length ps \<and> ps ! (c ! j) = int j) \<and>
     (\<forall>x<length ps. 1 < x \<and> 0 \<le> ps ! x \<longrightarrow> nat (ps ! x) < length c \<and> c ! nat (ps ! x) = x)"

definition t_ok :: "mem \<Rightarrow> touched \<Rightarrow> bool" where
  "t_ok b t \<longleftrightarrow> stk_ok 4 b (tstk t) \<and> slots (contents (tstk t)) (tpos t) \<and>
     tmt t = int (count_list (contents (tstk t)) 0) \<and> tnvars t = int (length (tpos t))"

lemma slotsD:
  assumes "slots c ps"
  shows "j < length c \<Longrightarrow> c ! j \<noteq> 0 \<Longrightarrow> 1 < c ! j \<and> c ! j < length ps \<and> ps ! (c ! j) = int j"
    and "x < length ps \<Longrightarrow> 1 < x \<Longrightarrow> 0 \<le> ps ! x \<Longrightarrow> nat (ps ! x) < length c \<and> c ! nat (ps ! x) = x"
  using assms unfolding slots_def by blast+

lemma slots_inj: "slots c ps \<Longrightarrow> i < length c \<Longrightarrow> j < length c \<Longrightarrow> c ! i = c ! j \<Longrightarrow> c ! i \<noteq> 0 \<Longrightarrow> i = j"
  unfolding slots_def by (metis of_nat_eq_iff)

lemma slots_live: "slots c ps \<Longrightarrow> 1 < x \<Longrightarrow> x < length ps \<Longrightarrow> x \<in> set (live c) \<longleftrightarrow> 0 \<le> ps ! x"
proof
  assume s: "slots c ps" and x: "x \<in> set (live c)"
  obtain j where "j < length c" "c ! j = x" "x \<noteq> 0" using x by (auto simp: live_def in_set_conv_nth)
  then show "0 \<le> ps ! x" using slotsD(1) [OF s, of j] by simp
next
  assume "slots c ps" "1 < x" "x < length ps" "0 \<le> ps ! x"
  then have "nat (ps ! x) < length c" "c ! nat (ps ! x) = x" using slotsD(2) [of c ps x] by simp_all
  then show "x \<in> set (live c)" using \<open>1 < x\<close> by (auto simp: live_def in_set_conv_nth)
qed

lemma live_distinct: "slots c ps \<Longrightarrow> distinct (live c)"
proof -
  assume s: "slots c ps"
  have "distinct (filter (\<lambda>x. x \<noteq> 0) (map ((!) c) [0..<length c]))"
    unfolding filter_map using slots_inj [OF s] by (auto simp: distinct_map inj_on_def)
  then show ?thesis by (simp add: live_def map_nth)
qed

text \<open>Emptying the only slot of x takes x out of the order.\<close>

lemma live_empty:
  assumes "j < length c" "c ! j = x" "x \<noteq> 0" "\<And>i. i < length c \<Longrightarrow> c ! i = x \<Longrightarrow> i = j"
  shows "live (c[j := 0]) = remove1 x (live c)"
proof -
  have c: "c = take j c @ x # drop (Suc j) c" using assms(1,2) id_take_nth_drop by blast
  have "x \<notin> set (take j c)"
  proof
    assume "x \<in> set (take j c)"
    then obtain i where "i < j" "c ! i = x" by (auto simp: in_set_conv_nth)
    then show False using assms(1) assms(4) [of i] by simp
  qed
  moreover have "live c = live (take j c) @ x # live (drop (Suc j) c)"
    by (subst c) (simp only: live_def filter_append filter.simps assms(3) if_True not_False_eq_True)
  moreover have "live (c[j := 0]) = live (take j c) @ live (drop (Suc j) c)"
    using assms(1) by (simp add: upd_conv_take_nth_drop live_def)
  ultimately show ?thesis by (simp add: remove1_append live_def)
qed

lemma count_empty:
  "j < length c \<Longrightarrow> c ! j \<noteq> 0 \<Longrightarrow> count_list (c[j := 0]) 0 = Suc (count_list c (0::nat))"
proof (induction c arbitrary: j)
  case (Cons a c)
  then show ?case by (cases j) auto
qed simp

section \<open>Flushing\<close>

primrec number :: "int list \<Rightarrow> nat \<Rightarrow> nat list \<Rightarrow> int list" where
  "number ps q [] = ps"
| "number ps q (x # xs) = number (ps[x := int q]) (Suc q) xs"

lemma length_number [simp]: "length (number ps q xs) = length ps"
  by (induction xs arbitrary: ps q) auto

lemma number_other: "x \<notin> set xs \<Longrightarrow> number ps q xs ! x = ps ! x"
  by (induction xs arbitrary: ps q) auto

lemma number_nth:
  "distinct xs \<Longrightarrow> \<forall>x\<in>set xs. x < length ps \<Longrightarrow> i < length xs \<Longrightarrow> number ps q xs ! (xs ! i) = int (q + i)"
proof (induction xs arbitrary: ps q i)
  case (Cons x xs)
  then show ?case by (cases i) (simp_all add: number_other)
qed simp

lemma tflush_loop_spec:
  "q \<le> p \<Longrightarrow> p \<le> tp \<Longrightarrow> tp \<le> length cs \<Longrightarrow>
     \<exists>cs' q'. tflush_loop cs ps p q mt tp =
         (cs', number ps q (live (drop p (take tp cs))), q', mt + int (count_list (drop p (take tp cs)) 0)) \<and>
       take q' cs' = take q cs @ live (drop p (take tp cs)) \<and> length cs' = length cs \<and> q' \<le> length cs'"
proof (induction "tp - p" arbitrary: cs ps p q mt)
  case 0
  then show ?case by (subst tflush_loop.simps) (simp add: live_def)
next
  case (Suc n)
  then have p: "p < tp" "p < length cs" "n = tp - Suc p" "q < length cs" by linarith+
  have d: "drop p (take tp cs) = cs ! p # drop (Suc p) (take tp cs)"
    using Cons_nth_drop_Suc [of p "take tp cs"] p(1) Suc.prems(3) by simp
  show ?case
  proof (cases "cs ! p = 0")
    case True
    then show ?thesis using Suc.hyps(1) [OF p(3), of q cs ps "mt + 1"] Suc.prems p(1)
      by (subst tflush_loop.simps) (simp add: d live_def algebra_simps)
  next
    case False
    have e: "drop (Suc p) (take tp (cs[q := cs ! p])) = drop (Suc p) (take tp cs)"
      using Suc.prems(1) by (simp add: drop_update_cancel take_update_swap)
    have "take (Suc q) (cs[q := cs ! p]) = take q cs @ [cs ! p]" using p(4) by (rule contents_snoc)
    then show ?thesis
      using Suc.hyps(1) [OF p(3), of "Suc q" "cs[q := cs ! p]" "ps[cs ! p := int q]" mt] Suc.prems p(1) False
      by (subst tflush_loop.simps) (simp add: d e live_def Let_def)
  qed
qed

lemma lglflushtouched_ok:
  assumes "t_ok b t"
  shows "\<exists>t'. lglflushtouched t = Some t' \<and> t_ok b t' \<and> order t' = order t \<and> tmt t' = 0 \<and>
    contents (tstk t') = order t \<and> length (cells (tstk t')) = length (cells (tstk t))"
proof -
  let ?c = "contents (tstk t)"
  have k: "ntop (tstk t) \<le> length (cells (tstk t))" and s: "slots ?c (tpos t)" using assms by (simp_all add: t_ok_def stk_ok_def)
  obtain cs q where r: "tflush_loop (cells (tstk t)) (tpos t) 0 0 0 (ntop (tstk t)) =
      (cs, number (tpos t) 0 (live ?c), q, int (count_list ?c 0))"
    "take q cs = live ?c" "length cs = length (cells (tstk t))" "q \<le> length cs"
    using tflush_loop_spec [of 0 0 "ntop (tstk t)" "cells (tstk t)" "tpos t" 0] k by (auto simp: contents_def)
  let ?t = "t\<lparr>tpos := number (tpos t) 0 (live ?c), tmt := 0, tstk := \<lparr>cells = cs, ntop = q\<rparr>\<rparr>"
  have c': "contents (tstk ?t) = live ?c" using r(2) by (simp add: contents_def)
  have dst: "distinct (live ?c)" by (rule live_distinct [OF s])
  have B: "1 < x \<and> x < length (tpos t)" if "x \<in> set (live ?c)" for x
    using that slotsD(1) [OF s] by (auto simp: live_def in_set_conv_nth)
  have N: "number (tpos t) 0 (live ?c) ! (live ?c ! i) = int i" if "i < length (live ?c)" for i
    using number_nth [OF dst, of "tpos t" i 0] B that by simp
  have "slots (live ?c) (number (tpos t) 0 (live ?c))"
    unfolding slots_def
  proof (intro conjI allI impI)
    fix x assume x: "x < length (number (tpos t) 0 (live ?c))" "1 < x \<and> 0 \<le> number (tpos t) 0 (live ?c) ! x"
    then have "x \<in> set (live ?c)"
      using slots_live [OF s, of x] number_other [of x "live ?c" "tpos t" 0] by auto
    then obtain i where "i < length (live ?c)" "live ?c ! i = x" by (auto simp: in_set_conv_nth)
    then show "nat (number (tpos t) 0 (live ?c) ! x) < length (live ?c)"
      "live ?c ! nat (number (tpos t) 0 (live ?c) ! x) = x" using N by auto
  qed (use B N in auto)
  moreover have "count_list (live ?c) 0 = 0" by (simp add: live_def count_list_0_iff)
  moreover have "stk_ok 4 b (tstk ?t)" using assms r(3,4) by (simp add: t_ok_def stk_ok_def)
  ultimately have "t_ok b ?t" using assms c' by (simp add: t_ok_def)
  moreover have "lglflushtouched t = Some ?t" using r(1) assms by (simp add: lglflushtouched_def t_ok_def)
  moreover have "live (live ?c) = live ?c" by (simp add: live_def)
  ultimately show ?thesis using c' r(3) by (intro exI [of _ ?t]) (simp add: order_def)
qed

section \<open>Touching and popping\<close>

lemma slots_push:
  assumes s: "slots c ps" and x: "1 < x" "x < length ps" and a: "ps ! x < 0"
  shows "slots (c @ [x]) (ps[x := int (length c)])"
proof -
  have ne: "c ! j \<noteq> x" if "j < length c" for j using slotsD(1) [OF s that] a x(1) by auto
  show ?thesis
    unfolding slots_def
  proof (intro conjI allI impI)
    fix j assume "j < length (c @ [x])" and nz: "(c @ [x]) ! j \<noteq> 0"
    then consider "j < length c" | "j = length c" by force
    then have "1 < (c @ [x]) ! j \<and> (c @ [x]) ! j < length ps \<and> ps[x := int (length c)] ! ((c @ [x]) ! j) = int j"
    proof cases
      case 1
      then show ?thesis using slotsD(1) [OF s 1] nz ne [OF 1] by (simp add: nth_append)
    qed (use x in simp)
    then show "1 < (c @ [x]) ! j" "(c @ [x]) ! j < length (ps[x := int (length c)])"
      "ps[x := int (length c)] ! ((c @ [x]) ! j) = int j" by simp_all
  next
    fix y assume y: "y < length (ps[x := int (length c)])" "1 < y \<and> 0 \<le> ps[x := int (length c)] ! y"
    have "nat (ps[x := int (length c)] ! y) < length (c @ [x]) \<and> (c @ [x]) ! nat (ps[x := int (length c)] ! y) = y"
    proof (cases "y = x")
      case False
      then show ?thesis using y slotsD(2) [OF s, of y] by (simp add: nth_append)
    qed (use x in simp)
    then show "nat (ps[x := int (length c)] ! y) < length (c @ [x])" "(c @ [x]) ! nat (ps[x := int (length c)] ! y) = y"
      by simp_all
  qed
qed

text \<open>Forgetting x: its slot is emptied and its mark removed.\<close>

lemma slots_forget:
  assumes s: "slots c ps" and j: "j < length c" "c ! j = x" "x \<noteq> 0"
  shows "slots (c[j := 0]) (ps[x := -1])"
proof -
  have ne: "c ! i \<noteq> x" if "i < length c" "i \<noteq> j" for i using slots_inj [OF s that(1) j(1)] that(2) j(2,3) by auto
  have x: "x < length ps" "ps ! x = int j" using slotsD(1) [OF s j(1)] j(2,3) by auto
  show ?thesis
    unfolding slots_def
  proof (intro conjI allI impI)
    fix i assume "i < length (c[j := 0])" "c[j := 0] ! i \<noteq> 0"
    then have i: "i < length c" "i \<noteq> j" "c ! i \<noteq> 0" using j(1) by (auto simp: nth_list_update split: if_splits)
    then show "1 < c[j := 0] ! i" "c[j := 0] ! i < length (ps[x := -1])" "ps[x := -1] ! (c[j := 0] ! i) = int i"
      using slotsD(1) [OF s i(1,3)] ne [OF i(1,2)] by simp_all
  next
    fix y assume "y < length (ps[x := -1])" "1 < y \<and> 0 \<le> ps[x := -1] ! y"
    then have y: "y < length ps" "1 < y" "y \<noteq> x" "0 \<le> ps ! y" using x(1) by (auto simp: nth_list_update split: if_splits)
    then have p: "nat (ps ! y) < length c" "c ! nat (ps ! y) = y" using slotsD(2) [OF s] by auto
    then have "nat (ps ! y) \<noteq> j" using y(3) j(2) by auto
    then show "nat (ps[x := -1] ! y) < length (c[j := 0])" "c[j := 0] ! nat (ps[x := -1] ! y) = y"
      using p y(3) by simp_all
  qed
qed

lemma contents_poke:
  "j < ntop s \<Longrightarrow> contents (s\<lparr>cells := (cells s)[j := v]\<rparr>) = (contents s)[j := v]"
  by (simp add: contents_def take_update_swap)

text \<open>Touching a variable moves it to the end of the order.\<close>

lemma lgltouch_ok:
  assumes ok: "t_ok b t" and x: "1 < x" "x < length (tpos t)"
  shows "\<exists>b' t'. lgltouch b t x = Some (b', t') \<and> t_ok b' t' \<and> order t' = remove1 x (order t) @ [x] \<and>
    length (tpos t') = length (tpos t) \<and> account 4 b' (tstk t') = account 4 b (tstk t)"
proof -
  let ?c = "contents (tstk t)" and ?p = "tpos t ! x"
  have sk: "stk_ok 4 b (tstk t)" and s: "slots ?c (tpos t)" and mt: "tmt t = int (count_list ?c 0)"
    and nv: "tnvars t = int (length (tpos t))" using ok by (simp_all add: t_ok_def)
  have lc: "length ?c = ntop (tstk t)" by (rule length_contents [OF sk])
  obtain b' s' where p: "push 4 0 b (tstk t) x = Some (b', s')" "stk_ok 4 b' s'" "contents s' = ?c @ [x]"
    "account 4 b' s' = account 4 b (tstk t)"
    using push_ex [OF sk, of 0 x] by auto
  have nt: "ntop s' = Suc (ntop (tstk t))" using length_contents [OF p(2)] p(3) lc by simp
  show ?thesis
  proof (cases "?p < 0")
    case True
    let ?t = "t\<lparr>tstk := s', tpos := (tpos t)[x := int (ntop (tstk t))]\<rparr>"
    have "lgltouch b t x = Some (b', ?t)" using x True p(1) by (simp add: lgltouch_def lglcntstk_def Let_def)
    moreover have "t_ok b' ?t"
      using slots_push [OF s x True] p(2,3) x mt nv by (simp add: t_ok_def lc)
    moreover have "x \<notin> set (order t)" using slots_live [OF s x] True by (simp add: order_def)
    then have "order ?t = remove1 x (order t) @ [x]" using p(3) x by (simp add: order_def live_def remove1_idem)
    ultimately show ?thesis using p(4) by auto
  next
    case False
    let ?j = "nat ?p"
    have j: "?j < length ?c" "?c ! ?j = x" using slotsD(2) [OF s x(2,1)] False by simp_all
    let ?s = "s'\<lparr>cells := (cells s')[?j := 0]\<rparr>"
    let ?t = "t\<lparr>tpos := (tpos t)[x := int (ntop (tstk t))], tstk := ?s, tmt := tmt t + 1\<rparr>"
    have jn: "?j < ntop (tstk t)" "?j < length (cells (tstk t))" "?j < length (cells s')"
      using j(1) lc sk p(2) nt by (simp_all add: stk_ok_def)
    have c: "contents ?s = ?c[?j := 0] @ [x]" using contents_poke [of ?j s' 0] jn(1) nt p(3) j(1)
      by (simp add: list_update_append)
    have sl: "slots (?c[?j := 0] @ [x]) ((tpos t)[x := int (ntop (tstk t))])"
      using slots_push [OF slots_forget [OF s j] x(1)] x lc by simp
    have ok': "t_ok b' ?t"
      using sl c mt nv p(2) count_empty [OF j(1)] j(2) x(1) by (simp add: t_ok_def stk_ok_def)
    have "i = ?j" if "i < length ?c" "?c ! i = x" for i using slots_inj [OF s that(1) j(1)] that(2) j(2) x(1) by simp
    then have "live (?c[?j := 0]) = remove1 x (live ?c)" using live_empty [OF j] x(1) by simp
    then have o: "order ?t = remove1 x (order t) @ [x]" using c x(1) by (simp add: order_def live_def)
    have pk: "lglpeek (tstk t) ?j = Some x" using jn j by (simp add: lglpeek_def lglszstk_def contents_def)
    have un: "lgltouch b t x = (if tmt ?t > tnvars ?t then lglflushtouched ?t else Some ?t) \<bind> (\<lambda>t. Some (b', t))"
      using x False p(1) pk jn(3) by (simp add: lgltouch_def lglcntstk_def lglpoke_def lglszstk_def Let_def)
    show ?thesis
    proof (cases "tmt ?t > tnvars ?t")
      case True
      obtain t' where t': "lglflushtouched ?t = Some t'" "t_ok b' t'" "order t' = order ?t"
        "length (cells (tstk t')) = length (cells (tstk ?t))"
        using lglflushtouched_ok [OF ok'] by blast
      have "length (tpos t') = length (tpos t)"
        using t'(1,2) nv by (auto simp: lglflushtouched_def t_ok_def Let_def split: prod.splits if_splits)
      then show ?thesis using un True t' o p(4) by (simp add: account_def)
    qed (use un ok' o p(4) in \<open>simp add: account_def\<close>)
  qed
qed

lemma slots_butlast:
  assumes s: "slots (c @ [x]) ps"
  shows "slots c (if x = 0 then ps else ps[x := -1])"
proof (cases "x = 0")
  case True
  have "nat (ps ! y) < length c \<and> c ! nat (ps ! y) = y" if "y < length ps" "1 < y" "0 \<le> ps ! y" for y
    using slotsD(2) [OF s that] True that(2) by (auto simp: nth_append less_Suc_eq split: if_splits)
  moreover have "1 < c ! j \<and> c ! j < length ps \<and> ps ! (c ! j) = int j" if "j < length c" "c ! j \<noteq> 0" for j
    using slotsD(1) [OF s, of j] that by (simp add: nth_append)
  ultimately show ?thesis using True unfolding slots_def by simp
next
  case False
  have "slots ((c @ [x])[length c := 0]) (ps[x := -1])"
    by (rule slots_forget [OF s]) (use False in simp_all)
  then have z: "slots (c @ [0]) (ps[x := -1])" by simp
  have "nat (ps[x := -1] ! y) < length c \<and> c ! nat (ps[x := -1] ! y) = y"
    if "y < length ps" "1 < y" "0 \<le> ps[x := -1] ! y" for y
    using slotsD(2) [OF z, of y] that by (auto simp: nth_append less_Suc_eq split: if_splits)
  moreover have "1 < c ! j \<and> c ! j < length ps \<and> ps[x := -1] ! (c ! j) = int j" if "j < length c" "c ! j \<noteq> 0" for j
    using slotsD(1) [OF z, of j] that by (simp add: nth_append)
  ultimately show ?thesis using False unfolding slots_def by simp
qed

text \<open>Popping returns the variable touched last, or 0 when there is none.\<close>

lemma lglpoptouched_ok:
  "t_ok b t \<Longrightarrow> \<exists>x t'. lglpoptouched t = Some (x, t') \<and> t_ok b t' \<and>
     (if order t = [] then x = 0 \<and> order t' = [] else x = last (order t) \<and> order t' = butlast (order t))"
proof (induction "ntop (tstk t)" arbitrary: t rule: less_induct)
  case less
  let ?c = "contents (tstk t)"
  have sk: "stk_ok 4 b (tstk t)" and s: "slots ?c (tpos t)" and mt: "tmt t = int (count_list ?c 0)"
    and nv: "tnvars t = int (length (tpos t))" using less.prems by (simp_all add: t_ok_def)
  have lc: "length ?c = ntop (tstk t)" by (rule length_contents [OF sk])
  show ?case
  proof (cases "?c = []")
    case True
    then have "lglmtstk (tstk t)" using lc by (simp add: lglmtstk_def)
    then show ?thesis using True less.prems by (subst lglpoptouched.simps) (simp add: order_def live_def)
  next
    case False
    then obtain c x where c: "?c = c @ [x]" by (metis rev_exhaust)
    obtain s' where p: "pop (tstk t) = Some (x, s')" "stk_ok 4 b s'" "contents s' = c"
      using pop_spec [OF sk False] c by (metis butlast_snoc last_snoc)
    have n: "\<not> lglmtstk (tstk t)" "ntop s' < ntop (tstk t)" "ntop s' = length c"
      using lc c length_contents [OF p(2)] p(3) by (simp_all add: lglmtstk_def)
    note sb = slots_butlast [OF s [unfolded c]]
    show ?thesis
    proof (cases "x = 0")
      case True
      let ?t = "t\<lparr>tstk := s', tmt := tmt t - 1\<rparr>"
      have "t_ok b ?t" using sb p(2,3) mt nv c True by (simp add: t_ok_def)
      moreover have "order ?t = order t" using c True p(3) by (simp add: order_def live_def)
      moreover have "lglpoptouched t = lglpoptouched ?t"
        using n(1) p(1) True mt c by (subst lglpoptouched.simps) simp
      moreover have "ntop (tstk ?t) < ntop (tstk t)" using n(2) by simp
      ultimately show ?thesis using less.hyps [of ?t] by (simp only:)
    next
      case False
      let ?t = "t\<lparr>tstk := s', tpos := (tpos t)[x := -1]\<rparr>"
      have "1 < x \<and> x < length (tpos t) \<and> tpos t ! x = int (length c)"
        using slotsD(1) [OF s, of "length c"] c False by simp
      then have "lglpoptouched t = Some (x, ?t)"
        using n p(1) False nv by (subst lglpoptouched.simps) (simp add: lglcntstk_def)
      moreover have "t_ok b ?t" using sb p(2,3) mt nv c False by (simp add: t_ok_def)
      moreover have "order t = order ?t @ [x]" using c False p(3) by (simp add: order_def live_def)
      ultimately show ?thesis by (intro exI [of _ x] exI [of _ ?t]) simp
    qed
  qed
qed

primrec touches :: "mem \<Rightarrow> touched \<Rightarrow> nat list \<Rightarrow> (mem \<times> touched) option" where
  "touches b t [] = Some (b, t)"
| "touches b t (x # xs) = (case lgltouch b t x of None \<Rightarrow> None | Some (b, t) \<Rightarrow> touches b t xs)"

primrec last_touched :: "nat list \<Rightarrow> nat list \<Rightarrow> nat list" where
  "last_touched ys [] = ys"
| "last_touched ys (x # xs) = last_touched (remove1 x ys @ [x]) xs"

lemma touches_ok:
  "t_ok b t \<Longrightarrow> \<forall>x\<in>set xs. 1 < x \<and> x < length (tpos t) \<Longrightarrow>
     \<exists>b' t'. touches b t xs = Some (b', t') \<and> t_ok b' t' \<and> order t' = last_touched (order t) xs \<and>
       length (tpos t') = length (tpos t)"
proof (induction xs arbitrary: b t)
  case (Cons x xs)
  obtain b' t' where t': "lgltouch b t x = Some (b', t')" "t_ok b' t'" "order t' = remove1 x (order t) @ [x]"
    "length (tpos t') = length (tpos t)"
    using lgltouch_ok [OF Cons.prems(1), of x] Cons.prems(2) by auto
  then show ?case using Cons.IH [OF t'(2)] Cons.prems(2) by simp
qed simp

lemma lglpoptouched_pops:
  "t_ok b t \<Longrightarrow> length (order t) = n \<Longrightarrow>
     \<exists>t'. pops lglpoptouched t n = Some (rev (order t), t') \<and> t_ok b t' \<and> order t' = []"
proof (induction n arbitrary: t)
  case (Suc n)
  then have ne: "order t \<noteq> []" by auto
  obtain x t' where t': "lglpoptouched t = Some (x, t')" "t_ok b t'" "x = last (order t)" "order t' = butlast (order t)"
    using lglpoptouched_ok [OF Suc.prems(1)] ne by auto
  then have "length (order t') = n" using Suc.prems(2) by simp
  then obtain t'' where "pops lglpoptouched t' n = Some (rev (order t'), t'')" "t_ok b t''" "order t'' = []"
    using Suc.IH [OF t'(2)] by blast
  moreover have "rev (order t) = x # rev (order t')"
    using append_butlast_last_id [OF ne] t'(3,4) by (metis rev.simps(2) rev_append rev_rev_ident append_Cons append_Nil rev_singleton_conv)
  ultimately show ?case using t'(1) by simp
qed simp

text \<open>
  C19: The stack of touched variables is a least recently touched list.  From an empty stack, any
  sequence of touches leaves the variables in the order of their last touch, whatever was flushed
  on the way, and popping returns them from the last touched one on, then 0; lgltouched tells
  which are on it.
\<close>

theorem touched_is_lru:
  assumes "t_ok b t" "order t = []" "\<forall>x\<in>set xs. 1 < x \<and> x < length (tpos t)"
  shows "\<exists>b1 t1 t2. touches b t xs = Some (b1, t1) \<and>
    (\<forall>x. 1 < x \<and> x < length (tpos t) \<longrightarrow> lgltouched t1 x = (x \<in> set (last_touched [] xs))) \<and>
    pops lglpoptouched t1 (length (last_touched [] xs)) = Some (rev (last_touched [] xs), t2) \<and>
    (\<exists>t3. lglpoptouched t2 = Some (0, t3))"
proof -
  obtain b1 t1 where 1: "touches b t xs = Some (b1, t1)" "t_ok b1 t1" "order t1 = last_touched [] xs"
    "length (tpos t1) = length (tpos t)"
    using touches_ok [OF assms(1,3)] assms(2) by auto
  obtain t2 where 2: "pops lglpoptouched t1 (length (last_touched [] xs)) = Some (rev (last_touched [] xs), t2)"
    "t_ok b1 t2" "order t2 = []"
    using lglpoptouched_pops [OF 1(2) refl] 1(3) by auto
  have "lgltouched t1 x = (x \<in> set (last_touched [] xs))" if "1 < x" "x < length (tpos t)" for x
    using slots_live [of "contents (tstk t1)" "tpos t1" x] 1(2-4) that by (simp add: lgltouched_def order_def t_ok_def)
  then show ?thesis using 1(1) 2(1) lglpoptouched_ok [OF 2(2)] 2(3) by auto
qed

definition ex_touched :: touched where
  "ex_touched = \<lparr>tpos = [-1, -1, -1, -1, -1], tstk = \<lparr>cells = [], ntop = 0\<rparr>, tmt = 0, tnvars = 5\<rparr>"

lemma ex_touched_ok: "t_ok \<lparr>current = 0, maxbytes = 0\<rparr> ex_touched"
proof -
  have "tpos ex_touched ! x = -1" if "x < 5" for x
    using that nth_replicate [of x 5 "-1 :: int"] by (simp add: ex_touched_def numeral_eq_Suc)
  then have "slots [] (tpos ex_touched)" by (auto simp: slots_def ex_touched_def)
  then show ?thesis by (simp add: t_ok_def stk_ok_def mem_ok_def contents_def ex_touched_def)
qed

theorem touched_is_lru_witness:
  "last_touched [] [2, 3, 2, 4, 3] = [2, 4, 3] \<and>
   (\<exists>b1 t1 t2. touches \<lparr>current = 0, maxbytes = 0\<rparr> ex_touched [2, 3, 2, 4, 3] = Some (b1, t1) \<and>
    (\<forall>x. 1 < x \<and> x < length (tpos ex_touched) \<longrightarrow> lgltouched t1 x = (x \<in> set (last_touched [] [2, 3, 2, 4, 3]))) \<and>
    pops lglpoptouched t1 (length (last_touched [] [2, 3, 2, 4, 3])) = Some (rev (last_touched [] [2, 3, 2, 4, 3]), t2) \<and>
    (\<exists>t3. lglpoptouched t2 = Some (0, t3)))"
proof (rule conjI)
  show "\<exists>b1 t1 t2. touches \<lparr>current = 0, maxbytes = 0\<rparr> ex_touched [2, 3, 2, 4, 3] = Some (b1, t1) \<and>
    (\<forall>x. 1 < x \<and> x < length (tpos ex_touched) \<longrightarrow> lgltouched t1 x = (x \<in> set (last_touched [] [2, 3, 2, 4, 3]))) \<and>
    pops lglpoptouched t1 (length (last_touched [] [2, 3, 2, 4, 3])) = Some (rev (last_touched [] [2, 3, 2, 4, 3]), t2) \<and>
    (\<exists>t3. lglpoptouched t2 = Some (0, t3))"
    by (rule touched_is_lru [OF ex_touched_ok]) (simp_all add: ex_touched_def contents_def order_def live_def)
qed simp

end
