(* ===== verification/Lgl_Esched.thy ===== *)
theory Lgl_Esched
  imports Lgl_Heap Lgl_Touch Lgl_Const
begin

text \<open>
  The elimination schedule of src/painless-v2/lingeling/lglib.c: the heap esched of candidate
  variables, those with the fewest occurrences first, the occurrence counts that are its keys,
  and the operations that keep both in step while clauses come and go.  Lgl_Heap holds the heap
  code, which the C source repeats for the two heaps.
\<close>

section \<open>The state and the operations\<close>

record EVar = hnode +
  occ0 :: int
  occ1 :: int
  escore :: int

record elgl =
  emem :: mem
  evars :: "EVar list"
  esched :: "nat stk"
  etypes :: "int list"
  frozen :: "nat \<Rightarrow> bool"
  cceing :: bool
  donotsched :: bool
  eliminating :: bool
  blocking :: bool
  donotelm :: "nat \<Rightarrow> bool"
  donotblk :: "nat \<Rightarrow> bool"
  occs :: bool
  touching :: bool
  elmt :: touched

definition lglecmp :: "EVar \<Rightarrow> EVar \<Rightarrow> int" where
  "lglecmp l k = escore k - escore l"

definition ekey :: "EVar \<Rightarrow> int" where
  "ekey v = - escore v"

interpretation eheap: heap_cmp lglecmp ekey
  by unfold_locales (auto simp: lglecmp_def ekey_def)

definition lglevar :: "elgl \<Rightarrow> nat \<Rightarrow> EVar option" where
  "lglevar lgl lit = (if 1 \<le> lit \<and> lit < length (evars lgl) then Some (evars lgl ! lit) else None)"

definition lglepos :: "elgl \<Rightarrow> nat \<Rightarrow> int option" where
  "lglepos lgl lit = map_option pos (lglevar lgl lit)"

definition lglchkesched :: "elgl \<Rightarrow> bool" where
  "lglchkesched lgl = heap_chk lglecmp (ntop (esched lgl)) (cells (esched lgl)) (evars lgl)"

definition lgleup :: "elgl \<Rightarrow> nat \<Rightarrow> elgl option" where
  "lgleup lgl lit =
     do {
       (p, vs) \<leftarrow> heap_up lglecmp lit (cells (esched lgl)) (evars lgl);
       Some (lgl\<lparr>esched := (esched lgl)\<lparr>cells := p\<rparr>, evars := vs\<rparr>)
     }"

definition lgledown :: "elgl \<Rightarrow> nat \<Rightarrow> elgl option" where
  "lgledown lgl lit =
     do {
       (p, vs) \<leftarrow> heap_down lglecmp lit (ntop (esched lgl)) (cells (esched lgl)) (evars lgl);
       Some (lgl\<lparr>esched := (esched lgl)\<lparr>cells := p\<rparr>, evars := vs\<rparr>)
     }"

definition lglesched :: "elgl \<Rightarrow> nat \<Rightarrow> elgl option" where
  "lglesched lgl lit =
     (if cceing lgl then Some lgl
      else if frozen lgl lit then Some lgl
      else if etypes lgl ! lit \<noteq> FREEVAR then Some lgl
      else if donotsched lgl \<and> (eliminating lgl \<and> donotelm lgl lit \<or> blocking lgl \<and> donotblk lgl lit) then Some lgl
      else do {
        ev \<leftarrow> lglevar lgl lit;
        if pos ev \<ge> 0 then Some lgl
        else do {
          (b, s, vs) \<leftarrow> heap_push lglecmp (emem lgl) (esched lgl) (evars lgl) lit;
          Some (lgl\<lparr>emem := b, esched := s, evars := vs\<rparr>)
        }
      })"

definition lglpopesched :: "elgl \<Rightarrow> (nat \<times> elgl) option" where
  "lglpopesched lgl =
     (if ntop (esched lgl) \<noteq> 0 \<and> frozen lgl (cells (esched lgl) ! 0) then None
      else do {
        (res, s, vs) \<leftarrow> heap_pop lglecmp (esched lgl) (evars lgl);
        Some (res, lgl\<lparr>esched := s, evars := vs\<rparr>)
      })"

text \<open>The score is the number of occurrences, 0 for a pure variable; with the change.\<close>

definition lglecalc :: "EVar \<Rightarrow> EVar \<times> int" where
  "lglecalc ev =
     (let oldscore = escore ev; o0 = occ0 ev; o1 = occ1 ev;
          newscore = (if o0 = 0 \<or> o1 = 0 then 0 else o0 + o1)
      in (ev\<lparr>escore := newscore\<rparr>, newscore - oldscore))"

definition set_occ :: "EVar \<Rightarrow> bool \<Rightarrow> int \<Rightarrow> EVar" where
  "set_occ ev sign d = (if sign then ev\<lparr>occ1 := occ1 ev + d\<rparr> else ev\<lparr>occ0 := occ0 ev + d\<rparr>)"

definition get_occ :: "EVar \<Rightarrow> bool \<Rightarrow> int" where
  "get_occ ev sign = (if sign then occ1 ev else occ0 ev)"

definition resift :: "elgl \<Rightarrow> nat \<Rightarrow> int \<Rightarrow> elgl option" where
  "resift lgl idx change =
     (if pos (evars lgl ! idx) < 0 then lglesched lgl idx
      else if change > 0 then lgledown lgl idx
      else if change < 0 then lgleup lgl idx
      else Some lgl)"

text \<open>One occurrence more or less of the literal with variable idx and the given sign.\<close>

definition lglincocc :: "elgl \<Rightarrow> nat \<Rightarrow> bool \<Rightarrow> elgl option" where
  "lglincocc lgl idx sign =
     (if \<not> occs lgl then Some lgl
      else do {
        ev \<leftarrow> lglevar lgl idx;
        if etypes lgl ! idx \<noteq> FREEVAR then None
        else
          let ev = set_occ ev sign 1
          in if \<not> get_occ ev sign > 0 then None
             else
               let (ev, change) = lglecalc ev
               in do {
                 lgl \<leftarrow> resift (lgl\<lparr>evars := (evars lgl)[idx := ev]\<rparr>) idx change;
                 if touching lgl then do {
                   (b, t) \<leftarrow> lgltouch (emem lgl) (elmt lgl) idx;
                   Some (lgl\<lparr>emem := b, elmt := t\<rparr>)
                 }
                 else Some lgl
               }
      })"

definition lgldecocc :: "elgl \<Rightarrow> nat \<Rightarrow> bool \<Rightarrow> elgl option" where
  "lgldecocc lgl idx sign =
     (if \<not> occs lgl then Some lgl
      else do {
        ev \<leftarrow> lglevar lgl idx;
        if \<not> get_occ ev sign > 0 then None
        else
          let ev = set_occ ev sign (-1);
              lgl = lgl\<lparr>evars := (evars lgl)[idx := ev]\<rparr>
          in if etypes lgl ! idx \<noteq> FREEVAR then Some lgl
             else let (ev, change) = lglecalc ev
                  in resift (lgl\<lparr>evars := (evars lgl)[idx := ev]\<rparr>) idx change
      })"

section \<open>The invariant\<close>

text \<open>
  The schedule is a heap of valid variables, the others have a negative position, and every
  score is the number of occurrences that lglecalc computes.
\<close>

definition e_heap :: "elgl \<Rightarrow> bool" where
  "e_heap lgl \<longleftrightarrow>
     eheap.sched_ok (esched lgl) (evars lgl) \<and>
     (\<forall>x\<in>set (contents (esched lgl)). 1 \<le> x) \<and>
     (\<forall>x. 1 \<le> x \<and> x < length (evars lgl) \<and> x \<notin> set (contents (esched lgl)) \<longrightarrow> pos (evars lgl ! x) < 0)"

definition occ_score :: "EVar \<Rightarrow> int" where
  "occ_score ev = (if occ0 ev = 0 \<or> occ1 ev = 0 then 0 else occ0 ev + occ1 ev)"

definition e_mem :: "elgl \<Rightarrow> bool" where
  "e_mem lgl \<longleftrightarrow> ntop (esched lgl) \<le> length (cells (esched lgl)) \<and>
     (length (cells (esched lgl)) + length (cells (tstk (elmt lgl)))) * 4 \<le> current (emem lgl) \<and> mem_ok (emem lgl) \<and>
     t_ok (emem lgl) (elmt lgl) \<and> length (tpos (elmt lgl)) = length (evars lgl)"

definition e_ok :: "elgl \<Rightarrow> bool" where
  "e_ok lgl \<longleftrightarrow> e_heap lgl \<and> e_mem lgl"

lemma e_same_fields:
  assumes "same vs vs' S" "x < length vs"
  shows "occ0 (vs' ! x) = occ0 (vs ! x)" "occ1 (vs' ! x) = occ1 (vs ! x)" "escore (vs' ! x) = escore (vs ! x)"
    "x \<notin> S \<Longrightarrow> vs' ! x = vs ! x"
proof -
  obtain i where "vs' ! x = (vs ! x)\<lparr>pos := i\<rparr>" using assms unfolding same_def by blast
  then show "occ0 (vs' ! x) = occ0 (vs ! x)" "occ1 (vs' ! x) = occ1 (vs ! x)" "escore (vs' ! x) = escore (vs ! x)" by simp_all
  show "x \<notin> S \<Longrightarrow> vs' ! x = vs ! x" using assms unfolding same_def by blast
qed

lemma set_contents_add: "mset (contents s') = add_mset x (mset (contents s)) \<Longrightarrow>
    set (contents s') = insert x (set (contents s))"
  by (metis set_mset_add_mset_insert set_mset_mset)

lemma e_heap_change:
  assumes h: "e_heap lgl" and sk: "eheap.sched_ok s vs" and sm: "same (evars lgl) vs S"
    and ge: "\<forall>x\<in>set (contents s). 1 \<le> x"
    and out: "\<forall>x\<in>S. x \<notin> set (contents s) \<longrightarrow> pos (vs ! x) < 0"
    and sub: "set (contents (esched lgl)) \<subseteq> S \<union> set (contents s)"
  shows "e_heap (lgl\<lparr>emem := b, esched := s, evars := vs\<rparr>)"
  unfolding e_heap_def
proof (intro conjI allI impI)
  fix x assume "1 \<le> x \<and> x < length (evars (lgl\<lparr>emem := b, esched := s, evars := vs\<rparr>)) \<and>
    x \<notin> set (contents (esched (lgl\<lparr>emem := b, esched := s, evars := vs\<rparr>)))"
  then have x: "1 \<le> x" "x < length (evars lgl)" "x \<notin> set (contents s)" using same_length [OF sm] by simp_all
  show "pos (evars (lgl\<lparr>emem := b, esched := s, evars := vs\<rparr>) ! x) < 0"
  proof (cases "x \<in> S")
    case True
    then show ?thesis using out x(3) by simp
  next
    case False
    then have "x \<notin> set (contents (esched lgl))" using sub x(3) by blast
    then show ?thesis using h x e_same_fields(4) [OF sm x(2) False] by (simp add: e_heap_def)
  qed
qed (use sk ge in simp_all)

section \<open>Scheduling and popping\<close>

lemma e_mem_stk: "e_mem lgl \<Longrightarrow> stk_ok 4 (emem lgl) (esched lgl)"
  by (simp add: e_mem_def stk_ok_def)

definition e_skips :: "elgl \<Rightarrow> nat \<Rightarrow> bool" where
  "e_skips lgl x \<longleftrightarrow> cceing lgl \<or> frozen lgl x \<or> etypes lgl ! x \<noteq> FREEVAR \<or>
     donotsched lgl \<and> (eliminating lgl \<and> donotelm lgl x \<or> blocking lgl \<and> donotblk lgl x)"

lemma lglesched_ok:
  assumes ok: "e_ok lgl" and x: "1 \<le> x" "x < length (evars lgl)"
  shows "\<exists>b s vs. lglesched lgl x = Some (lgl\<lparr>emem := b, esched := s, evars := vs\<rparr>) \<and>
    e_ok (lgl\<lparr>emem := b, esched := s, evars := vs\<rparr>) \<and>
    set (contents s) = set (contents (esched lgl)) \<union> (if e_skips lgl x then {} else {x}) \<and>
    same (evars lgl) vs (insert x (set (contents (esched lgl))))"
proof (cases "e_skips lgl x \<or> x \<in> set (contents (esched lgl))")
  case True
  have h: "e_heap lgl" using ok by (simp add: e_ok_def)
  have "0 \<le> pos (evars lgl ! x)" if "x \<in> set (contents (esched lgl))"
    using that h eheap.sched_contents [of "esched lgl" "evars lgl" x]
    unfolding e_heap_def eheap.sched_ok_def hp_ok_def by force
  then have "lglesched lgl x = Some lgl"
    using True x by (auto simp: lglesched_def e_skips_def lglevar_def)
  then show ?thesis using ok True
    by (intro exI [of _ "emem lgl"] exI [of _ "esched lgl"] exI [of _ "evars lgl"]) auto
next
  case False
  have h: "e_heap lgl" "e_mem lgl" using ok by (simp_all add: e_ok_def)
  have sk: "eheap.sched_ok (esched lgl) (evars lgl)" using h(1) by (simp add: e_heap_def)
  have p: "pos (evars lgl ! x) < 0" using h(1) x False by (simp add: e_heap_def)
  obtain b s vs where r: "heap_push lglecmp (emem lgl) (esched lgl) (evars lgl) x = Some (b, s, vs)"
    "stk_ok 4 b s" "eheap.sched_ok s vs" "mset (contents s) = add_mset x (mset (contents (esched lgl)))"
    "same (evars lgl) vs (insert x (set (contents (esched lgl))))"
    "account 4 b s = account 4 (emem lgl) (esched lgl)"
    using eheap.heap_push_correct [OF e_mem_stk [OF h(2)] sk x(2)] False by auto
  let ?l = "lgl\<lparr>emem := b, esched := s, evars := vs\<rparr>"
  note S = set_contents_add [OF r(4)]
  have "e_heap ?l"
    by (rule e_heap_change [OF h(1) r(3,5)]) (use S x h(1) in \<open>auto simp: e_heap_def\<close>)
  moreover have "e_mem ?l"
    using h(2) r(2,6) same_length [OF r(5)] unfolding account_def
    by (auto simp: e_mem_def stk_ok_def t_ok_def)
  moreover have "lglesched lgl x = Some ?l"
    using False x p r(1) unfolding lglesched_def e_skips_def lglevar_def by auto
  ultimately show ?thesis using S r(5) False
    by (intro exI [of _ b] exI [of _ s] exI [of _ vs]) (simp add: e_ok_def)
qed

lemma lglpopesched_ok:
  assumes ok: "e_ok lgl" and ne: "contents (esched lgl) \<noteq> []" and fr: "\<not> frozen lgl (cells (esched lgl) ! 0)"
  shows "\<exists>x s vs. lglpopesched lgl = Some (x, lgl\<lparr>esched := s, evars := vs\<rparr>) \<and>
    e_ok (lgl\<lparr>esched := s, evars := vs\<rparr>) \<and>
    mset (contents (esched lgl)) = add_mset x (mset (contents s)) \<and>
    (\<forall>y\<in>set (contents (esched lgl)). escore (evars lgl ! x) \<le> escore (evars lgl ! y)) \<and>
    same (evars lgl) vs (set (contents (esched lgl)))"
proof -
  have h: "e_heap lgl" "e_mem lgl" using ok by (simp_all add: e_ok_def)
  have sk: "eheap.sched_ok (esched lgl) (evars lgl)" using h(1) by (simp add: e_heap_def)
  obtain x s vs where r: "heap_pop lglecmp (esched lgl) (evars lgl) = Some (x, s, vs)"
    "stk_ok 4 (emem lgl) s" "eheap.sched_ok s vs" "mset (contents (esched lgl)) = add_mset x (mset (contents s))"
    "\<forall>y\<in>set (contents (esched lgl)). eheap.vkey (evars lgl) y \<le> eheap.vkey (evars lgl) x"
    "pos (vs ! x) = -1" "same (evars lgl) vs (set (contents (esched lgl)))"
    "length (cells s) = length (cells (esched lgl))"
    using eheap.heap_pop_correct [OF e_mem_stk [OF h(2)] sk ne] by blast
  have S: "set (contents (esched lgl)) = insert x (set (contents s))"
    using r(4) by (metis set_mset_add_mset_insert set_mset_mset)
  have "e_heap (lgl\<lparr>emem := emem lgl, esched := s, evars := vs\<rparr>)"
    by (rule e_heap_change [OF h(1) r(3,7)]) (use S r(6) h(1) in \<open>auto simp: e_heap_def\<close>)
  moreover have "e_mem (lgl\<lparr>esched := s, evars := vs\<rparr>)"
    using h(2) r(2,8) same_length [OF r(7)] by (simp add: e_mem_def stk_ok_def)
  moreover have "lglpopesched lgl = Some (x, lgl\<lparr>esched := s, evars := vs\<rparr>)" using r(1) fr by (simp add: lglpopesched_def)
  ultimately show ?thesis using r(4,5,7) by (auto simp: e_ok_def eheap.vkey_def ekey_def)
qed

section \<open>Occurrences come and go\<close>

text \<open>Changing the score of a variable and sifting it restores the heap.\<close>

lemma resift_ok:
  assumes ok: "e_ok lgl" and x: "1 \<le> x" "x < length (evars lgl)"
    and v: "pos v = pos (evars lgl ! x)" and l: "l = lgl\<lparr>evars := (evars lgl)[x := v]\<rparr>"
  shows "\<exists>l'. resift l x (escore v - escore (evars lgl ! x)) = Some l' \<and> e_ok l' \<and>
    same (evars l) (evars l') UNIV \<and> elmt l' = elmt l \<and> touching l' = touching l"
proof -
  have h: "e_heap lgl" "e_mem lgl" using ok by (simp_all add: e_ok_def)
  have sk: "eheap.sched_ok (esched lgl) (evars lgl)" using h(1) by (simp add: e_heap_def)
  have me: "e_mem l" using h(2) by (simp add: l e_mem_def)
  have ps: "pos (evars l ! y) = pos (evars lgl ! y)" if "y < length (evars lgl)" for y
    using v x(2) by (simp add: l nth_list_update)
  have uni: "same a b S \<Longrightarrow> same a b UNIV" for a b :: "EVar list" and S by (auto simp: same_def)
  show ?thesis
  proof (cases "pos (evars lgl ! x) < 0")
    case True
    then have nin: "x \<notin> set (contents (esched lgl))"
      using sk eheap.sched_contents [OF sk] unfolding eheap.sched_ok_def hp_ok_def by force
    have "eheap.sched_ok (esched l) (evars l)" using eheap.sched_upd_out [OF sk nin] by (simp add: l)
    then have "e_heap l" using h(1) ps unfolding e_heap_def by (simp add: l)
    then obtain b s vs where r: "lglesched l x = Some (l\<lparr>emem := b, esched := s, evars := vs\<rparr>)"
      "e_ok (l\<lparr>emem := b, esched := s, evars := vs\<rparr>)" "same (evars l) vs (insert x (set (contents (esched l))))"
      using lglesched_ok [of l x] me x by (auto simp: e_ok_def l)
    then show ?thesis using True v x(2) uni [OF r(3)] by (simp add: resift_def l)
  next
    case False
    then have "x \<in> set (contents (esched lgl))" using h(1) x unfolding e_heap_def by force
    then obtain i where i: "i < ntop (esched lgl)" "cells (esched lgl) ! i = x" using eheap.sched_contents [OF sk] by blast
    let ?w = "(evars lgl)[x := v]" and ?n = "ntop (esched lgl)" and ?p = "cells (esched lgl)"
    note hp = eheap.key_upd(1) [OF sk i v]
    have fin: "e_ok (l\<lparr>esched := (esched l)\<lparr>cells := p\<rparr>, evars := vs\<rparr>) \<and> same (evars l) vs UNIV"
      if r: "eheap.heap_res ?n ?p ?w p vs" for p vs
    proof -
      have ms: "mset (take ?n p) = mset (contents (esched lgl))" using r by (simp add: eheap.heap_res_def contents_def)
      then have S: "set (take ?n p) = set (contents (esched lgl))" by (metis set_mset_mset)
      have sm: "same ?w vs (set (contents (esched lgl)))" using r by (simp add: eheap.heap_res_def contents_def)
      let ?s = "(esched l)\<lparr>cells := p\<rparr>"
      have "e_heap (l\<lparr>esched := ?s, evars := vs\<rparr>)"
        unfolding e_heap_def
      proof (intro conjI allI impI)
        show "eheap.sched_ok (esched (l\<lparr>esched := ?s, evars := vs\<rparr>)) (evars (l\<lparr>esched := ?s, evars := vs\<rparr>))"
          using r by (simp add: l eheap.sched_ok_def eheap.heap_res_def)
        show "\<forall>y\<in>set (contents (esched (l\<lparr>esched := ?s, evars := vs\<rparr>))). 1 \<le> y"
          using S h(1) by (simp add: l contents_def e_heap_def)
        fix y assume "1 \<le> y \<and> y < length (evars (l\<lparr>esched := ?s, evars := vs\<rparr>)) \<and>
          y \<notin> set (contents (esched (l\<lparr>esched := ?s, evars := vs\<rparr>)))"
        then have y: "1 \<le> y" "y < length (evars lgl)" "y \<notin> set (contents (esched lgl))"
          using S same_length [OF sm] by (simp_all add: l contents_def)
        then show "pos (evars (l\<lparr>esched := ?s, evars := vs\<rparr>) ! y) < 0"
          using e_same_fields(4) [OF sm, of y] ps [of y] h(1) by (simp add: l e_heap_def)
      qed
      moreover have "e_mem (l\<lparr>esched := ?s, evars := vs\<rparr>)"
        using me r same_length [OF sm] by (simp add: e_mem_def l eheap.heap_res_def)
      ultimately show ?thesis using uni [OF sm] by (simp add: e_ok_def l)
    qed
    have np: "\<not> pos (evars l ! x) < 0" using False v x(2) by (simp add: l)
    consider "escore v > escore (evars lgl ! x)" | "escore v < escore (evars lgl ! x)" | "escore v = escore (evars lgl ! x)" by linarith
    then show ?thesis
    proof cases
      case 1
      then have "down_ord (eheap.vkey ?w) ?n ?p i" using eheap.key_lower [OF sk i _ v] by (simp add: ekey_def)
      then obtain p vs where "heap_down lglecmp x ?n ?p ?w = Some (p, vs)" "eheap.heap_res ?n ?p ?w p vs"
        using eheap.heap_down_correct [OF hp i(1)] i(2) by auto
      then show ?thesis using fin 1 np by (simp add: resift_def lgledown_def l)
    next
      case 2
      then have "up_ord (eheap.vkey ?w) ?n ?p i" using eheap.key_raise [OF sk i _ v] by (simp add: ekey_def)
      then obtain p vs where "heap_up lglecmp x ?p ?w = Some (p, vs)" "eheap.heap_res ?n ?p ?w p vs"
        using eheap.heap_up_correct [OF hp i(1)] i(2) by auto
      then show ?thesis using fin 2 np by (simp add: resift_def lgleup_def l)
    next
      case 3
      have K: "eheap.vkey ?w (?p ! j) = eheap.vkey (evars lgl) (?p ! j)" if "j < ?n" for j
        using eheap.key_upd(2,3) [OF sk i v] 3 i(2) that by (cases "j = i") (simp_all add: ekey_def eheap.vkey_def)
      have "par j < ?n" if "0 < j" "j < ?n" for j using that par_less [of j] by simp
      then have "heap_ord (eheap.vkey ?w) ?n ?p" using sk K by (simp add: eheap.sched_ok_def heap_ord_def)
      then have "eheap.heap_res ?n ?p ?w ?p ?w" using hp by (simp add: eheap.heap_res_def)
      then have "e_ok l" using fin [of ?p ?w] by (simp add: l)
      then show ?thesis using np 3 by (intro exI [of _ l]) (simp add: resift_def)
    qed
  qed
qed

lemma occ_upd_pos [simp]: "pos (fst (lglecalc (set_occ ev sg d))) = pos ev"
  by (simp add: lglecalc_def set_occ_def Let_def)

lemma lglecalc_set_occ:
  "lglecalc (set_occ ev sg d) =
     (set_occ (ev\<lparr>escore := occ_score (set_occ ev sg d)\<rparr>) sg d, occ_score (set_occ ev sg d) - escore ev)"
  by (simp add: lglecalc_def set_occ_def occ_score_def Let_def)

lemma lgltouch_elgl:
  assumes ok: "e_ok lgl" and x: "2 \<le> x" "x < length (evars lgl)"
  shows "\<exists>b t. lgltouch (emem lgl) (elmt lgl) x = Some (b, t) \<and> e_ok (lgl\<lparr>emem := b, elmt := t\<rparr>) \<and>
    order t = remove1 x (order (elmt lgl)) @ [x]"
proof -
  have h: "e_heap lgl" "e_mem lgl" using ok by (simp_all add: e_ok_def)
  obtain b t where r: "lgltouch (emem lgl) (elmt lgl) x = Some (b, t)" "t_ok b t"
    "order t = remove1 x (order (elmt lgl)) @ [x]" "length (tpos t) = length (tpos (elmt lgl))"
    "account 4 b (tstk t) = account 4 (emem lgl) (tstk (elmt lgl))"
    using lgltouch_ok [of "emem lgl" "elmt lgl" x] h(2) x by (auto simp: e_mem_def)
  have "e_heap (lgl\<lparr>emem := b, elmt := t\<rparr>)" using h(1) by (simp add: e_heap_def)
  moreover have "e_mem (lgl\<lparr>emem := b, elmt := t\<rparr>)"
    using h(2) r(2,4,5) unfolding account_def by (auto simp: e_mem_def t_ok_def stk_ok_def)
  ultimately show ?thesis using r(1,3) by (simp add: e_ok_def)
qed


text \<open>The counterpart takes one occurrence away.\<close>

lemma lgldecocc_ok:
  assumes ok: "e_ok lgl" and x: "2 \<le> x" "x < length (evars lgl)" and fr: "occs lgl"
    and n: "0 < get_occ (evars lgl ! x) sg"
  shows "\<exists>lgl'. lgldecocc lgl x sg = Some lgl' \<and> e_ok lgl' \<and>
    get_occ (evars lgl' ! x) sg = get_occ (evars lgl ! x) sg - 1 \<and>
    get_occ (evars lgl' ! x) (\<not> sg) = get_occ (evars lgl ! x) (\<not> sg) \<and>
    (etypes lgl ! x = FREEVAR \<longrightarrow> escore (evars lgl' ! x) = occ_score (evars lgl' ! x)) \<and>
    (\<forall>y<length (evars lgl). y \<noteq> x \<longrightarrow> (\<exists>i. evars lgl' ! y = (evars lgl ! y)\<lparr>pos := i\<rparr>)) \<and>
    elmt lgl' = elmt lgl"
proof -
  let ?ev = "set_occ (evars lgl ! x) sg (-1)"
  define l1 where "l1 = lgl\<lparr>evars := (evars lgl)[x := ?ev]\<rparr>"
  have lx: "lglevar lgl x = Some (evars lgl ! x)" using x by (simp add: lglevar_def)
  have own: "\<exists>i. ev = ev\<lparr>pos := i\<rparr>" for ev :: EVar by (intro exI [of _ "pos ev"]) simp
  show ?thesis
  proof (cases "etypes lgl ! x = FREEVAR")
    case False
    have pe: "pos ?ev = pos (evars lgl ! x)" "escore ?ev = escore (evars lgl ! x)" by (simp_all add: set_occ_def)
    have "\<exists>l'. resift l1 x (escore ?ev - escore (evars lgl ! x)) = Some l' \<and> e_ok l' \<and>
      same (evars l1) (evars l') UNIV \<and> elmt l' = elmt l1 \<and> touching l' = touching l1"
      by (rule resift_ok [OF ok _ x(2) pe(1) l1_def]) (use x(1) in simp)
    have h: "e_heap lgl" "e_mem lgl" using ok by (simp_all add: e_ok_def)
    have ps: "pos (evars l1 ! y) = pos (evars lgl ! y)" "escore (evars l1 ! y) = escore (evars lgl ! y)"
      if "y < length (evars lgl)" for y using pe x(2) by (cases "y = x"; simp add: l1_def)+
    have "eheap.sched_ok (esched l1) (evars l1)"
    proof -
      have sk: "eheap.sched_ok (esched lgl) (evars lgl)" using h(1) by (simp add: e_heap_def)
      have "par j < ntop (esched lgl)" if "0 < j" "j < ntop (esched lgl)" for j using that par_less [of j] by simp
      then show ?thesis using sk ps unfolding eheap.sched_ok_def hp_ok_def heap_ord_def
        by (simp add: l1_def eheap.vkey_def ekey_def)
    qed
    then have "e_ok l1" using h ps by (simp add: e_ok_def e_heap_def e_mem_def l1_def)
    moreover have "lgldecocc lgl x sg = Some l1" using fr n lx False by (simp add: lgldecocc_def l1_def)
    ultimately show ?thesis using False x(2)
      by (intro exI [of _ l1]) (simp add: l1_def get_occ_def set_occ_def own)
  next
    case True
    let ?v = "?ev\<lparr>escore := occ_score ?ev\<rparr>"
    define l where "l = lgl\<lparr>evars := (evars lgl)[x := ?v]\<rparr>"
    have ec: "lglecalc ?ev = (?v, escore ?v - escore (evars lgl ! x))"
      by (simp add: lglecalc_def occ_score_def set_occ_def Let_def)
    have pv: "pos ?v = pos (evars lgl ! x)" by (simp add: set_occ_def)
    obtain l' where l': "resift l x (escore ?v - escore (evars lgl ! x)) = Some l'" "e_ok l'"
      "same (evars l) (evars l') UNIV" "elmt l' = elmt l" "touching l' = touching l"
      using resift_ok [OF ok _ x(2) pv l_def] x(1) by auto
    have "lgldecocc lgl x sg = Some l'" using fr n lx ec l'(1) True by (simp add: lgldecocc_def Let_def l_def)
    moreover have X: "occ0 (evars l' ! x) = occ0 ?ev" "occ1 (evars l' ! x) = occ1 ?ev" "escore (evars l' ! x) = occ_score ?ev"
      using e_same_fields(1-3) [OF l'(3), of x] x(2) by (simp_all add: l_def)
    moreover have "\<exists>i. evars l' ! y = (evars lgl ! y)\<lparr>pos := i\<rparr>" if "y < length (evars lgl)" "y \<noteq> x" for y
    proof -
      have "\<exists>i. evars l' ! y = (evars l ! y)\<lparr>pos := i\<rparr>" using l'(3) that(1) by (simp add: same_def l_def)
      then show ?thesis using that(2) by (simp add: l_def)
    qed
    ultimately show ?thesis using l'(2,4)
      by (intro exI [of _ l']) (simp add: l_def get_occ_def set_occ_def occ_score_def)
  qed
qed

text \<open>
  The elimination schedule is a priority queue.  Popping it until it is empty, when nothing on
  it is frozen, returns every scheduled variable once, those with fewer occurrences first.
\<close>

theorem lglpopesched_sorts:
  "e_ok lgl \<Longrightarrow> length (contents (esched lgl)) = n \<Longrightarrow> \<forall>x\<in>set (contents (esched lgl)). \<not> frozen lgl x \<Longrightarrow>
     \<exists>ys lgl'. pops lglpopesched lgl n = Some (ys, lgl') \<and> e_ok lgl' \<and> contents (esched lgl') = [] \<and>
       mset ys = mset (contents (esched lgl)) \<and>
       sorted_wrt (\<lambda>x y. escore (evars lgl ! x) \<le> escore (evars lgl ! y)) ys"
proof (induction n arbitrary: lgl)
  case 0
  then show ?case by simp
next
  case (Suc n)
  then have ne: "contents (esched lgl) \<noteq> []" by auto
  have nt: "ntop (esched lgl) \<le> length (cells (esched lgl))" using Suc.prems(1) by (simp add: e_ok_def e_mem_def)
  then have "cells (esched lgl) ! 0 \<in> set (contents (esched lgl))"
    using ne by (auto simp: contents_def in_set_conv_nth)
  then obtain x s vs where r: "lglpopesched lgl = Some (x, lgl\<lparr>esched := s, evars := vs\<rparr>)"
    "e_ok (lgl\<lparr>esched := s, evars := vs\<rparr>)"
    "mset (contents (esched lgl)) = add_mset x (mset (contents s))"
    "\<forall>y\<in>set (contents (esched lgl)). escore (evars lgl ! x) \<le> escore (evars lgl ! y)"
    "same (evars lgl) vs (set (contents (esched lgl)))"
    using lglpopesched_ok [OF Suc.prems(1) ne] Suc.prems(3) by blast
  let ?l = "lgl\<lparr>esched := s, evars := vs\<rparr>"
  have "size (mset (contents (esched lgl))) = Suc (size (mset (contents s)))" unfolding r(3) by simp
  then have n: "length (contents (esched ?l)) = n" using Suc.prems(2) by simp
  have S: "set (contents (esched lgl)) = insert x (set (contents s))" using set_contents_add [OF r(3)] .
  obtain ys l' where l': "pops lglpopesched ?l n = Some (ys, l')" "e_ok l'" "contents (esched l') = []"
    "mset ys = mset (contents s)" "sorted_wrt (\<lambda>x y. escore (evars ?l ! x) \<le> escore (evars ?l ! y)) ys"
    using Suc.IH [OF r(2) n] Suc.prems(3) S by auto
  have ys: "set ys = set (contents s)" using l'(4) by (metis set_mset_mset)
  have "y < length (evars lgl)" if "y \<in> set ys" for y
    using that ys S Suc.prems(1) eheap.sched_contents unfolding e_ok_def e_heap_def by blast
  then have K: "escore (vs ! y) = escore (evars lgl ! y)" if "y \<in> set ys" for y
    using e_same_fields(3) [OF r(5)] that by blast
  have "sorted_wrt (\<lambda>x y. escore (evars lgl ! x) \<le> escore (evars lgl ! y)) ys"
    by (rule sorted_wrt_mono_rel [OF _ l'(5)]) (simp add: K)
  moreover have "\<forall>y\<in>set ys. escore (evars lgl ! x) \<le> escore (evars lgl ! y)" using r(4) S ys by auto
  ultimately show ?case using r(1,3) l' by auto
qed

text \<open>An example with the variables 2 to 4, of which 3 and 4 are scheduled.\<close>

definition ex_elim :: elgl where
  "ex_elim = \<lparr>emem = \<lparr>current = 8, maxbytes = 8\<rparr>,
     evars = [\<lparr>pos = -1, occ0 = 0, occ1 = 0, escore = 0\<rparr>, \<lparr>pos = -1, occ0 = 0, occ1 = 0, escore = 0\<rparr>,
       \<lparr>pos = -1, occ0 = 1, occ1 = 0, escore = 0\<rparr>, \<lparr>pos = 1, occ0 = 2, occ1 = 3, escore = 5\<rparr>,
       \<lparr>pos = 0, occ0 = 1, occ1 = 1, escore = 2\<rparr>],
     esched = \<lparr>cells = [4, 3], ntop = 2\<rparr>, etypes = [FREEVAR, FREEVAR, FREEVAR, FREEVAR, FREEVAR],
     frozen = (\<lambda>x. False), cceing = False, donotsched = False, eliminating = True, blocking = False,
     donotelm = (\<lambda>x. False), donotblk = (\<lambda>x. False), occs = True, touching = True, elmt = ex_touched\<rparr>"

lemma e_below_5: "1 \<le> x \<Longrightarrow> x < 5 \<Longrightarrow> x = 1 \<or> x = 2 \<or> x = 3 \<or> x = (4::nat)"
  by auto

lemma ex_elim_ok: "e_ok ex_elim"
proof -
  have "t_ok \<lparr>current = 8, maxbytes = 8\<rparr> ex_touched"
    using ex_touched_ok by (simp add: t_ok_def stk_ok_def mem_ok_def ex_touched_def)
  then have "e_mem ex_elim" by (simp add: e_mem_def ex_elim_def mem_ok_def ex_touched_def)
  moreover have "e_heap ex_elim"
    by (auto simp: e_heap_def ex_elim_def contents_def eheap.sched_ok_def hp_ok_def heap_ord_def par_def
        eheap.vkey_def ekey_def less_Suc_eq numeral_2_eq_2 dest!: e_below_5)
  ultimately show ?thesis by (simp add: e_ok_def)
qed


theorem lglpopesched_sorts_witness:
  "\<exists>ys lgl'. pops lglpopesched ex_elim 2 = Some (ys, lgl') \<and> e_ok lgl' \<and> contents (esched lgl') = [] \<and>
     mset ys = mset (contents (esched ex_elim)) \<and>
     sorted_wrt (\<lambda>x y. escore (evars ex_elim ! x) \<le> escore (evars ex_elim ! y)) ys"
  by (rule lglpopesched_sorts [OF ex_elim_ok]) (simp_all add: ex_elim_def contents_def)

end
